(* ===== verification/Prelude.thy ===== *)
theory Prelude
  imports Main "HOL-Library.Word" "HOL-Library.Sublist"
begin

text \<open>
  Shared vocabulary of the development: the machine types of \<^verbatim>\<open>types.h\<close>, the ways in which
  code stops without returning, C strings held in byte buffers, and the generic facts on
  lists and words that the component theories use.

  A C \<^verbatim>\<open>char\<close> is a HOL \<^typ>\<open>char\<close>, which is exactly one byte. A C buffer is a list of
  characters of the buffer's size; the C string it holds is the part before its first NUL.
\<close>

unbundle bit_operations_syntax

section \<open>Machine types and faults\<close>

type_synonym uint = "32 word"
type_synonym ushort = "16 word"
type_synonym uchar = "8 word"
type_synonym buffer = "char list"

text \<open>How an operation of the kernel or of a user program can stop instead of returning.\<close>

datatype fault =
    Panic string          \<comment> \<open>\<^verbatim>\<open>panic(s)\<close> of \<^verbatim>\<open>console.c\<close> or of the shell\<close>
  | OutOfBounds string    \<comment> \<open>an array access outside the array; the array's name\<close>
  | NullPointer string    \<comment> \<open>a store through, or a use of, a null pointer\<close>
  | Sleeps string         \<comment> \<open>\<^verbatim>\<open>sleep\<close> on the named object until another process wakes the caller\<close>
  | BadArgument string    \<comment> \<open>a variadic argument read with the wrong type or past the last one\<close>

section \<open>Collections of facts\<close>

named_theorems c_string_simps \<open>evaluation of the C string routines\<close>
named_theorems invariant_intros \<open>operations keep their component's invariant\<close>

section \<open>Characters\<close>

abbreviation NUL :: char where
  "NUL \<equiv> CHR 0x00"

abbreviation NEWLINE :: char where
  "NEWLINE \<equiv> CHR 0x0A"

text \<open>The byte that is stored when a wider integer is assigned to a \<^verbatim>\<open>char\<close>.\<close>

definition byte_of :: "uint \<Rightarrow> char" where
  "byte_of w = char_of (unat w)"

text \<open>The value of a byte read as \<^verbatim>\<open>uchar\<close>, and as a (signed) \<^verbatim>\<open>char\<close> promoted to \<^verbatim>\<open>int\<close>.\<close>

definition uchar_val :: "char \<Rightarrow> int" where
  "uchar_val c = of_char c"

definition schar_val :: "char \<Rightarrow> int" where
  "schar_val c = (if uchar_val c < 128 then uchar_val c else uchar_val c - 256)"

lemma of_char_less_256 [simp]: "(of_char c :: nat) < 256"
  using nat_of_char_less_256 by simp

lemma uchar_val_range: "0 \<le> uchar_val c" "uchar_val c < 256"
proof -
  have "uchar_val c = int (of_char c)"
    by (simp add: uchar_val_def of_nat_of_char)
  then show "0 \<le> uchar_val c" "uchar_val c < 256" by simp_all
qed

lemma uchar_val_eq_iff [simp]: "uchar_val c = uchar_val d \<longleftrightarrow> c = d"
  by (simp add: uchar_val_def)

lemma uchar_val_eq_0_iff [simp]: "uchar_val c = 0 \<longleftrightarrow> c = NUL"
proof -
  have "uchar_val NUL = 0" by (simp add: uchar_val_def)
  then show ?thesis by (metis uchar_val_eq_iff)
qed

section \<open>C strings in buffers\<close>

text \<open>The C string held by a buffer: everything before the first NUL.\<close>

definition cstr :: "buffer \<Rightarrow> string" where
  "cstr b = takeWhile (\<lambda>c. c \<noteq> NUL) b"

definition terminated :: "buffer \<Rightarrow> bool" where
  "terminated b \<longleftrightarrow> NUL \<in> set b"

text \<open>
  A buffer of \<open>n\<close> bytes that holds the string \<open>s\<close> and zeroes after it: what \<^verbatim>\<open>memset\<close> to 0
  followed by \<^verbatim>\<open>strcpy\<close> leaves.
\<close>

definition zbuf :: "nat \<Rightarrow> string \<Rightarrow> buffer" where
  "zbuf n s = s @ replicate (n - length s) NUL"

definition nul_free :: "string \<Rightarrow> bool" where
  "nul_free s \<longleftrightarrow> NUL \<notin> set s"

lemma cstr_nul_free [simp]: "nul_free (cstr b)"
  by (auto simp: nul_free_def cstr_def dest: set_takeWhileD)

lemma cstr_id: "nul_free s \<Longrightarrow> cstr s = s"
  unfolding nul_free_def cstr_def by (induction s) auto

lemma cstr_append_NUL [simp]: "nul_free s \<Longrightarrow> cstr (s @ NUL # r) = s"
  using cstr_id [of s] by (simp add: cstr_def takeWhile_tail)

lemma nul_free_simps [simp]:
  "nul_free []" "nul_free (c # s) \<longleftrightarrow> c \<noteq> NUL \<and> nul_free s"
  "nul_free (s @ t) \<longleftrightarrow> nul_free s \<and> nul_free t"
  by (auto simp: nul_free_def)

lemma nul_free_take [simp]: "nul_free s \<Longrightarrow> nul_free (take n s)"
  by (auto simp: nul_free_def dest: in_set_takeD)

lemma nul_free_drop [simp]: "nul_free s \<Longrightarrow> nul_free (drop n s)"
  by (auto simp: nul_free_def dest: in_set_dropD)

lemma length_zbuf [simp]: "length s \<le> n \<Longrightarrow> length (zbuf n s) = n"
  by (simp add: zbuf_def)

lemma cstr_zbuf [simp]:
  assumes "nul_free s"
  shows "cstr (zbuf n s) = s"
proof (cases "n - length s")
  case 0
  with assms show ?thesis by (simp add: zbuf_def cstr_id)
next
  case (Suc k)
  with assms show ?thesis by (simp add: zbuf_def)
qed

lemma cstr_replicate_NUL [simp]: "cstr (replicate n NUL) = []"
  by (cases n) (simp_all add: cstr_def)

lemma zbuf_Nil [simp]: "zbuf n [] = replicate n NUL"
  by (simp add: zbuf_def)

lemma terminated_zbuf [simp]: "length s < n \<Longrightarrow> terminated (zbuf n s)"
  by (simp add: terminated_def zbuf_def)

lemma nth_zbuf:
  "i < n \<Longrightarrow> length s \<le> n \<Longrightarrow> zbuf n s ! i = (if i < length s then s ! i else NUL)"
  by (simp add: zbuf_def nth_append)

lemma terminatedE:
  assumes "terminated b"
  obtains s r where "b = s @ NUL # r" "nul_free s" "cstr b = s"
proof -
  from assms have "NUL \<in> set b" by (simp add: terminated_def)
  from split_list_first [OF this] obtain s r where b: "b = s @ NUL # r" and s: "nul_free s"
    by (auto simp: nul_free_def)
  show thesis by (rule that [OF b s]) (simp add: b s)
qed

lemma terminated_split:
  "terminated b \<Longrightarrow> cstr b @ NUL # drop (Suc (length (cstr b))) b = b"
  by (erule terminatedE) simp

lemma length_cstr_terminated: "terminated b \<Longrightarrow> length (cstr b) < length b"
  by (erule terminatedE) simp

lemma length_cstr_le: "length (cstr b) \<le> length b"
  by (simp add: cstr_def length_takeWhile_le)

text \<open>\<^verbatim>\<open>strcpy\<close> and \<^verbatim>\<open>strcat\<close> between two separate buffers.\<close>

definition buf_strcpy :: "buffer \<Rightarrow> buffer \<Rightarrow> buffer" where
  "buf_strcpy dst src = cstr src @ NUL # drop (Suc (length (cstr src))) dst"

lemma cstr_buf_strcpy [simp]: "cstr (buf_strcpy d s) = cstr s"
  by (simp add: buf_strcpy_def)

lemma terminated_buf_strcpy [simp]: "terminated (buf_strcpy d s)"
  by (simp add: buf_strcpy_def terminated_def)

lemma length_buf_strcpy [simp]: "length (cstr s) < length d \<Longrightarrow> length (buf_strcpy d s) = length d"
  by (simp add: buf_strcpy_def)

lemma buf_strcpy_zeroes:
  "length (cstr s) < n \<Longrightarrow> buf_strcpy (replicate n NUL) s = zbuf n (cstr s)"
  by (simp add: buf_strcpy_def zbuf_def Suc_diff_Suc flip: replicate_Suc)

section \<open>Lists\<close>

lemma map_nth_drop: "j \<le> length xs \<Longrightarrow> map ((!) xs) [j..<length xs] = drop j xs"
  by (rule nth_equalityI) auto

lemma nth_list_update_range:
  "i < length xs \<Longrightarrow> xs[i := v] ! j = (if i = j then v else xs ! j)"
  by simp

lemma update_append_length: "(xs @ y # ys)[length xs := z] = xs @ z # ys"
  by simp

section \<open>Numerals\<close>

text \<open>
  The digits of a number in base \<open>b\<close>, most significant first: the reference for the digit
  loops of \<^verbatim>\<open>printint\<close> and \<^verbatim>\<open>number2string\<close>.
\<close>

fun nat_digits :: "nat \<Rightarrow> nat \<Rightarrow> nat list" where
  "nat_digits b n = (if b < 2 \<or> n < b then [n] else nat_digits b (n div b) @ [n mod b])"

declare nat_digits.simps [simp del]

definition digits_value :: "nat \<Rightarrow> nat list \<Rightarrow> nat" where
  "digits_value b ds = foldl (\<lambda>v d. v * b + d) 0 ds"

lemma nat_digits_small: "n < b \<Longrightarrow> nat_digits b n = [n]"
  by (simp add: nat_digits.simps [of b n])

lemma nat_digits_step: "2 \<le> b \<Longrightarrow> b \<le> n \<Longrightarrow> nat_digits b n = nat_digits b (n div b) @ [n mod b]"
  by (simp add: nat_digits.simps [of b n])

lemma nat_digits_induct [consumes 1, case_names small step]:
  fixes b n :: nat
  assumes "2 \<le> b"
    and "\<And>n. n < b \<Longrightarrow> P n"
    and "\<And>n. b \<le> n \<Longrightarrow> P (n div b) \<Longrightarrow> P n"
  shows "P n"
proof (induction n rule: less_induct)
  case (less n)
  show ?case
  proof (cases "n < b")
    case True
    then show ?thesis by (rule assms(2))
  next
    case False
    with assms(1) have "n div b < n" by (intro div_less_dividend) auto
    then have "P (n div b)" by (rule less.IH)
    moreover have "b \<le> n" using False by simp
    ultimately show ?thesis by (rule assms(3) [rotated])
  qed
qed

lemma digits_value_append_single: "digits_value b (ds @ [d]) = digits_value b ds * b + d"
  by (simp add: digits_value_def)

lemma digits_value_nat_digits:
  assumes "2 \<le> b"
  shows "digits_value b (nat_digits b n) = n"
  using assms
proof (induction n rule: nat_digits_induct)
  case (small n)
  then show ?case by (simp add: digits_value_def nat_digits_small)
next
  case (step n)
  with assms show ?case by (simp add: digits_value_append_single nat_digits_step [of b n])
qed

lemma nat_digits_bound:
  assumes "2 \<le> b"
  shows "\<forall>d \<in> set (nat_digits b n). d < b"
  using assms
proof (induction n rule: nat_digits_induct)
  case (small n)
  then show ?case by (simp add: nat_digits_small)
next
  case (step n)
  with assms show ?case by (simp add: nat_digits_step [of b n])
qed

lemma nat_digits_not_Nil [simp]: "nat_digits b n \<noteq> []"
  by (simp add: nat_digits.simps [of b n])

lemma length_nat_digits: "2 \<le> b \<Longrightarrow> n < b ^ Suc k \<Longrightarrow> length (nat_digits b n) \<le> Suc k"
proof (induction k arbitrary: n)
  case 0
  then show ?case by (simp add: nat_digits_small)
next
  case (Suc k)
  show ?case
  proof (cases "n < b")
    case True
    then show ?thesis by (simp add: nat_digits_small)
  next
    case False
    have "n div b < b ^ Suc k" using Suc.prems by (simp add: less_mult_imp_div_less mult.commute)
    with Suc.IH Suc.prems(1) have "length (nat_digits b (n div b)) \<le> Suc k" by blast
    with False Suc.prems(1) show ?thesis by (simp add: nat_digits_step [of b n])
  qed
qed

section \<open>Words\<close>

lemma word_div_eq_0_iff: "(x :: uint) div b = 0 \<longleftrightarrow> unat x div unat b = 0"
  by (metis unat_0_iff unat_div)

text \<open>A 32-bit word read as a signed number.\<close>

lemma sint_uint32: "sint (x :: uint) = (if uint x < 2 ^ 31 then uint x else uint x - 2 ^ 32)"
proof -
  have r: "0 \<le> uint x" "uint x < 2 ^ 32" using uint_lt2p [of x] by simp_all
  have s: "sint x = (uint x + 2 ^ 31) mod 2 ^ 32 - 2 ^ 31"
    by (simp add: sint_uint signed_take_bit_eq_take_bit_shift take_bit_eq_mod)
  show ?thesis
  proof (cases "uint x < 2 ^ 31")
    case True
    with r have "(uint x + 2 ^ 31) mod 2 ^ 32 = uint x + 2 ^ 31" by (intro mod_pos_pos_trivial) auto
    with s True show ?thesis by simp
  next
    case False
    have "(uint x - 2 ^ 31 + 2 ^ 32) mod 2 ^ 32 = (uint x - 2 ^ 31) mod 2 ^ 32"
      by (rule mod_add_self2)
    also have "\<dots> = uint x - 2 ^ 31" using False r by (intro mod_pos_pos_trivial) auto
    finally show ?thesis using s False by (simp add: add.commute)
  qed
qed

lemma unat_nonneg_sint: "0 \<le> sint (x :: uint) \<Longrightarrow> unat x = nat (sint x)"
  using uint_lt2p [of x] by (simp add: sint_uint32 split: if_splits)

lemma unat_uminus_neg_sint:
  assumes "sint (x :: uint) < 0"
  shows "unat (- x) = nat (- sint x)"
proof -
  have r: "2 ^ 31 \<le> uint x" "uint x < 2 ^ 32"
    using assms uint_lt2p [of x] by (auto simp: sint_uint32 split: if_splits)
  have "uint (- x) = (- uint x + 2 ^ 32) mod 2 ^ 32"
    using mod_add_self2 [of "- uint x" "2 ^ 32"] by (simp add: uint_word_ariths)
  also have "\<dots> = - uint x + 2 ^ 32" using r by (intro mod_pos_pos_trivial) auto
  finally have "uint (- x) = 2 ^ 32 - uint x" by simp
  with r show ?thesis by (simp add: sint_uint32 flip: nat_uint_eq)
qed

lemma unat_eq_of_nat_iff:
  assumes "n < 2 ^ 32"
  shows "unat (x :: uint) = n \<longleftrightarrow> x = of_nat n"
proof
  assume "unat x = n"
  then have "of_nat n = (of_nat (unat x) :: uint)" by simp
  then show "x = of_nat n" by simp
next
  assume "x = of_nat n"
  with assms show "unat x = n" by (simp add: unat_of_nat)
qed

end
