(* ===== verification/C_Strings.thy ===== *)
theory C_Strings
  imports Prelude
begin

text \<open>
  The memory and string routines of \<^verbatim>\<open>string.c\<close> (kernel) and \<^verbatim>\<open>ulib.c\<close> (user programs), over a
  memory that maps addresses to bytes, so that overlapping arguments behave as in the
  code. A loop that only stops at a NUL is a \<^theory_text>\<open>partial_function (option)\<close>: not
  returning is \<^term>\<open>None\<close>. The lemmas say what each routine does to the whole memory, and
  relate it to the buffers of the prelude.
\<close>

type_synonym mem = "nat \<Rightarrow> char"

section \<open>The routines\<close>

subsection \<open>\<open>x86.h\<close> and \<open>string.c\<close>\<close>

text \<open>\<^verbatim>\<open>rep stosb\<close>: \<open>cnt\<close> bytes from \<open>addr\<close> upwards.\<close>

fun stosb :: "mem \<Rightarrow> nat \<Rightarrow> uint \<Rightarrow> nat \<Rightarrow> mem" where
  "stosb m addr data 0 = m"
| "stosb m addr data (Suc cnt) = stosb (m(addr := byte_of data)) (addr + 1) data cnt"

text \<open>\<^verbatim>\<open>rep stosl\<close>: \<open>cnt\<close> little-endian words.\<close>

fun stosl :: "mem \<Rightarrow> nat \<Rightarrow> uint \<Rightarrow> nat \<Rightarrow> mem" where
  "stosl m addr data 0 = m"
| "stosl m addr data (Suc cnt) =
     stosl (m(addr := byte_of data,
              addr + 1 := byte_of (drop_bit 8 data),
              addr + 2 := byte_of (drop_bit 16 data),
              addr + 3 := byte_of (drop_bit 24 data))) (addr + 4) data cnt"

text \<open>\<^verbatim>\<open>(c<<24)|(c<<16)|(c<<8)|c\<close>\<close>

definition word_of_byte :: "uint \<Rightarrow> uint" where
  "word_of_byte c = push_bit 24 c OR push_bit 16 c OR push_bit 8 c OR c"

definition memset :: "mem \<Rightarrow> nat \<Rightarrow> uint \<Rightarrow> nat \<Rightarrow> mem" where
  "memset m dst c n =
     (if dst mod 4 = 0 \<and> n mod 4 = 0 then
        stosl m dst (word_of_byte (c AND 0xFF)) (n div 4)
      else stosb m dst c n)"

fun memcmp :: "mem \<Rightarrow> nat \<Rightarrow> nat \<Rightarrow> nat \<Rightarrow> int" where
  "memcmp m s1 s2 0 = 0"
| "memcmp m s1 s2 (Suc n) =
     (if m s1 \<noteq> m s2 then uchar_val (m s1) - uchar_val (m s2)
      else memcmp m (s1 + 1) (s2 + 1) n)"

fun copy_up :: "mem \<Rightarrow> nat \<Rightarrow> nat \<Rightarrow> nat \<Rightarrow> mem" where
  "copy_up m d s 0 = m"
| "copy_up m d s (Suc n) = copy_up (m(d := m s)) (d + 1) (s + 1) n"

text \<open>The pointers of this loop start \<open>n\<close> bytes above \<open>d\<close> and \<open>s\<close> and are decremented first.\<close>

fun copy_down :: "mem \<Rightarrow> nat \<Rightarrow> nat \<Rightarrow> nat \<Rightarrow> mem" where
  "copy_down m d s 0 = m"
| "copy_down m d s (Suc n) = copy_down (m(d + n := m (s + n))) d s n"

definition memmove :: "mem \<Rightarrow> nat \<Rightarrow> nat \<Rightarrow> nat \<Rightarrow> mem" where
  "memmove m dst src n =
     (if src < dst \<and> src + n > dst then copy_down m dst src n else copy_up m dst src n)"

definition memcpy :: "mem \<Rightarrow> nat \<Rightarrow> nat \<Rightarrow> nat \<Rightarrow> mem" where
  "memcpy m dst src n = memmove m dst src n"

fun strncmp :: "mem \<Rightarrow> nat \<Rightarrow> nat \<Rightarrow> nat \<Rightarrow> int" where
  "strncmp m p q 0 = 0"
| "strncmp m p q (Suc n) =
     (if m p \<noteq> NUL \<and> m p = m q then strncmp m (p + 1) (q + 1) n
      else uchar_val (m p) - uchar_val (m q))"

fun zero_fill :: "mem \<Rightarrow> nat \<Rightarrow> nat \<Rightarrow> mem" where
  "zero_fill m s 0 = m"
| "zero_fill m s (Suc n) = zero_fill (m(s := NUL)) (s + 1) n"

fun strncpy :: "mem \<Rightarrow> nat \<Rightarrow> nat \<Rightarrow> nat \<Rightarrow> mem" where
  "strncpy m s t 0 = m"
| "strncpy m s t (Suc n) =
     (let m' = m(s := m t) in
      if m t \<noteq> NUL then strncpy m' (s + 1) (t + 1) n else zero_fill m' (s + 1) n)"

text \<open>The loop of \<^verbatim>\<open>safestrcpy\<close>, with \<open>n\<close> the value that \<^verbatim>\<open>--n\<close> leaves at the first test.\<close>

fun safestrcpy_loop :: "mem \<Rightarrow> nat \<Rightarrow> nat \<Rightarrow> nat \<Rightarrow> mem" where
  "safestrcpy_loop m s t 0 = m(s := NUL)"
| "safestrcpy_loop m s t (Suc n) =
     (let m' = m(s := m t) in
      if m t \<noteq> NUL then safestrcpy_loop m' (s + 1) (t + 1) n else m'(s + 1 := NUL))"

definition safestrcpy :: "mem \<Rightarrow> nat \<Rightarrow> nat \<Rightarrow> int \<Rightarrow> mem" where
  "safestrcpy m s t n = (if n \<le> 0 then m else safestrcpy_loop m s t (nat n - 1))"

partial_function (option) strlen_from :: "mem \<Rightarrow> nat \<Rightarrow> nat \<Rightarrow> nat option" where
  "strlen_from m s n = (if m (s + n) \<noteq> NUL then strlen_from m s (n + 1) else Some n)"

definition strlen :: "mem \<Rightarrow> nat \<Rightarrow> nat option" where
  "strlen m s = strlen_from m s 0"

subsection \<open>\<open>ulib.c\<close>\<close>

partial_function (option) strcpy :: "mem \<Rightarrow> nat \<Rightarrow> nat \<Rightarrow> mem option" where
  "strcpy m s t =
     (let m' = m(s := m t) in if m t \<noteq> NUL then strcpy m' (s + 1) (t + 1) else Some m')"

partial_function (option) strcmp :: "mem \<Rightarrow> nat \<Rightarrow> nat \<Rightarrow> int option" where
  "strcmp m p q =
     (if m p \<noteq> NUL \<and> m p = m q then strcmp m (p + 1) (q + 1)
      else Some (uchar_val (m p) - uchar_val (m q)))"

text \<open>\<^verbatim>\<open>memset\<close> and \<^verbatim>\<open>memmove\<close> of the user library: byte stores only, and always upwards.\<close>

definition ulib_memset :: "mem \<Rightarrow> nat \<Rightarrow> uint \<Rightarrow> nat \<Rightarrow> mem" where
  "ulib_memset m dst c n = stosb m dst c n"

definition ulib_memmove :: "mem \<Rightarrow> nat \<Rightarrow> nat \<Rightarrow> int \<Rightarrow> mem" where
  "ulib_memmove m vdst vsrc n = copy_up m vdst vsrc (nat n)"

text \<open>The address of the first \<open>c\<close>, or \<^term>\<open>None\<close> for a null pointer.\<close>

partial_function (option) strchr :: "mem \<Rightarrow> nat \<Rightarrow> char \<Rightarrow> nat option option" where
  "strchr m s c =
     (if m s = NUL then Some None
      else if m s = c then Some (Some s) else strchr m (s + 1) c)"

text \<open>\<^verbatim>\<open>n*10 + *s++ - '0'\<close> in 32-bit two's complement arithmetic.\<close>

partial_function (option) atoi_from :: "mem \<Rightarrow> nat \<Rightarrow> uint \<Rightarrow> uint option" where
  "atoi_from m s n =
     (if 48 \<le> schar_val (m s) \<and> schar_val (m s) \<le> 57
      then atoi_from m (s + 1) (n * 10 + word_of_int (schar_val (m s)) - 48)
      else Some n)"

definition atoi :: "mem \<Rightarrow> nat \<Rightarrow> uint option" where
  "atoi m s = atoi_from m s 0"

text \<open>The same loop over the characters of a C string.\<close>

fun atoi_str :: "string \<Rightarrow> uint \<Rightarrow> uint" where
  "atoi_str [] n = n"
| "atoi_str (c # s) n =
     (if 48 \<le> schar_val c \<and> schar_val c \<le> 57
      then atoi_str s (n * 10 + word_of_int (schar_val c) - 48) else n)"

text \<open>
  \<^verbatim>\<open>gets\<close> over the bytes that descriptor 0 will deliver: the bytes stored before the final
  NUL, and the input that is left. \<open>room\<close> is \<^verbatim>\<open>max - 1 - i\<close>; an exhausted input is the
  \<^verbatim>\<open>cc < 1\<close> of end of file.
\<close>

fun gets_loop :: "nat \<Rightarrow> string \<Rightarrow> string \<times> string" where
  "gets_loop 0 inp = ([], inp)"
| "gets_loop (Suc room) [] = ([], [])"
| "gets_loop (Suc room) (c # inp) =
     (if c = NEWLINE \<or> c = CHR 0x0D then ([c], inp)
      else let (s, rest) = gets_loop room inp in (c # s, rest))"

definition gets :: "nat \<Rightarrow> string \<Rightarrow> string \<times> string" where
  "gets mx inp = gets_loop (mx - 1) inp"

section \<open>What the routines do to memory\<close>

lemma stosb_apply: "stosb m d c n a = (if d \<le> a \<and> a < d + n then byte_of c else m a)"
  by (induction n arbitrary: m d) auto

lemma zero_fill_apply: "zero_fill m d n a = (if d \<le> a \<and> a < d + n then NUL else m a)"
  by (induction n arbitrary: m d) auto

lemma copy_up_apply:
  "d \<le> s \<or> s + n \<le> d \<Longrightarrow>
     copy_up m d s n a = (if d \<le> a \<and> a < d + n then m (s + (a - d)) else m a)"
proof (induction n arbitrary: m d s)
  case 0
  show ?case by auto
next
  case (Suc n)
  then have "copy_up (m(d := m s)) (d + 1) (s + 1) n a =
      (if d + 1 \<le> a \<and> a < d + 1 + n then (m(d := m s)) (s + 1 + (a - (d + 1)))
       else (m(d := m s)) a)"
    by (intro Suc.IH) auto
  moreover have "Suc (s + a - Suc d) = s + a - d" if "Suc d \<le> a"
    using that by arith
  ultimately show ?case using Suc.prems by auto
qed

lemma copy_down_apply:
  "s \<le> d \<Longrightarrow> copy_down m d s n a = (if d \<le> a \<and> a < d + n then m (s + (a - d)) else m a)"
  by (induction n arbitrary: m) (auto simp: less_Suc_eq)

subsection \<open>\<open>memset\<close>: the word loop agrees with the byte loop\<close>

lemma byte_of_cong:
  assumes "\<And>i. i < 8 \<Longrightarrow> bit x i = bit y i"
  shows "byte_of x = byte_of y"
  by (simp add: byte_of_def char_of_def bit_unsigned_iff assms)

lemma stosl_apply:
  assumes "byte_of (drop_bit 8 w) = byte_of w" "byte_of (drop_bit 16 w) = byte_of w"
    "byte_of (drop_bit 24 w) = byte_of w"
  shows "stosl m d w k a = (if d \<le> a \<and> a < d + 4 * k then byte_of w else m a)"
  using assms by (induction k arbitrary: m d) auto

lemma bit_and_255: "bit ((c :: uint) AND 0xFF) i \<longleftrightarrow> i < 8 \<and> bit c i"
proof -
  have "(0xFF :: uint) = mask 8" by (simp add: mask_eq_exp_minus_1)
  then have "c AND 0xFF = take_bit 8 c" by (simp only: take_bit_eq_mask)
  then show ?thesis by (simp add: bit_take_bit_iff)
qed

lemma bit_word_of_byte:
  assumes small: "\<And>j. bit c j \<Longrightarrow> j < 8" and "i < 32"
  shows "bit (word_of_byte c) i = bit c (i mod 8)"
proof -
  have big: "\<not> bit c j" if "8 \<le> j" for j
    using small [of j] that by linarith
  have eq: "bit (word_of_byte c) i \<longleftrightarrow> 24 \<le> i \<and> bit c (i - 24) \<or> 16 \<le> i \<and> bit c (i - 16)
      \<or> 8 \<le> i \<and> bit c (i - 8) \<or> bit c i"
    using \<open>i < 32\<close> by (simp add: word_of_byte_def bit_or_iff bit_push_bit_iff)
  consider "i < 8" | "8 \<le> i" "i < 16" | "16 \<le> i" "i < 24" | "24 \<le> i" "i < 32"
    using \<open>i < 32\<close> by linarith
  then show ?thesis
  proof cases
    case 1
    then show ?thesis by (simp add: eq)
  next
    case 2
    then have "i mod 8 = i - 8" by (simp add: mod_if)
    with 2 show ?thesis by (simp add: eq big)
  next
    case 3
    then have "i mod 8 = i - 16" by (simp add: mod_if)
    with 3 show ?thesis by (simp add: eq big)
  next
    case 4
    then have "i mod 8 = i - 24" by (simp add: mod_if)
    with 4 show ?thesis by (simp add: eq big)
  qed
qed

lemma byte_of_word_of_byte:
  assumes "k \<in> {0, 8, 16, 24}"
  shows "byte_of (drop_bit k (word_of_byte (c AND 0xFF))) = byte_of c"
proof (rule byte_of_cong)
  fix i :: nat
  assume i: "i < 8"
  with assms have "k + i < 32" and km: "(k + i) mod 8 = i" by auto presburger+
  have "bit (word_of_byte (c AND 0xFF)) (k + i) = bit (c AND 0xFF) ((k + i) mod 8)"
    using \<open>k + i < 32\<close> by (intro bit_word_of_byte) (simp_all only: bit_and_255)
  then show "bit (drop_bit k (word_of_byte (c AND 0xFF))) i = bit c i"
    by (simp only: bit_drop_bit_eq comp_apply bit_and_255 km i simp_thms)
qed

lemmas byte_of_word_of_bytes =
  byte_of_word_of_byte [of 0, simplified] byte_of_word_of_byte [of 8, simplified]
  byte_of_word_of_byte [of 16, simplified] byte_of_word_of_byte [of 24, simplified]

lemma memset_apply:
  "memset m dst c n a = (if dst \<le> a \<and> a < dst + n then byte_of c else m a)"
proof (cases "dst mod 4 = 0 \<and> n mod 4 = 0")
  case True
  then have "4 * (n div 4) = n" by (simp add: mult.commute dvd_div_mult_self mod_eq_0_iff_dvd)
  with True show ?thesis
    by (simp add: memset_def stosl_apply byte_of_word_of_bytes)
next
  case False
  then show ?thesis by (auto simp: memset_def stosb_apply)
qed

subsection \<open>\<open>memmove\<close>\<close>

lemma memmove_apply:
  "memmove m dst src n a = (if dst \<le> a \<and> a < dst + n then m (src + (a - dst)) else m a)"
proof (cases "src < dst \<and> src + n > dst")
  case True
  then show ?thesis by (simp add: memmove_def copy_down_apply)
next
  case False
  then have "dst \<le> src \<or> src + n \<le> dst" by linarith
  with False show ?thesis by (auto simp: memmove_def copy_up_apply)
qed

section \<open>C strings in memory\<close>

fun string_at :: "mem \<Rightarrow> nat \<Rightarrow> string \<Rightarrow> bool" where
  "string_at m a [] \<longleftrightarrow> m a = NUL"
| "string_at m a (c # s) \<longleftrightarrow> c \<noteq> NUL \<and> m a = c \<and> string_at m (a + 1) s"

lemma string_at_nul_free: "string_at m a s \<Longrightarrow> nul_free s"
  by (induction s arbitrary: a) auto

lemma string_at_nth: "string_at m a s \<Longrightarrow> i < length s \<Longrightarrow> m (a + i) = s ! i"
proof (induction s arbitrary: a i)
  case Nil
  then show ?case by simp
next
  case (Cons c s)
  show ?case
  proof (cases i)
    case 0
    with Cons.prems show ?thesis by simp
  next
    case (Suc j)
    with Cons.prems Cons.IH [of "a + 1" j] show ?thesis by simp
  qed
qed

lemma string_at_end: "string_at m a s \<Longrightarrow> m (a + length s) = NUL"
proof (induction s arbitrary: a)
  case Nil
  then show ?case by simp
next
  case (Cons c s)
  from Cons.IH [of "a + 1"] Cons.prems show ?case by simp
qed

lemma string_atI:
  "nul_free s \<Longrightarrow> (\<And>i. i < length s \<Longrightarrow> m (a + i) = s ! i) \<Longrightarrow> m (a + length s) = NUL
     \<Longrightarrow> string_at m a s"
proof (induction s arbitrary: a)
  case Nil
  then show ?case by simp
next
  case (Cons c s)
  have "string_at m (a + 1) s"
  proof (rule Cons.IH)
    show "nul_free s" using Cons.prems(1) by simp
    show "m (a + 1 + i) = s ! i" if "i < length s" for i
      using Cons.prems(2) [of "Suc i"] that by simp
    show "m (a + 1 + length s) = NUL" using Cons.prems(3) by simp
  qed
  then show ?case using Cons.prems(1) Cons.prems(2) [of 0] by simp
qed

lemma string_at_cong:
  "(\<And>i. i \<le> length s \<Longrightarrow> m' (a + i) = m (a + i)) \<Longrightarrow> string_at m' a s = string_at m a s"
proof (induction s arbitrary: a)
  case Nil
  then show ?case by (simp add: Nil.prems [of 0, simplified])
next
  case (Cons c s)
  have "string_at m' (a + 1) s = string_at m (a + 1) s"
    using Cons.prems [of "Suc _"] by (intro Cons.IH) simp
  then show ?case using Cons.prems [of 0] by simp
qed

lemma string_at_unique: "string_at m a s \<Longrightarrow> string_at m a t \<Longrightarrow> s = t"
proof (induction s arbitrary: a t)
  case Nil
  then show ?case by (cases t) auto
next
  case (Cons c s)
  then show ?case by (cases t) auto
qed

lemma strlen_from_string_at: "string_at m (a + n) s \<Longrightarrow> strlen_from m a n = Some (n + length s)"
proof (induction s arbitrary: n)
  case Nil
  then show ?case by (simp add: strlen_from.simps)
next
  case (Cons c s)
  then have "strlen_from m a (n + 1) = Some (n + 1 + length s)"
    by (intro Cons.IH) simp
  with Cons.prems show ?case by (simp add: strlen_from.simps [of m a n])
qed

lemma strlen_string_at [c_string_simps]: "string_at m a s \<Longrightarrow> strlen m a = Some (length s)"
  using strlen_from_string_at [of m a 0 s] by (simp add: strlen_def)

lemma strcpy_string_at:
  "string_at m t s \<Longrightarrow> d + length s < t \<or> t + length s < d \<Longrightarrow>
     strcpy m d t = Some (copy_up m d t (length s + 1))"
proof (induction s arbitrary: m d t)
  case Nil
  then show ?case by (subst strcpy.simps) (simp add: Let_def)
next
  case (Cons c s)
  have "string_at (m(d := m t)) (t + 1) s = string_at m (t + 1) s"
    using Cons.prems(2) by (intro string_at_cong) auto
  with Cons.prems(1) have at: "string_at (m(d := m t)) (t + 1) s" by simp
  have "d + 1 + length s < t + 1 \<or> t + 1 + length s < d + 1" using Cons.prems(2) by auto
  from Cons.IH [OF at this] have "strcpy (m(d := m t)) (d + 1) (t + 1)
      = Some (copy_up (m(d := m t)) (d + 1) (t + 1) (length s + 1))"
    .
  with Cons.prems(1) show ?case by (subst strcpy.simps) (simp add: Let_def)
qed

lemma strcmp_string_at:
  "string_at m p s \<Longrightarrow> string_at m q t \<Longrightarrow> \<exists>r. strcmp m p q = Some r \<and> (r = 0 \<longleftrightarrow> s = t)"
proof (induction s arbitrary: p q t)
  case Nil
  then have "strcmp m p q = Some (uchar_val NUL - uchar_val (m q))"
    by (simp add: strcmp.simps [of m p q])
  with Nil.prems show ?case by (cases t) auto
next
  case (Cons c s)
  show ?case
  proof (cases "m p = m q")
    case False
    with Cons.prems show ?thesis by (cases t) (auto simp: strcmp.simps [of m p q])
  next
    case True
    with Cons.prems obtain t' where t: "t = c # t'" "string_at m (q + 1) t'"
      by (cases t) auto
    with Cons.IH [of "p + 1" "q + 1" t'] Cons.prems obtain r where
      "strcmp m (p + 1) (q + 1) = Some r" "r = 0 \<longleftrightarrow> s = t'" by auto
    with True Cons.prems t show ?thesis by (simp add: strcmp.simps [of m p q])
  qed
qed

lemma strchr_string_at:
  "string_at m a s \<Longrightarrow> c \<noteq> NUL \<Longrightarrow>
     strchr m a c = Some (if c \<in> set s then Some (a + length (takeWhile (\<lambda>x. x \<noteq> c) s)) else None)"
proof (induction s arbitrary: a)
  case Nil
  then show ?case by (simp add: strchr.simps [of m a c])
next
  case (Cons x s)
  then have "strchr m (a + 1) c =
      Some (if c \<in> set s then Some (a + 1 + length (takeWhile (\<lambda>x. x \<noteq> c) s)) else None)"
    by simp
  with Cons.prems show ?case by (simp add: strchr.simps [of m a c])
qed

lemma atoi_from_string_at: "string_at m a s \<Longrightarrow> atoi_from m a n = Some (atoi_str s n)"
proof (induction s arbitrary: a n)
  case Nil
  then show ?case by (simp add: atoi_from.simps [of m a n] schar_val_def uchar_val_def)
next
  case (Cons c s)
  then show ?case by (simp add: atoi_from.simps [of m a n])
qed

text \<open>The routine over memory and the reference on strings agree.\<close>

lemma atoi_string_at [c_string_simps]: "string_at m a s \<Longrightarrow> atoi m a = Some (atoi_str s 0)"
  by (simp add: atoi_def atoi_from_string_at)

lemma strcpy_buf_strcpy:
  assumes src: "string_at m t s" and len: "length s < length d"
    and dst: "\<And>i. i < length d \<Longrightarrow> m (a + i) = d ! i"
    and sep: "a + length d \<le> t \<or> t + length s < a"
  obtains m' where "strcpy m a t = Some m'"
    "\<And>i. i < length d \<Longrightarrow> m' (a + i) = buf_strcpy d s ! i"
proof
  have nf: "nul_free s" using src by (rule string_at_nul_free)
  show "strcpy m a t = Some (copy_up m a t (length s + 1))"
    using src sep len by (intro strcpy_string_at) auto
  show "copy_up m a t (length s + 1) (a + i) = buf_strcpy d s ! i" if i: "i < length d" for i
  proof -
    have "copy_up m a t (length s + 1) (a + i) =
        (if i < length s + 1 then m (t + i) else m (a + i))"
      using sep len by (subst copy_up_apply) auto
    moreover have "m (t + i) = (s @ [NUL]) ! i" if "i < length s + 1"
    proof (cases "i < length s")
      case True
      with src show ?thesis by (simp add: string_at_nth nth_append)
    next
      case False
      with that have "i = length s" by simp
      with src show ?thesis by (simp add: string_at_end)
    qed
    ultimately show ?thesis
      using i nf by (auto simp: buf_strcpy_def cstr_id dst nth_append nth_Cons')
  qed
qed

subsection \<open>Bounded copies\<close>

text \<open>
  \<^verbatim>\<open>strncpy\<close> from a string outside the destination fills exactly the \<open>n\<close> bytes of the
  destination: the string cut to \<open>n\<close> characters and zeroes after it. It leaves no NUL when
  the string has \<open>n\<close> characters or more.
\<close>

lemma strncpy_apply:
  "string_at m t src \<Longrightarrow> s + n \<le> t \<or> t + length src < s \<Longrightarrow>
     strncpy m s t n a =
       (if s \<le> a \<and> a < s + n then (if a - s < length src then src ! (a - s) else NUL) else m a)"
proof (induction src arbitrary: m s t n)
  case Nil
  then show ?case by (cases n) (auto simp: zero_fill_apply Let_def)
next
  case (Cons c src)
  show ?case
  proof (cases n)
    case 0
    then show ?thesis by auto
  next
    case (Suc k)
    have "string_at (m(s := m t)) (t + 1) src = string_at m (t + 1) src"
      using Cons.prems(2) Suc by (intro string_at_cong) auto
    with Cons.prems(1) have at: "string_at (m(s := m t)) (t + 1) src" by simp
    have "s + 1 + k \<le> t + 1 \<or> t + 1 + length src < s + 1" using Cons.prems(2) Suc by auto
    from Cons.IH [OF at this] have IH: "strncpy (m(s := m t)) (s + 1) (t + 1) k a =
        (if s + 1 \<le> a \<and> a < s + 1 + k
         then if a - (s + 1) < length src then src ! (a - (s + 1)) else NUL
         else (m(s := m t)) a)" .
    show ?thesis
    proof (cases "s + 1 \<le> a")
      case True
      then have "a - s = Suc (a - (s + 1))" by arith
      with True IH Cons.prems(1) Suc show ?thesis by (simp add: Let_def)
    next
      case False
      with IH Cons.prems(1) Suc show ?thesis by (auto simp: Let_def le_less_Suc_eq)
    qed
  qed
qed

lemma safestrcpy_loop_frame:
  "a < s \<or> s + n < a \<Longrightarrow> safestrcpy_loop m s t n a = m a"
  by (induction n arbitrary: m s t) (auto simp: Let_def)

lemma safestrcpy_loop_apply:
  "string_at m t src \<Longrightarrow> s + n < t \<or> t + length src < s \<Longrightarrow>
     string_at (safestrcpy_loop m s t n) s (take n src)"
proof (induction src arbitrary: m s t n)
  case Nil
  then show ?case by (cases n) (auto simp: Let_def)
next
  case (Cons c src)
  show ?case
  proof (cases n)
    case 0
    then show ?thesis by simp
  next
    case (Suc k)
    have "string_at (m(s := m t)) (t + 1) src = string_at m (t + 1) src"
      using Cons.prems(2) Suc by (intro string_at_cong) auto
    with Cons.prems(1) have at: "string_at (m(s := m t)) (t + 1) src" by simp
    have "s + 1 + k < t + 1 \<or> t + 1 + length src < s + 1" using Cons.prems(2) Suc by auto
    from Cons.IH [OF at this]
    have "string_at (safestrcpy_loop (m(s := m t)) (s + 1) (t + 1) k) (s + 1) (take k src)" .
    moreover have "safestrcpy_loop (m(s := m t)) (s + 1) (t + 1) k s = c"
      using Cons.prems(1) by (simp add: safestrcpy_loop_frame)
    ultimately show ?thesis using Cons.prems(1) Suc by (simp add: Let_def)
  qed
qed

lemma strncmp_string_at:
  "string_at m p s \<Longrightarrow> string_at m q t \<Longrightarrow> strncmp m p q n = 0 \<longleftrightarrow> take n s = take n t"
proof (induction n arbitrary: p q s t)
  case 0
  then show ?case by simp
next
  case (Suc n)
  show ?case
  proof (cases s)
    case Nil
    with Suc.prems show ?thesis by (cases t) auto
  next
    case s: (Cons c s')
    show ?thesis
    proof (cases t)
      case Nil
      with Suc.prems s show ?thesis by auto
    next
      case t: (Cons d t')
      from Suc.IH [of "p + 1" s' "q + 1" t'] Suc.prems s t show ?thesis by auto
    qed
  qed
qed

subsection \<open>\<open>gets\<close>\<close>

lemma gets_split: "gets mx inp = (s, rest) \<Longrightarrow> s @ rest = inp"
proof -
  have "gets_loop k i = (s, rest) \<Longrightarrow> s @ rest = i" for k i s rest
    by (induction k i arbitrary: s rest rule: gets_loop.induct)
      (auto split: if_splits prod.splits)
  then show "gets mx inp = (s, rest) \<Longrightarrow> s @ rest = inp" by (simp add: gets_def)
qed

lemma gets_length: "gets mx inp = (s, rest) \<Longrightarrow> length s \<le> mx - 1"
proof -
  have "gets_loop k i = (s, rest) \<Longrightarrow> length s \<le> k" for k i s rest
    by (induction k i arbitrary: s rest rule: gets_loop.induct)
      (auto split: if_splits prod.splits)
  then show "gets mx inp = (s, rest) \<Longrightarrow> length s \<le> mx - 1" by (simp add: gets_def)
qed

lemma gets_line:
  assumes "NEWLINE \<notin> set s" "CHR 0x0D \<notin> set s" "length s + 1 < mx"
  shows "gets mx (s @ NEWLINE # rest) = (s @ [NEWLINE], rest)"
proof -
  have "length s < k \<Longrightarrow> gets_loop k (s @ NEWLINE # rest) = (s @ [NEWLINE], rest)" for k
    using assms(1,2)
  proof (induction s arbitrary: k)
    case Nil
    then show ?case by (cases k) auto
  next
    case (Cons c s)
    then show ?case by (cases k) auto
  qed
  with assms(3) show ?thesis by (simp add: gets_def)
qed

lemma gets_empty_iff: "fst (gets mx inp) = [] \<longleftrightarrow> mx \<le> 1 \<or> inp = []"
  by (cases "mx - 1"; cases inp) (auto simp: gets_def split: prod.splits)

section \<open>Properties\<close>

text \<open>
  C36. The kernel's \<^verbatim>\<open>memset\<close>, which stores whole words when the address and the length are
  multiples of four, changes memory exactly as the plain byte loop does: every byte of the
  range becomes the low byte of \<open>c\<close> and no other byte changes.
\<close>

theorem memset_word_loop_equiv: "memset m dst c n = stosb m dst c n"
  by (simp add: fun_eq_iff memset_apply stosb_apply)

text \<open>
  C28. The kernel's \<^verbatim>\<open>memmove\<close> is right for overlapping ranges too: afterwards every byte of
  the destination holds what the corresponding source byte held before the call, and
  every byte outside the destination is unchanged.
\<close>

theorem memmove_overlap_safe:
  "memmove m dst src n = (\<lambda>a. if dst \<le> a \<and> a < dst + n then m (src + (a - dst)) else m a)"
  by (simp add: fun_eq_iff memmove_apply)

text \<open>
  C29. \<^verbatim>\<open>safestrcpy\<close> of a string that lies outside the \<open>n\<close>-byte destination leaves there the
  string cut to \<open>n - 1\<close> characters, always NUL-terminated, and writes nowhere else.
\<close>

theorem safestrcpy_terminates_and_fits:
  assumes "string_at m t src" and "0 < n" and "s + nat n \<le> t \<or> t + length src < s"
  shows "string_at (safestrcpy m s t n) s (take (nat n - 1) src)
    \<and> (\<forall>a. a < s \<or> s + nat n \<le> a \<longrightarrow> safestrcpy m s t n a = m a)"
proof
  show "string_at (safestrcpy m s t n) s (take (nat n - 1) src)"
    using assms by (auto simp: safestrcpy_def intro!: safestrcpy_loop_apply)
  show "\<forall>a. a < s \<or> s + nat n \<le> a \<longrightarrow> safestrcpy m s t n a = m a"
    using assms(2) by (auto simp: safestrcpy_def intro!: safestrcpy_loop_frame)
qed

text \<open>The name \<^verbatim>\<open>initcode\<close> copied into a 4-byte field at address 100.\<close>

definition sample_mem :: mem where
  "sample_mem a = (if 10 \<le> a \<and> a < 18 then ''initcode'' ! (a - 10) else NUL)"

lemma string_at_sample: "string_at sample_mem 10 ''initcode''"
  by (simp add: sample_mem_def)

theorem safestrcpy_witness:
  "string_at sample_mem 10 ''initcode'' \<and>
   string_at (safestrcpy sample_mem 100 10 4) 100 ''ini'' \<and>
   safestrcpy sample_mem 100 10 4 104 = sample_mem 104"
  using safestrcpy_terminates_and_fits [OF string_at_sample, of 4 100] string_at_sample
  by simp

text \<open>
  C37. \<^verbatim>\<open>strcmp\<close> on two NUL-terminated strings returns, and it returns 0 exactly when the
  strings are equal.
\<close>

theorem strcmp_decides_equality:
  assumes "string_at m p s" and "string_at m q t"
  shows "\<exists>r. strcmp m p q = Some r \<and> (r = 0 \<longleftrightarrow> s = t)"
  using assms by (rule strcmp_string_at)

theorem strcmp_witness:
  "string_at sample_mem 10 ''initcode'' \<and> string_at sample_mem 12 ''itcode'' \<and>
   (\<exists>r. strcmp sample_mem 10 12 = Some r \<and> r \<noteq> 0)"
proof -
  have b: "string_at sample_mem 12 ''itcode''" by (simp add: sample_mem_def)
  show ?thesis using strcmp_decides_equality [OF string_at_sample b] string_at_sample b by auto
qed

end
