(* ===== verification/Printf.thy ===== *)
theory Printf
  imports C_Strings
begin

text \<open>
  Formatted output. \<^verbatim>\<open>printf.c\<close> of the user library and the number printing of
  \<^verbatim>\<open>console.c\<close> write characters one at a time; the model returns the characters in the order
  they are written. The 16-byte digit buffer is modelled by the room left in it.
\<close>

section \<open>The digit loop\<close>

text \<open>
  The do-while loop of \<^verbatim>\<open>printint\<close> with \<open>room\<close> bytes of \<^verbatim>\<open>buf\<close> left. The buffer is printed
  from its end, so the list grows at the front.
\<close>

fun digits_loop :: "nat \<Rightarrow> string \<Rightarrow> uint \<Rightarrow> uint \<Rightarrow> string \<Rightarrow> fault + string" where
  "digits_loop 0 digits x base acc = Inl (OutOfBounds ''buf'')"
| "digits_loop (Suc room) digits x base acc =
     (let acc' = digits ! unat (x mod base) # acc in
      if x div base \<noteq> 0 then digits_loop room digits (x div base) base acc' else Inr acc')"

definition print_number :: "string \<Rightarrow> uint \<Rightarrow> uint \<Rightarrow> bool \<Rightarrow> fault + string" where
  "print_number digits xx base sign =
     (let neg = sign \<and> sint xx < 0; x = if neg then - xx else xx in
      case digits_loop 16 digits x base [] of
        Inl f \<Rightarrow> Inl f
      | Inr s \<Rightarrow>
          if \<not> neg then Inr s
          else if length s < 16 then Inr (CHR ''-'' # s) else Inl (OutOfBounds ''buf''))"

text \<open>\<^verbatim>\<open>printint\<close> of \<^verbatim>\<open>printf.c\<close> and of \<^verbatim>\<open>console.c\<close>: they differ in the case of the hex digits.\<close>

definition printint :: "uint \<Rightarrow> uint \<Rightarrow> bool \<Rightarrow> fault + string" where
  "printint xx base sign = print_number ''0123456789ABCDEF'' xx base sign"

definition cons_printint :: "uint \<Rightarrow> uint \<Rightarrow> bool \<Rightarrow> fault + string" where
  "cons_printint xx base sign = print_number ''0123456789abcdef'' xx base sign"

section \<open>\<open>printf\<close>\<close>

text \<open>A variadic argument: a word, or a pointer to a string (\<^term>\<open>None\<close> is the null pointer).\<close>

datatype parg = PInt uint | PStr "string option"

definition emit :: "string \<Rightarrow> fault + string \<Rightarrow> fault + string" where
  "emit s r = (case r of Inl f \<Rightarrow> Inl f | Inr t \<Rightarrow> Inr (s @ t))"

definition emit_result :: "fault + string \<Rightarrow> fault + string \<Rightarrow> fault + string" where
  "emit_result q r = (case q of Inl f \<Rightarrow> Inl f | Inr s \<Rightarrow> emit s r)"

text \<open>
  The loop over the format; \<open>pct\<close> is \<^verbatim>\<open>state == '%'\<close>. Reading an argument that is not
  there, or a pointer where a number is meant, is a fault of the model.
\<close>

fun printf_loop :: "bool \<Rightarrow> string \<Rightarrow> parg list \<Rightarrow> fault + string" where
  "printf_loop pct [] ap = Inr []"
| "printf_loop False (c # fmt) ap =
     (if c = CHR ''%'' then printf_loop True fmt ap else emit [c] (printf_loop False fmt ap))"
| "printf_loop True (c # fmt) ap =
     (if c = CHR ''d'' then
        (case ap of PInt x # ap' \<Rightarrow> emit_result (printint x 10 True) (printf_loop False fmt ap')
         | _ \<Rightarrow> Inl (BadArgument ''%d''))
      else if c = CHR ''x'' \<or> c = CHR ''p'' then
        (case ap of PInt x # ap' \<Rightarrow> emit_result (printint x 16 False) (printf_loop False fmt ap')
         | _ \<Rightarrow> Inl (BadArgument ''%x''))
      else if c = CHR ''s'' then
        (case ap of
           PStr None # ap' \<Rightarrow> emit ''(null)'' (printf_loop False fmt ap')
         | PStr (Some s) # ap' \<Rightarrow> emit s (printf_loop False fmt ap')
         | _ \<Rightarrow> Inl (BadArgument ''%s''))
      else if c = CHR ''c'' then
        (case ap of PInt x # ap' \<Rightarrow> emit [byte_of x] (printf_loop False fmt ap')
         | _ \<Rightarrow> Inl (BadArgument ''%c''))
      else if c = CHR ''%'' then emit [c] (printf_loop False fmt ap)
      else emit [CHR ''%'', c] (printf_loop False fmt ap))"

definition printf :: "string \<Rightarrow> parg list \<Rightarrow> fault + string" where
  "printf fmt args = printf_loop False fmt args"

section \<open>Numbers\<close>

lemma unat_base [simp]: "unat (10 :: uint) = 10" "unat (16 :: uint) = 16"
  by simp_all

lemma digits_loop_nat_digits:
  assumes "2 \<le> unat base" and "unat x < unat base ^ Suc k"
  shows "digits_loop (Suc k) ds x base acc = Inr (map ((!) ds) (nat_digits (unat base) (unat x)) @ acc)"
  using assms(2)
proof (induction k arbitrary: x acc)
  case 0
  then have "x div base = 0" by (simp add: word_div_eq_0_iff)
  with 0 show ?case by (simp add: nat_digits_small unat_mod)
next
  case (Suc k)
  show ?case
  proof (cases "unat x < unat base")
    case True
    then have "x div base = 0" by (simp add: word_div_eq_0_iff)
    with True show ?thesis by (simp add: nat_digits_small unat_mod)
  next
    case False
    with assms(1) have nz: "x div base \<noteq> 0"
      by (simp add: word_div_eq_0_iff div_eq_0_iff)
    have "unat (x div base) < unat base ^ Suc k"
      using Suc.prems by (simp add: unat_div less_mult_imp_div_less mult.commute)
    from Suc.IH [OF this] nz False assms(1) show ?thesis
      by (simp add: Let_def unat_div unat_mod nat_digits_step [of "unat base" "unat x"])
  qed
qed

lemma digits_loop_16:
  assumes "base = 10 \<or> base = 16"
  shows "digits_loop 16 ds x base acc = Inr (map ((!) ds) (nat_digits (unat base) (unat x)) @ acc)"
proof -
  have "unat x < 2 ^ 32" using unsigned_less [of x] by simp
  also have "(2 :: nat) ^ 32 < unat base ^ Suc 15" using assms by auto
  finally show ?thesis using digits_loop_nat_digits [of base x 15 ds acc] assms by auto
qed

lemma length_nat_digits_32:
  fixes base x :: uint
  assumes "base = 10 \<or> base = 16"
  shows "length (nat_digits (unat (base :: uint)) (unat (x :: uint))) \<le> 10"
proof -
  have "unat x < 2 ^ 32" using unsigned_less [of x] by simp
  also have "(2 :: nat) ^ 32 \<le> unat base ^ Suc 9" using assms by auto
  finally show ?thesis using assms length_nat_digits [of "unat base" "unat x" 9] by auto
qed

definition sign_str :: "int \<Rightarrow> string" where
  "sign_str i = (if i < 0 then ''-'' else [])"

lemma length_sign_str: "length (sign_str i) \<le> 1"
  by (simp add: sign_str_def)

lemma print_number_decimal:
  "print_number ds xx 10 True =
     Inr (sign_str (sint xx) @ map ((!) ds) (nat_digits 10 (nat \<bar>sint xx\<bar>)))"
proof (cases "sint xx < 0")
  case True
  with length_nat_digits_32 [of 10 "- xx"] show ?thesis
    by (simp add: print_number_def digits_loop_16 unat_uminus_neg_sint sign_str_def)
next
  case False
  then show ?thesis
    by (simp add: print_number_def digits_loop_16 unat_nonneg_sint sign_str_def)
qed

lemma print_number_hex:
  "print_number ds xx 16 False = Inr (map ((!) ds) (nat_digits 16 (unat xx)))"
  by (simp add: print_number_def digits_loop_16)

section \<open>What \<open>printf\<close> prints\<close>

text \<open>A format seen as a sequence of directives, its text, and what it prints.\<close>

datatype directive = Lit char | Dec | Hex | Str | Chr | Percent

fun render :: "directive \<Rightarrow> string" where
  "render (Lit c) = [c]"
| "render Dec = ''%d''"
| "render Hex = ''%x''"
| "render Str = ''%s''"
| "render Chr = ''%c''"
| "render Percent = ''%%''"

definition dec_digit :: "nat \<Rightarrow> char" where
  "dec_digit d = ''0123456789ABCDEF'' ! d"

definition decimal :: "int \<Rightarrow> string" where
  "decimal i = sign_str i @ map dec_digit (nat_digits 10 (nat \<bar>i\<bar>))"

definition hexadecimal :: "nat \<Rightarrow> string" where
  "hexadecimal n = map dec_digit (nat_digits 16 n)"

fun expand :: "directive list \<Rightarrow> parg list \<Rightarrow> string option" where
  "expand [] ap = Some []"
| "expand (Lit c # ds) ap = map_option ((#) c) (expand ds ap)"
| "expand (Percent # ds) ap = map_option ((#) CHR ''%'') (expand ds ap)"
| "expand (Dec # ds) (PInt x # ap) = map_option ((@) (decimal (sint x))) (expand ds ap)"
| "expand (Hex # ds) (PInt x # ap) = map_option ((@) (hexadecimal (unat x))) (expand ds ap)"
| "expand (Chr # ds) (PInt x # ap) = map_option ((#) (byte_of x)) (expand ds ap)"
| "expand (Str # ds) (PStr s # ap) =
     map_option ((@) (case s of None \<Rightarrow> ''(null)'' | Some t \<Rightarrow> t)) (expand ds ap)"
| "expand _ _ = None"

lemma printint_decimal: "printint x 10 True = Inr (decimal (sint x))"
  by (simp add: printint_def print_number_decimal decimal_def dec_digit_def [abs_def])

lemma printint_hex: "printint x 16 False = Inr (hexadecimal (unat x))"
  by (simp add: printint_def print_number_hex hexadecimal_def dec_digit_def [abs_def])

lemma emit_Inr [simp]: "emit s (Inr t) = Inr (s @ t)" "emit s (Inl f) = Inl f"
  by (simp_all add: emit_def)

lemma emit_result_Inr [simp]: "emit_result (Inr s) r = emit s r"
  by (simp add: emit_result_def)

lemma printf_loop_expand:
  "Lit CHR ''%'' \<notin> set ds \<Longrightarrow> expand ds ap = Some out \<Longrightarrow>
     printf_loop False (concat (map render ds)) ap = Inr out"
  by (induction ds ap arbitrary: out rule: expand.induct)
    (auto simp: printint_decimal printint_hex split: option.splits)

lemma decimal_value: "digits_value 10 (nat_digits 10 (nat \<bar>i\<bar>)) = nat \<bar>i\<bar>"
  by (simp add: digits_value_nat_digits)

lemma printf_literal: "CHR ''%'' \<notin> set s \<Longrightarrow> printf s args = Inr s"
proof -
  have "CHR ''%'' \<notin> set s \<Longrightarrow> printf_loop False s args = Inr s"
    by (induction s) auto
  then show "CHR ''%'' \<notin> set s \<Longrightarrow> printf s args = Inr s" by (simp add: printf_def)
qed

section \<open>Properties\<close>

text \<open>
  C27. \<^verbatim>\<open>printint\<close> prints the decimal numeral of every 32-bit number, the most negative one
  included, and its digits evaluate to the number's absolute value; at most eleven
  characters are stored in its 16-byte buffer.
\<close>

theorem printint_prints_decimal:
  "printint xx 10 True = Inr (sign_str (sint xx) @ map dec_digit (nat_digits 10 (nat \<bar>sint xx\<bar>)))
   \<and> digits_value 10 (nat_digits 10 (nat \<bar>sint xx\<bar>)) = nat \<bar>sint xx\<bar>
   \<and> length (sign_str (sint xx) @ map dec_digit (nat_digits 10 (nat \<bar>sint xx\<bar>))) \<le> 11"
proof -
  have "length (nat_digits 10 (nat \<bar>sint xx\<bar>)) \<le> 10"
  proof (cases "sint xx < 0")
    case True
    with length_nat_digits_32 [of 10 "- xx"] show ?thesis by (simp add: unat_uminus_neg_sint)
  next
    case False
    with length_nat_digits_32 [of 10 xx] show ?thesis by (simp add: unat_nonneg_sint)
  qed
  then show ?thesis
    using printint_decimal [of xx] decimal_value [of "sint xx"] length_sign_str [of "sint xx"]
    by (simp add: decimal_def)
qed



end
