(* ===== verification/Editor_Base.thy ===== *)
theory Editor_Base
  imports Printf "HOL-Library.Signed_Division"
begin

text \<open>
  The state of \<^verbatim>\<open>editor.c\<close> and its string helpers. The editor's file is the array \<^verbatim>\<open>text\<close> of 256
  pointers to 256-byte line buffers. What the program exchanges with its surroundings is
  kept in the state as well: the characters still to be read from the console, the values
  the coming \<^verbatim>\<open>open\<close> calls return, and the system calls made so far.
\<close>

section \<open>State\<close>

abbreviation (input) BUF_SIZE :: nat where
  "BUF_SIZE \<equiv> 256"

abbreviation (input) MAX_LINE_NUMBER :: nat where
  "MAX_LINE_NUMBER \<equiv> 256"

abbreviation (input) MAX_LINE_LENGTH :: nat where
  "MAX_LINE_LENGTH \<equiv> 256"

abbreviation (input) MAX_ROLLBAKC_STEP :: nat where
  "MAX_ROLLBAKC_STEP \<equiv> 20"

abbreviation ESC :: char where
  "ESC \<equiv> CHR 0x1B"

text \<open>The system calls with an effect outside the process.\<close>

datatype event =
    Write int string
  | Unlink string
  | Open string int
  | Close int

text \<open>
  The globals of the program, \<^verbatim>\<open>text\<close> of \<^verbatim>\<open>main\<close>, and the surroundings:
  \<^item> \<open>stdin\<close>, \<open>opens\<close> and \<open>events\<close> as described above;
  \<^item> \<open>null_str\<close>, the string found at address 0 (xv6 maps the program's code there, so that
    reading through a null pointer does not fault);
  \<^item> \<open>junk\<close>, what the line buffers that \<^verbatim>\<open>com_init_file\<close> allocates contain before it writes;
  \<^item> \<open>overrun\<close>, how many bytes have been written past the end of a local array. The model
    lets such a write reach memory that nothing else uses, so the array reads back as
    if it were long enough.
\<close>

record editor =
  ed_text :: "buffer option list"
  changed :: int
  auto_show :: int
  line_number :: int
  command_set :: "string option list"
  upper_bound :: int
  stdin :: string
  opens :: "int list"
  events :: "event list"
  null_str :: string
  junk :: "nat \<Rightarrow> buffer"
  overrun :: nat

text \<open>Why a command does not come back: the process exited, it faulted, or it loops for ever.\<close>

datatype stop = Exited editor | Faulted fault | Hangs

type_synonym ed_result = "stop + editor"

definition ed_bind :: "stop + 'a \<Rightarrow> ('a \<Rightarrow> stop + 'b) \<Rightarrow> stop + 'b" where
  "ed_bind r f = (case r of Inl s \<Rightarrow> Inl s | Inr x \<Rightarrow> f x)"

lemma ed_bind_simps [simp]: "ed_bind (Inl s) f = Inl s" "ed_bind (Inr x) f = f x"
  by (simp_all add: ed_bind_def)

lemma ed_bind_Inr_iff: "ed_bind r f = Inr y \<longleftrightarrow> (\<exists>x. r = Inr x \<and> f x = Inr y)"
  by (cases r) auto

subsection \<open>Output\<close>

text \<open>The characters a \<^verbatim>\<open>printf\<close> call writes.\<close>

definition fmt_out :: "string \<Rightarrow> parg list \<Rightarrow> string" where
  "fmt_out fmt args = (case printf fmt args of Inl f \<Rightarrow> [] | Inr s \<Rightarrow> s)"

definition ed_write :: "int \<Rightarrow> string \<Rightarrow> editor \<Rightarrow> editor" where
  "ed_write fd s e = e\<lparr>events := events e @ [Write fd s]\<rparr>"

definition ed_printf :: "int \<Rightarrow> string \<Rightarrow> parg list \<Rightarrow> editor \<Rightarrow> editor" where
  "ed_printf fd fmt args e = ed_write fd (fmt_out fmt args) e"

text \<open>An ANSI escape sequence: \<^verbatim>\<open>\e\<close> followed by the given characters.\<close>

definition esc :: "string \<Rightarrow> string" where
  "esc s = ESC # s"

definition reset :: string where
  "reset = esc ''[0m''"

text \<open>The message \<^verbatim>\<open>">>> \033[1m\e[41;33m...\e[0m\n"\<close> used for every refusal.\<close>

definition alert :: "string \<Rightarrow> string" where
  "alert s = ''>>> '' @ esc ''[1m'' @ esc ''[41;33m'' @ s @ reset @ [NEWLINE]"

subsection \<open>Input\<close>

text \<open>
  \<^verbatim>\<open>gets(input, MAX_LINE_LENGTH)\<close> into a zeroed array, then \<^verbatim>\<open>input[strlen(input)-1] = '\0'\<close>.
  At end of file the string is empty and the store goes to \<^verbatim>\<open>input[-1]\<close>.
\<close>

definition read_input :: "editor \<Rightarrow> stop + (buffer \<times> editor)" where
  "read_input e =
     (let (s, rest) = gets MAX_LINE_LENGTH (stdin e);
          input = zbuf MAX_LINE_LENGTH s;
          len = length (cstr input)
      in if len = 0 then Inl (Faulted (OutOfBounds ''input''))
         else Inr (input[len - 1 := NUL], e\<lparr>stdin := rest\<rparr>))"

section \<open>Helpers\<close>

text \<open>
  \<^verbatim>\<open>strcat_n\<close> on the array \<open>dest\<close>. The bytes from \<open>pos\<close> to \<open>len+pos\<close> are written even when
  the array is shorter, and then the list grows.
\<close>

definition strcat_n :: "buffer \<Rightarrow> string \<Rightarrow> int \<Rightarrow> buffer" where
  "strcat_n dest src len =
     (if len \<le> 0 then dest
      else let pos = length (cstr dest) in
        if len + int pos \<ge> int MAX_LINE_LENGTH then dest
        else take pos dest @ take (nat len) src @ NUL # drop (pos + nat len + 1) dest)"

text \<open>The largest index in use, -1 if there is none.\<close>

fun get_line_number_from :: "nat \<Rightarrow> buffer option list \<Rightarrow> int" where
  "get_line_number_from i [] = int i - 1"
| "get_line_number_from i (None # ts) = int i - 1"
| "get_line_number_from i (Some b # ts) = get_line_number_from (Suc i) ts"

definition get_line_number :: "buffer option list \<Rightarrow> int" where
  "get_line_number t = get_line_number_from 0 t"

fun stringtonumber_loop :: "string \<Rightarrow> uint \<Rightarrow> uint" where
  "stringtonumber_loop [] number = number"
| "stringtonumber_loop (c # s) number =
     (if c = CHR '' '' then number
      else if schar_val c > 57 \<or> schar_val c < 48 then - 1
      else stringtonumber_loop s (10 * number + word_of_int (schar_val c - 48)))"

definition stringtonumber :: "buffer \<Rightarrow> int" where
  "stringtonumber src = sint (stringtonumber_loop (cstr src) 0)"

lemma sdiv_10_positive: "0 < (num :: int) sdiv 10 \<Longrightarrow> 0 < num \<and> num sdiv 10 < num"
proof -
  assume a: "0 < num sdiv 10"
  have "0 < num"
  proof (rule ccontr)
    assume "\<not> 0 < num"
    then have "num sdiv 10 = - ((- num) div 10)"
      by (cases "num = 0") (simp_all add: signed_divide_int_def)
    with \<open>\<not> 0 < num\<close> a show False by (simp add: pos_imp_zdiv_nonneg_iff)
  qed
  then show ?thesis using a by (simp add: signed_divide_int_def)
qed

text \<open>
  The digits of \<^verbatim>\<open>array_rvs\<close>, least significant first. C's \<^verbatim>\<open>%\<close> and \<^verbatim>\<open>/\<close> truncate towards zero,
  which matters for the one negative value that \<^verbatim>\<open>num = -num\<close> leaves negative.
\<close>

function number2string_loop :: "int \<Rightarrow> string" where
  "number2string_loop num =
     char_of (num smod 10 + 48)
       # (if num sdiv 10 > 0 then number2string_loop (num sdiv 10) else [])"
  by pat_completeness auto

termination
  by (relation "measure (\<lambda>num. nat num)") (auto dest: sdiv_10_positive)

declare number2string_loop.simps [simp del]

definition number2string :: "int \<Rightarrow> string" where
  "number2string num =
     (let num' = (if num < 0 then sint (- word_of_int num :: uint) else num);
          array_rvs = number2string_loop num' @ (if num < 0 then ''-'' else [])
      in rev (cstr (array_rvs @ [NUL])))"

end
