(* ===== verification/Editor_Highlight.thy ===== *)
theory Editor_Highlight
  imports Editor_Base "HOL-Library.While_Combinator"
begin

text \<open>
  \<^verbatim>\<open>show_text_syntax_highlighting\<close> and \<^verbatim>\<open>show_text\<close> of \<^verbatim>\<open>editor.c\<close>. The scanner's chain of
  \<^verbatim>\<open>else if\<close> is cut into consecutive groups; each returns the characters printed and the new
  \<^verbatim>\<open>mark\<close>, or \<^term>\<open>None\<close> when no branch of the group applies. The scanning loop is a
  \<^const>\<open>while_option\<close>, because it does not return on every line: \<^term>\<open>None\<close> is a loop that
  never ends.
\<close>

section \<open>The scanner\<close>

text \<open>\<^verbatim>\<open>text[j][i]\<close>; the buffers are NUL-terminated, so no byte past the end is ever examined.\<close>

definition byte_at :: "buffer \<Rightarrow> nat \<Rightarrow> char" where
  "byte_at b i = (if i < length b then b ! i else NUL)"

text \<open>\<^verbatim>\<open>(mark+g)<MAX_LINE_LENGTH\<close> and the word \<open>w\<close> stands at \<open>mark\<close>.\<close>

definition keyword :: "buffer \<Rightarrow> nat \<Rightarrow> nat \<Rightarrow> string \<Rightarrow> bool" where
  "keyword b mark g w \<longleftrightarrow> mark + g < MAX_LINE_LENGTH \<and> take (length w) (drop mark b) = w"

text \<open>One \<^verbatim>\<open>printf(1, "\e[...m%c\e[0m", c)\<close> per character.\<close>

definition paint :: "string \<Rightarrow> string \<Rightarrow> string" where
  "paint colour s =
     concat (map (\<lambda>c. fmt_out (esc colour @ ''%c'' @ reset) [PInt (of_char c)]) s)"

type_synonym token = "string \<times> nat"

definition word_token :: "string \<Rightarrow> nat \<Rightarrow> string \<Rightarrow> token" where
  "word_token colour mark w = (paint colour w, mark + length w)"

definition hl_types :: "buffer \<Rightarrow> nat \<Rightarrow> token option" where
  "hl_types b mark =
     (let c = byte_at b mark in
      if CHR ''0'' = c \<or> CHR ''1'' = c \<or> CHR ''2'' = c \<or> CHR ''3'' = c \<or> CHR ''4'' = c \<or>
         CHR ''5'' = c \<or> CHR ''6'' = c \<or> CHR ''7'' = c \<or> CHR ''8'' = c \<or> CHR ''9'' = c
      then Some (word_token ''[0;33m'' mark [c])
      else if keyword b mark 5 ''printf'' then Some (word_token ''[1;36m'' mark ''printf'')
      else if keyword b mark 2 ''int'' then Some (word_token ''[1;34m'' mark ''int'')
      else if keyword b mark 4 ''float'' then Some (word_token ''[1;34m'' mark ''float'')
      else if keyword b mark 5 ''double'' then Some (word_token ''[1;34m'' mark ''double'')
      else if keyword b mark 3 ''char'' then Some (word_token ''[1;34m'' mark ''char'')
      else None)"

definition hl_control :: "buffer \<Rightarrow> nat \<Rightarrow> token option" where
  "hl_control b mark =
     (if keyword b mark 1 ''if'' then Some (word_token ''[1;35m'' mark ''if'')
      else if keyword b mark 3 ''else'' then Some (word_token ''[1;35m'' mark ''else'')
      else if keyword b mark 5 ''else if'' then Some (word_token ''[1;35m'' mark ''else if'')
      else if keyword b mark 2 ''for'' then Some (word_token ''[1;35m'' mark ''for'')
      else if keyword b mark 4 ''while'' then Some (word_token ''[1;35m'' mark ''while'')
      else if keyword b mark 3 ''long'' then Some (word_token ''[1;34m'' mark ''long'')
      else None)"

definition hl_bracket :: "buffer \<Rightarrow> nat \<Rightarrow> token option" where
  "hl_bracket b mark =
     (let c = byte_at b mark in
      if c = CHR ''{'' \<or> c = CHR ''}'' \<or> c = CHR ''['' \<or> c = CHR '']'' \<or> c = CHR ''('' \<or> c = CHR '')''
      then Some (word_token ''[1;35m'' mark [c])
      else if keyword b mark 5 ''static'' then Some (word_token ''[1;34m'' mark ''static'')
      else if keyword b mark 4 ''const'' then Some (word_token ''[1;34m'' mark ''const'')
      else if keyword b mark 5 ''memset'' then Some (word_token ''[1;36m'' mark ''memset'')
      else None)"

text \<open>
  The comment branch tests \<^verbatim>\<open>text[j][mark]\<close> twice, so that a single slash is enough; it
  prints two characters (the second may be the NUL) and moves on by two.
\<close>

definition hl_slash :: "buffer \<Rightarrow> nat \<Rightarrow> token option" where
  "hl_slash b mark =
     (if mark + 1 < MAX_LINE_LENGTH \<and> byte_at b mark = CHR ''/'' \<and> byte_at b mark = CHR ''/''
      then Some (paint ''[1;32m'' [byte_at b mark, byte_at b (mark + 1)], mark + 2)
      else None)"

text \<open>The index of the next \<open>q\<close> at or after \<open>i\<close>, -1 if there is none in the buffer.\<close>

function find_quote :: "buffer \<Rightarrow> char \<Rightarrow> nat \<Rightarrow> int" where
  "find_quote b q i =
     (if i < MAX_LINE_LENGTH then if byte_at b i = q then int i else find_quote b q (i + 1)
      else - 1)"
  by pat_completeness auto

termination
  by (relation "measure (\<lambda>(b, q, i). MAX_LINE_LENGTH - i)") auto

declare find_quote.simps [simp del]

definition hl_quote :: "buffer \<Rightarrow> nat \<Rightarrow> char \<Rightarrow> token" where
  "hl_quote b mark q =
     (let end = find_quote b q (mark + 1) in
      (paint ''[1;33m'' (map (byte_at b) [mark..<nat (end + 1)]), nat (end + 1)))"

definition hl_rest :: "buffer \<Rightarrow> nat \<Rightarrow> token" where
  "hl_rest b mark =
     (if keyword b mark 3 ''NULL'' then word_token ''[1;35m'' mark ''NULL''
      else if byte_at b mark = CHR 0x22 then hl_quote b mark (CHR 0x22)
      else if byte_at b mark = CHR 0x27 then hl_quote b mark (CHR 0x27)
      else if keyword b mark 5 ''continue'' then word_token ''[1;35m'' mark ''continue''
      else if keyword b mark 5 ''return'' then word_token ''[1;34m'' mark ''return''
      else (fmt_out (''%c'' @ reset) [PInt (of_char (byte_at b mark))], mark + 1))"

text \<open>One round of the loop: the characters printed, the new \<^verbatim>\<open>mark\<close> and \<^verbatim>\<open>flag_annotation\<close>.\<close>

definition hl_step :: "buffer \<Rightarrow> nat \<Rightarrow> bool \<Rightarrow> string \<times> nat \<times> bool" where
  "hl_step b mark flag_annotation =
     (if flag_annotation then (paint ''[1;32m'' [byte_at b mark], mark + 1, True)
      else case hl_types b mark of
        Some (out, m) \<Rightarrow> (out, m, False)
      | None \<Rightarrow> (case hl_control b mark of
          Some (out, m) \<Rightarrow> (out, m, False)
        | None \<Rightarrow> (case hl_bracket b mark of
            Some (out, m) \<Rightarrow> (out, m, False)
          | None \<Rightarrow> (case hl_slash b mark of
              Some (out, m) \<Rightarrow> (out, m, True)
            | None \<Rightarrow> (case hl_rest b mark of (out, m) \<Rightarrow> (out, m, False))))))"

definition hl_guard :: "buffer \<Rightarrow> nat \<Rightarrow> bool" where
  "hl_guard b mark \<longleftrightarrow> mark < MAX_LINE_LENGTH \<and> byte_at b mark \<noteq> NUL"

definition hl_round :: "buffer \<Rightarrow> nat \<times> bool \<times> string \<Rightarrow> nat \<times> bool \<times> string" where
  "hl_round b = (\<lambda>(mark, flag, out). case hl_step b mark flag of (s, m, f) \<Rightarrow> (m, f, out @ s))"

definition hl_loop :: "buffer \<Rightarrow> string option" where
  "hl_loop b =
     map_option (\<lambda>(mark, flag, out). out)
       (while_option (\<lambda>(mark, flag, out). hl_guard b mark) (hl_round b) (0, False, []))"

section \<open>Printing the text\<close>

text \<open>The line number in three digits and a bar.\<close>

definition line_prefix :: "nat \<Rightarrow> string" where
  "line_prefix j =
     fmt_out (esc ''[1;30m'' @ ''%d%d%d'' @ reset @ esc ''[0;32m'' @ ''|'' @ reset)
       [PInt (of_nat ((j + 1) div 100)), PInt (of_nat ((j + 1) mod 100 div 10)),
        PInt (of_nat ((j + 1) mod 10))]"

text \<open>The first index whose byte is not a space, 0 if there is none.\<close>

function first_nonblank :: "buffer \<Rightarrow> nat \<Rightarrow> nat" where
  "first_nonblank b a =
     (if a < MAX_LINE_LENGTH then if byte_at b a \<noteq> CHR '' '' then a else first_nonblank b (a + 1)
      else 0)"
  by pat_completeness auto

termination
  by (relation "measure (\<lambda>(b, a). MAX_LINE_LENGTH - a)") auto

declare first_nonblank.simps [simp del]

definition hl_line :: "nat \<Rightarrow> buffer \<Rightarrow> string option" where
  "hl_line j b =
     (let pos = first_nonblank b 0 in
      map_option ((@) (line_prefix j))
        (if cstr b = [NEWLINE] then Some [NEWLINE]
         else if byte_at b pos = CHR ''/'' \<and> byte_at b (pos + 1) = CHR ''/''
         then Some (fmt_out (esc ''[1;32m'' @ ''%s'' @ [NEWLINE] @ reset) [PStr (Some (cstr b))])
         else map_option (\<lambda>out. out @ [NEWLINE]) (hl_loop b)))"

text \<open>
  \<^verbatim>\<open>for (; text[j] != NULL; j++)\<close>: with all 256 entries in use the loop reads \<^verbatim>\<open>text[256]\<close>.
\<close>

fun hl_lines :: "nat \<Rightarrow> buffer option list \<Rightarrow> string \<Rightarrow> stop + string" where
  "hl_lines j [] out = Inl (Faulted (OutOfBounds ''text''))"
| "hl_lines j (None # ts) out = Inr out"
| "hl_lines j (Some b # ts) out =
     (case hl_line j b of None \<Rightarrow> Inl Hangs | Some s \<Rightarrow> hl_lines (Suc j) ts (out @ s))"

definition contents_banner :: string where
  "contents_banner = ''>>> '' @ esc ''[1m'' @ esc ''[45;33m''
     @ ''the contents of the file are:'' @ reset @ [NEWLINE]"

definition show_text_syntax_highlighting :: "editor \<Rightarrow> ed_result" where
  "show_text_syntax_highlighting e =
     ed_bind (hl_lines 0 (ed_text e) [])
       (\<lambda>out. Inr (ed_write 1 (contents_banner @ [NEWLINE] @ out @ [NEWLINE]) e))"

fun plain_lines :: "nat \<Rightarrow> buffer option list \<Rightarrow> string \<Rightarrow> stop + string" where
  "plain_lines j [] out = Inl (Faulted (OutOfBounds ''text''))"
| "plain_lines j (None # ts) out = Inr out"
| "plain_lines j (Some b # ts) out =
     plain_lines (Suc j) ts
       (out @ (if cstr b = [NEWLINE] then line_prefix j @ [NEWLINE]
               else line_prefix j @ fmt_out (''%s'' @ [NEWLINE]) [PStr (Some (cstr b))]))"

definition show_text :: "editor \<Rightarrow> ed_result" where
  "show_text e =
     ed_bind (plain_lines 0 (ed_text e) [])
       (\<lambda>out. Inr (ed_write 1 (contents_banner @ [NEWLINE] @ out @ [NEWLINE]) e))"

section \<open>The characters that stay visible\<close>

text \<open>
  What a terminal shows of an output: everything but the escape sequences, each of which
  runs from an ESC to the next \<^verbatim>\<open>m\<close>.
\<close>

fun strip :: "bool \<Rightarrow> string \<Rightarrow> string" where
  "strip inside [] = []"
| "strip False (c # s) = (if c = ESC then strip True s else c # strip False s)"
| "strip True (c # s) = (if c = CHR ''m'' then strip False s else strip True s)"

definition visible :: "string \<Rightarrow> string" where
  "visible s = strip False s"

text \<open>The output \<open>s\<close> ends outside an escape sequence and shows the characters \<open>v\<close>.\<close>

definition shows_text :: "string \<Rightarrow> string \<Rightarrow> bool" where
  "shows_text s v \<longleftrightarrow> (\<forall>r. strip False (s @ r) = v @ strip False r)"

lemma shows_text_Nil: "shows_text [] []"
  by (simp add: shows_text_def)

lemma shows_text_append: "shows_text s v \<Longrightarrow> shows_text t w \<Longrightarrow> shows_text (s @ t) (v @ w)"
  by (simp add: shows_text_def)

lemma shows_text_visible: "shows_text s v \<Longrightarrow> visible s = v"
  by (metis append_Nil2 shows_text_def strip.simps(1) visible_def)

lemma strip_inside: "CHR ''m'' \<notin> set col \<Longrightarrow> strip True (col @ CHR ''m'' # r) = strip False r"
  by (induction col) auto

lemma printf_loop_prefix:
  "CHR ''%'' \<notin> set s \<Longrightarrow> printf_loop False (s @ fmt) ap = emit s (printf_loop False fmt ap)"
  by (induction s) (auto simp: emit_def split: sum.splits)

lemma byte_of_of_char [simp]: "byte_of (of_char c) = c"
proof -
  have "(of_char c :: uint) = of_nat (of_char c)" by (simp add: of_nat_of_char)
  moreover have "unat (of_nat (of_char c) :: uint) = of_char c"
    using of_char_less_256 [of c] by (simp add: unat_of_nat del: of_char_less_256)
  ultimately show ?thesis by (simp add: byte_of_def)
qed

definition colour_code :: "string \<Rightarrow> bool" where
  "colour_code col \<longleftrightarrow> (\<exists>x. col = x @ ''m'' \<and> CHR ''m'' \<notin> set x) \<and> CHR ''%'' \<notin> set col"

lemma reset_code: "colour_code ''[0m''"
  by (auto simp: colour_code_def intro: exI [of _ "''[0''"])

lemma fmt_out_colour:
  assumes "colour_code col"
  shows "fmt_out (esc col @ ''%c'' @ reset) [PInt (of_char c)] = esc col @ c # reset"
proof -
  have "CHR ''%'' \<notin> set (esc col)" using assms by (auto simp: colour_code_def esc_def)
  then have "printf (esc col @ ''%c'' @ reset) [PInt (of_char c)] = Inr (esc col @ c # reset)"
    by (simp add: printf_def printf_loop_prefix) (simp add: reset_def esc_def)
  then show ?thesis by (simp add: fmt_out_def)
qed

lemma shows_text_esc: "colour_code col \<Longrightarrow> shows_text (esc col) []"
  by (auto simp: shows_text_def esc_def colour_code_def strip_inside)

lemma shows_text_char: "c \<noteq> ESC \<Longrightarrow> shows_text [c] [c]"
  by (simp add: shows_text_def)

lemma shows_text_paint:
  assumes "colour_code col" and "ESC \<notin> set s"
  shows "shows_text (paint col s) s"
  using assms(2)
proof (induction s)
  case Nil
  show ?case by (simp add: paint_def shows_text_Nil)
next
  case (Cons c s)
  have "shows_text (esc col @ [c] @ reset) ([] @ [c] @ [])"
    using assms(1) Cons.prems unfolding reset_def
    by (intro shows_text_append shows_text_esc shows_text_char reset_code) auto
  with Cons have "shows_text ((esc col @ [c] @ reset) @ paint col s) (([] @ [c] @ []) @ s)"
    by (intro shows_text_append [of "esc col @ [c] @ reset"]) auto
  then show ?case by (simp add: paint_def fmt_out_colour [OF assms(1), simplified])
qed

section \<open>One round of the scanner\<close>

lemma find_quote_cases:
  "find_quote b q i = - 1 \<or>
     (\<exists>j. i \<le> j \<and> j < MAX_LINE_LENGTH \<and> byte_at b j = q \<and> find_quote b q i = int j)"
proof (induction b q i rule: find_quote.induct)
  case (1 b q i)
  show ?case
  proof (cases "i < MAX_LINE_LENGTH \<and> byte_at b i \<noteq> q")
    case True
    with 1 show ?thesis by (auto simp: find_quote.simps [of b q i] intro: Suc_leD)
  next
    case False
    then show ?thesis by (auto simp: find_quote.simps [of b q i])
  qed
qed

lemma find_quote_none_iff:
  "find_quote b q i = - 1 \<longleftrightarrow> (\<forall>j. i \<le> j \<and> j < MAX_LINE_LENGTH \<longrightarrow> byte_at b j \<noteq> q)"
proof (induction b q i rule: find_quote.induct)
  case (1 b q i)
  show ?case
  proof (cases "i < MAX_LINE_LENGTH \<and> byte_at b i \<noteq> q")
    case True
    then have "find_quote b q i = find_quote b q (i + 1)" by (simp add: find_quote.simps [of b q i])
    moreover have "i \<le> j \<longleftrightarrow> j = i \<or> i + 1 \<le> j" for j by auto
    ultimately show ?thesis using 1 True by auto
  next
    case False
    then show ?thesis by (auto simp: find_quote.simps [of b q i])
  qed
qed

lemma keyword_hd: "keyword b m g (c # w) \<Longrightarrow> byte_at b m = c"
proof -
  assume "keyword b m g (c # w)"
  then have t: "take (Suc (length w)) (drop m b) = c # w" by (simp add: keyword_def)
  then have "m < length b" by (metis drop_all list.distinct(1) not_le take_Nil)
  with t show ?thesis by (simp add: byte_at_def Cons_nth_drop_Suc [symmetric])
qed

lemma map_byte_at: "map (byte_at b) [m..<m + length w] = w" if "take (length w) (drop m b) = w"
proof (rule nth_equalityI)
  fix i
  assume "i < length (map (byte_at b) [m..<m + length w])"
  then have i: "i < length w" by simp
  from that have "length w \<le> length b - m" by (metis length_drop length_take min.cobounded1)
  with i have "m + i < length b" by simp
  moreover have "w ! i = b ! (m + i)"
    by (subst that [symmetric]) (use i \<open>m + i < length b\<close> in simp)
  ultimately show "map (byte_at b) [m..<m + length w] ! i = w ! i"
    using i by (simp add: byte_at_def)
qed simp

text \<open>A token prints, in some colour, the characters of the buffer that it moves past.\<close>

definition good_token :: "buffer \<Rightarrow> nat \<Rightarrow> string \<Rightarrow> nat \<Rightarrow> bool" where
  "good_token b mark out m \<longleftrightarrow>
     mark < m \<and> ((\<forall>i. byte_at b i \<noteq> ESC) \<longrightarrow> shows_text out (map (byte_at b) [mark..<m]))"

lemma good_paint:
  assumes "colour_code col" "mark < m" "s = map (byte_at b) [mark..<m]"
  shows "good_token b mark (paint col s) m"
proof -
  have "shows_text (paint col s) s" if "\<forall>i. byte_at b i \<noteq> ESC"
    using assms(1) that by (intro shows_text_paint) (auto simp: assms(3))
  with assms(2,3) show ?thesis by (simp add: good_token_def)
qed

lemma good_word_token:
  "colour_code col \<Longrightarrow> keyword b mark g (c # w) \<Longrightarrow> word_token col mark (c # w) = (out, m)
     \<Longrightarrow> good_token b mark out m"
  using map_byte_at [of "c # w" mark b]
  by (auto simp: word_token_def keyword_def intro!: good_paint)

lemma good_char_token:
  "colour_code col \<Longrightarrow> byte_at b mark = c \<Longrightarrow> word_token col mark [c] = (out, m)
     \<Longrightarrow> good_token b mark out m"
  by (auto simp: word_token_def intro!: good_paint)

lemma colour_codes [simp, intro]:
  "colour_code ''[0;33m''" "colour_code ''[1;36m''" "colour_code ''[1;34m''"
  "colour_code ''[1;35m''" "colour_code ''[1;32m''" "colour_code ''[1;33m''"
  unfolding colour_code_def
  by (auto intro: exI [of _ "''[0;33''"] exI [of _ "''[1;36''"] exI [of _ "''[1;34''"]
      exI [of _ "''[1;35''"] exI [of _ "''[1;32''"] exI [of _ "''[1;33''"])

lemma good_hl_types: "hl_types b mark = Some (out, m) \<Longrightarrow> good_token b mark out m"
  unfolding hl_types_def Let_def
  by (auto split: if_splits intro: good_word_token good_char_token)

lemma good_hl_control: "hl_control b mark = Some (out, m) \<Longrightarrow> good_token b mark out m"
  unfolding hl_control_def by (auto split: if_splits intro: good_word_token)

lemma good_hl_bracket: "hl_bracket b mark = Some (out, m) \<Longrightarrow> good_token b mark out m"
  unfolding hl_bracket_def Let_def
  by (auto split: if_splits intro: good_word_token good_char_token)

lemma good_hl_slash: "hl_slash b mark = Some (out, m) \<Longrightarrow> good_token b mark out m"
  unfolding hl_slash_def by (auto split: if_splits intro!: good_paint simp: upt_rec)

text \<open>A quotation mark that is never closed: the scanner goes back to the start of the line.\<close>

definition dangling :: "buffer \<Rightarrow> nat \<Rightarrow> bool" where
  "dangling b m \<longleftrightarrow> m < MAX_LINE_LENGTH \<and> (byte_at b m = CHR 0x22 \<or> byte_at b m = CHR 0x27) \<and>
     find_quote b (byte_at b m) (m + 1) = - 1"

lemma good_hl_quote:
  assumes "hl_quote b mark q = (out, m)" "find_quote b q (mark + 1) \<noteq> - 1"
  shows "good_token b mark out m"
proof -
  from assms(2) find_quote_cases [of b q "mark + 1"] obtain j where
    j: "mark + 1 \<le> j" "find_quote b q (mark + 1) = int j" by auto
  then have "m = Suc j" "out = paint ''[1;33m'' (map (byte_at b) [mark..<Suc j])"
    using assms(1) by (auto simp: hl_quote_def Let_def nat_add_distrib)
  with j(1) show ?thesis by (auto intro!: good_paint)
qed

lemma good_plain_char:
  "good_token b mark (fmt_out (''%c'' @ reset) [PInt (of_char (byte_at b mark))]) (mark + 1)"
proof -
  have "fmt_out (''%c'' @ reset) [PInt (of_char (byte_at b mark))] = [byte_at b mark] @ reset"
    by (simp add: fmt_out_def printf_def reset_def esc_def)
  moreover have "shows_text ([byte_at b mark] @ reset) ([byte_at b mark] @ [])"
    if "byte_at b mark \<noteq> ESC"
    using that unfolding reset_def
    by (intro shows_text_append shows_text_esc shows_text_char reset_code)
  ultimately show ?thesis by (simp add: good_token_def)
qed

lemma good_hl_rest:
  assumes "hl_rest b mark = (out, m)" "mark < MAX_LINE_LENGTH" "\<not> dangling b mark"
  shows "good_token b mark out m"
  using assms unfolding hl_rest_def dangling_def
  by (auto split: if_splits intro: good_word_token good_hl_quote good_plain_char [simplified])

lemma hl_step_progress:
  assumes "hl_guard b mark" "flag \<or> \<not> dangling b mark" "hl_step b mark flag = (out, m, f)"
  shows "good_token b mark out m"
proof (cases flag)
  case True
  with assms(3) show ?thesis by (auto simp: hl_step_def intro!: good_paint)
next
  case False
  with assms show ?thesis
    unfolding hl_step_def hl_guard_def
    by (auto split: option.splits prod.splits
        intro: good_hl_types good_hl_control good_hl_bracket good_hl_slash good_hl_rest)
qed

lemma hl_step_dangling:
  assumes "dangling b mark"
  shows "\<exists>out. hl_step b mark False = (out, 0, False)"
proof -
  have q: "byte_at b mark = CHR 0x22 \<or> byte_at b mark = CHR 0x27"
    using assms by (simp add: dangling_def)
  have no: "\<not> keyword b mark g (c # w)" if "c \<noteq> CHR 0x22" "c \<noteq> CHR 0x27" for g c w
    using q that keyword_hd by blast
  have "hl_types b mark = None" "hl_control b mark = None" "hl_bracket b mark = None"
    "hl_slash b mark = None"
    using q by (auto simp: hl_types_def hl_control_def hl_bracket_def hl_slash_def Let_def no)
  moreover have "\<exists>out. hl_rest b mark = (out, 0)"
    using q assms by (auto simp: hl_rest_def no hl_quote_def dangling_def Let_def)
  ultimately show ?thesis by (auto simp: hl_step_def)
qed

section \<open>The scanning loop\<close>

text \<open>The positions the loop goes through, as a relation on \<^verbatim>\<open>mark\<close> and \<^verbatim>\<open>flag_annotation\<close>.\<close>

definition hl_rel :: "buffer \<Rightarrow> ((nat \<times> bool) \<times> (nat \<times> bool)) set" where
  "hl_rel b = {((mark, flag), (m, f)). hl_guard b mark \<and> (\<exists>out. hl_step b mark flag = (out, m, f))}"

lemma hl_rel_iff: "((mark, flag), (m, f)) \<in> hl_rel b \<longleftrightarrow>
    hl_guard b mark \<and> snd (hl_step b mark flag) = (m, f)"
  by (cases "hl_step b mark flag") (auto simp: hl_rel_def)

lemma hl_rel_deterministic: "(s, t) \<in> hl_rel b \<Longrightarrow> (s, u) \<in> hl_rel b \<Longrightarrow> t = u"
  by (auto simp: hl_rel_def)

text \<open>A position that the scanner can come back to is on a cycle, and the loop never ends.\<close>

definition on_cycle :: "buffer \<Rightarrow> nat \<times> bool \<Rightarrow> bool" where
  "on_cycle b s \<longleftrightarrow> (s, s) \<in> (hl_rel b)\<^sup>+"

lemma on_cycle_step:
  assumes "on_cycle b s" "(s, t) \<in> hl_rel b"
  shows "on_cycle b t"
proof -
  from assms(1) obtain u where "(s, u) \<in> hl_rel b" "(u, s) \<in> (hl_rel b)\<^sup>*"
    unfolding on_cycle_def by (meson tranclD)
  with assms(2) have "(t, s) \<in> (hl_rel b)\<^sup>*" using hl_rel_deterministic by blast
  then show ?thesis unfolding on_cycle_def using assms(2) by (rule rtrancl_into_trancl1)
qed

lemma on_cycle_guard: "on_cycle b (mark, flag) \<Longrightarrow> hl_guard b mark"
  unfolding on_cycle_def by (metis hl_rel_iff surj_pair tranclD)

lemma dangling_rel: "dangling b mark \<Longrightarrow> byte_at b mark \<noteq> NUL \<Longrightarrow>
    ((mark, False), (0, False)) \<in> hl_rel b"
  using hl_step_dangling [of b mark] by (auto simp: hl_rel_def hl_guard_def dangling_def)

lemma dangling_guard: "dangling b mark \<Longrightarrow> hl_guard b mark"
  by (auto simp: dangling_def hl_guard_def)

lemma dangling_on_cycle:
  assumes "((0, False), (mark, False)) \<in> (hl_rel b)\<^sup>*" "dangling b mark"
  shows "on_cycle b (0, False)"
  unfolding on_cycle_def
  using assms dangling_rel [of b mark] dangling_guard [of b mark]
  by (meson hl_guard_def rtrancl_into_trancl1 rtrancl_trancl_trancl trancl.r_into_trancl)

text \<open>
  What holds at every round: the position is reachable, and either the characters before
  \<^verbatim>\<open>mark\<close> have been shown, or the loop is on a cycle.
\<close>

definition hl_inv :: "buffer \<Rightarrow> nat \<times> bool \<times> string \<Rightarrow> bool" where
  "hl_inv b = (\<lambda>(mark, flag, out).
     ((0, False), (mark, flag)) \<in> (hl_rel b)\<^sup>* \<and>
     (on_cycle b (mark, flag) \<or>
      ((\<forall>i. byte_at b i \<noteq> ESC) \<longrightarrow> shows_text out (map (byte_at b) [0..<mark]))))"

lemma hl_inv_init: "hl_inv b (0, False, [])"
  by (simp add: hl_inv_def shows_text_Nil)

lemma hl_inv_round:
  assumes inv: "hl_inv b (mark, flag, out)" and g: "hl_guard b mark"
  shows "hl_inv b (hl_round b (mark, flag, out))"
proof -
  obtain s m f where step: "hl_step b mark flag = (s, m, f)" by (metis surj_pair)
  with g have rel: "((mark, flag), (m, f)) \<in> hl_rel b" by (simp add: hl_rel_iff)
  have reach: "((0, False), (m, f)) \<in> (hl_rel b)\<^sup>*"
    using inv rel by (auto simp: hl_inv_def intro: rtrancl_into_rtrancl)
  have "on_cycle b (m, f) \<or>
      ((\<forall>i. byte_at b i \<noteq> ESC) \<longrightarrow> shows_text (out @ s) (map (byte_at b) [0..<m]))"
  proof (cases "on_cycle b (mark, flag) \<or> \<not> flag \<and> dangling b mark")
    case True
    then show ?thesis
    proof
      assume "on_cycle b (mark, flag)"
      with rel show ?thesis using on_cycle_step by blast
    next
      assume d: "\<not> flag \<and> dangling b mark"
      with step hl_step_dangling [of b mark] have "(m, f) = (0, False)" by auto
      moreover have "on_cycle b (0, False)"
        using d inv by (intro dangling_on_cycle [of mark]) (auto simp: hl_inv_def)
      ultimately show ?thesis by simp
    qed
  next
    case False
    have t: "good_token b mark s m"
      using g False step by (intro hl_step_progress) auto
    then have "[0..<m] = [0..<mark] @ [mark..<m]"
      using upt_add_eq_append [of 0 mark "m - mark"] by (simp add: good_token_def)
    then show ?thesis
      using t False inv by (auto simp: good_token_def hl_inv_def intro: shows_text_append)
  qed
  with reach step show ?thesis by (simp add: hl_inv_def hl_round_def)
qed

lemma hl_loop_inv:
  assumes "hl_loop b = Some out"
  obtains mark flag where "hl_inv b (mark, flag, out)" "\<not> hl_guard b mark"
proof -
  from assms obtain mark flag where w: "while_option (\<lambda>(mark, flag, out). hl_guard b mark)
      (hl_round b) (0, False, []) = Some (mark, flag, out)"
    by (auto simp: hl_loop_def)
  have "hl_inv b (mark, flag, out)"
    by (rule while_option_rule [where P = "hl_inv b", OF _ w hl_inv_init]) (auto intro: hl_inv_round)
  moreover have "\<not> hl_guard b mark" using while_option_stop [OF w] by simp
  ultimately show thesis by (rule that)
qed

lemma hl_loop_cycle:
  assumes "on_cycle b (0, False)"
  shows "hl_loop b = None"
proof (rule ccontr)
  let ?P = "\<lambda>(mark, flag, out :: string). on_cycle b (mark, flag)"
  assume "hl_loop b \<noteq> None"
  then obtain s where w: "while_option (\<lambda>(mark, flag, out). hl_guard b mark)
      (hl_round b) (0, False, []) = Some s" by (auto simp: hl_loop_def)
  have "?P (hl_round b s)" if "?P s" "(\<lambda>(mark, flag, out). hl_guard b mark) s" for s
  proof -
    obtain mark flag out where s: "s = (mark, flag, out)" by (metis surj_pair)
    obtain t m f where "hl_step b mark flag = (t, m, f)" by (metis surj_pair)
    with that s show ?thesis
      using on_cycle_step [of b "(mark, flag)" "(m, f)"] by (simp add: hl_round_def hl_rel_iff)
  qed
  from while_option_rule [where P = ?P, OF this w] assms have "?P s" by simp
  with while_option_stop [OF w] show False by (auto dest: on_cycle_guard)
qed

lemma hl_loop_returns:
  assumes ok: "\<And>mark. ((0, False), (mark, False)) \<in> (hl_rel b)\<^sup>* \<Longrightarrow> \<not> dangling b mark"
  shows "\<exists>out. hl_loop b = Some out"
proof -
  let ?P = "\<lambda>(mark, flag, out :: string). ((0, False), (mark, flag)) \<in> (hl_rel b)\<^sup>*"
  let ?g = "\<lambda>(mark, flag :: bool, out :: string). hl_guard b mark"
  have "?P (hl_round b s) \<and>
      MAX_LINE_LENGTH - fst (hl_round b s) < MAX_LINE_LENGTH - fst s" if "?P s" "?g s" for s
  proof -
    obtain mark flag out where s: "s = (mark, flag, out)" by (metis surj_pair)
    obtain t m f where step: "hl_step b mark flag = (t, m, f)" by (metis surj_pair)
    with that s have rel: "((mark, flag), (m, f)) \<in> hl_rel b" by (simp add: hl_rel_iff)
    have "flag \<or> \<not> dangling b mark" using ok [of mark] that(1) s by (cases flag) auto
    with that s step have "good_token b mark t m" by (intro hl_step_progress) auto
    then have "mark < m" by (simp add: good_token_def)
    moreover have "mark < MAX_LINE_LENGTH" using that(2) s by (simp add: hl_guard_def)
    moreover have "((0, False), (m, f)) \<in> (hl_rel b)\<^sup>*"
      using that(1) s rel by (auto intro: rtrancl_into_rtrancl)
    ultimately show ?thesis using s step by (simp add: hl_round_def)
  qed
  then have "\<exists>t. while_option ?g (hl_round b) (0, False, []) = Some t"
    by (rule measure_while_option_Some [where P = ?P and f = "\<lambda>s. MAX_LINE_LENGTH - fst s"]) auto
  then show ?thesis by (auto simp: hl_loop_def)
qed

lemma byte_at_zbuf:
  "length s \<le> MAX_LINE_LENGTH \<Longrightarrow>
     byte_at (zbuf MAX_LINE_LENGTH s) i = (if i < length s then s ! i else NUL)"
  by (simp add: byte_at_def nth_zbuf)

lemma map_byte_at_zbuf:
  assumes "length s \<le> MAX_LINE_LENGTH" "length s \<le> m"
  shows "map (byte_at (zbuf MAX_LINE_LENGTH s)) [0..<m] = s @ replicate (m - length s) NUL"
  using assms by (intro nth_equalityI) (auto simp: byte_at_zbuf nth_append)

subsection \<open>Lines with and without quotation marks\<close>

definition is_quote :: "char \<Rightarrow> bool" where
  "is_quote c \<longleftrightarrow> c = CHR 0x22 \<or> c = CHR 0x27"

lemma hl_loop_no_quotes:
  assumes "\<And>i. \<not> is_quote (byte_at b i)"
  shows "\<exists>out. hl_loop b = Some out"
  using assms by (intro hl_loop_returns) (auto simp: dangling_def is_quote_def)

text \<open>Outside a comment a token that does not start at a quotation mark contains none.\<close>

definition quoteless :: "buffer \<Rightarrow> nat \<Rightarrow> nat \<Rightarrow> bool" where
  "quoteless b mark m \<longleftrightarrow> (\<forall>i. mark \<le> i \<and> i < m \<longrightarrow> \<not> is_quote (byte_at b i))"

lemma quoteless_word:
  assumes "keyword b mark g w"
  shows "quoteless b mark (mark + length w) \<or> (\<exists>c \<in> set w. is_quote c)"
proof -
  have "set (map (byte_at b) [mark..<mark + length w]) = set w"
    using map_byte_at [of w mark b] assms by (simp add: keyword_def)
  then show ?thesis by (force simp: quoteless_def)
qed

lemma quoteless_char: "\<not> is_quote (byte_at b mark) \<Longrightarrow> quoteless b mark (Suc mark)"
  unfolding quoteless_def by (metis le_less_Suc_eq)

lemma quoteless_hl_types:
  "\<not> is_quote (byte_at b mark) \<Longrightarrow> hl_types b mark = Some (out, m) \<Longrightarrow> quoteless b mark m"
  unfolding hl_types_def Let_def word_token_def
  by (auto split: if_splits dest!: quoteless_word simp: is_quote_def quoteless_char)

lemma quoteless_hl_control: "hl_control b mark = Some (out, m) \<Longrightarrow> quoteless b mark m"
  unfolding hl_control_def word_token_def
  by (auto split: if_splits dest!: quoteless_word simp: is_quote_def)

lemma quoteless_hl_bracket:
  "\<not> is_quote (byte_at b mark) \<Longrightarrow> hl_bracket b mark = Some (out, m) \<Longrightarrow> quoteless b mark m"
  unfolding hl_bracket_def Let_def word_token_def
  by (auto split: if_splits dest!: quoteless_word simp: is_quote_def quoteless_char)

lemma quoteless_hl_rest:
  "\<not> is_quote (byte_at b mark) \<Longrightarrow> hl_rest b mark = (out, m) \<Longrightarrow> quoteless b mark m"
  unfolding hl_rest_def word_token_def
  by (auto split: if_splits dest!: quoteless_word simp: is_quote_def quoteless_char)

lemma hl_step_quoteless:
  assumes "\<not> is_quote (byte_at b mark)" "byte_at b mark \<noteq> CHR ''/''"
    "hl_step b mark False = (out, m, f)"
  shows "quoteless b mark m \<and> \<not> f"
proof -
  have "hl_slash b mark = None" using assms(2) by (simp add: hl_slash_def)
  with assms show ?thesis
    unfolding hl_step_def
    by (auto split: option.splits prod.splits intro: quoteless_hl_types quoteless_hl_control
        quoteless_hl_bracket quoteless_hl_rest)
qed

lemma reach_first_quote:
  assumes q: "is_quote (byte_at b n)" and n: "n < MAX_LINE_LENGTH"
    and before: "\<And>i. i < n \<Longrightarrow>
      \<not> is_quote (byte_at b i) \<and> byte_at b i \<noteq> CHR ''/'' \<and> byte_at b i \<noteq> NUL"
  shows "m \<le> n \<Longrightarrow> ((m, False), (n, False)) \<in> (hl_rel b)\<^sup>*"
proof (induction "n - m" arbitrary: m rule: less_induct)
  case less
  show ?case
  proof (cases "m = n")
    case False
    with less.prems have m: "m < n" by simp
    obtain out m' f where step: "hl_step b m False = (out, m', f)" by (metis surj_pair)
    have g: "hl_guard b m" using before [OF m] m n by (simp add: hl_guard_def)
    have "\<not> dangling b m" using before [OF m] by (auto simp: dangling_def is_quote_def)
    with g step have "m < m'" using hl_step_progress [of b m False] by (auto simp: good_token_def)
    have "quoteless b m m' \<and> \<not> f" using before [OF m] step by (intro hl_step_quoteless) auto
    moreover have "m' \<le> n"
    proof (rule ccontr)
      assume "\<not> m' \<le> n"
      with m have "m \<le> n \<and> n < m'" by simp
      with calculation q show False by (simp add: quoteless_def)
    qed
    ultimately have "((m, False), (m', False)) \<in> hl_rel b" using g step by (simp add: hl_rel_iff)
    moreover have "((m', False), (n, False)) \<in> (hl_rel b)\<^sup>*"
      using \<open>m < m'\<close> \<open>m' \<le> n\<close> m by (intro less.hyps) auto
    ultimately show ?thesis by (rule converse_rtrancl_into_rtrancl)
  qed simp
qed

lemma hl_loop_hangs:
  assumes "length (p @ q # r) < MAX_LINE_LENGTH" "nul_free p" "is_quote q" "q \<notin> set r"
    and "\<forall>c \<in> set p. \<not> is_quote c \<and> c \<noteq> CHR ''/''"
  shows "hl_loop (zbuf MAX_LINE_LENGTH (p @ q # r)) = None"
proof -
  let ?s = "p @ q # r"
  let ?b = "zbuf MAX_LINE_LENGTH ?s"
  have at: "byte_at ?b i = (if i < length ?s then ?s ! i else NUL)" for i
    using assms(1) by (intro byte_at_zbuf) simp
  have "((0, False), (length p, False)) \<in> (hl_rel ?b)\<^sup>*"
  proof (rule reach_first_quote)
    show "is_quote (byte_at ?b (length p))" using assms(3) unfolding at by simp
    show "length p < MAX_LINE_LENGTH" using assms(1) by simp
    fix i
    assume "i < length p"
    then have p: "byte_at ?b i \<in> set p" unfolding at by (simp add: nth_append)
    then have "byte_at ?b i \<noteq> NUL" using assms(2) unfolding nul_free_def by metis
    with p assms(5) show "\<not> is_quote (byte_at ?b i) \<and> byte_at ?b i \<noteq> CHR ''/'' \<and> byte_at ?b i \<noteq> NUL"
      by blast
  qed simp
  moreover have "byte_at ?b j \<noteq> q" if "length p + 1 \<le> j" for j
  proof -
    from that have "length p < j" by simp
    then obtain k where j: "j = Suc (length p + k)" using less_imp_Suc_add by blast
    have "k < length r \<Longrightarrow> r ! k \<noteq> q" using assms(4) nth_mem [of k r] by blast
    with assms(3) show ?thesis by (auto simp: at j nth_append is_quote_def)
  qed
  then have "dangling ?b (length p)"
    using assms(1,3) by (simp add: dangling_def find_quote_none_iff at [of "length p"] is_quote_def)
  ultimately show ?thesis by (intro hl_loop_cycle dangling_on_cycle)
qed

lemma first_nonblank_le:
  "a \<le> k \<Longrightarrow> k < MAX_LINE_LENGTH \<Longrightarrow> byte_at b k \<noteq> CHR '' '' \<Longrightarrow> first_nonblank b a \<le> k"
proof (induction b a rule: first_nonblank.induct)
  case (1 b a)
  show ?case
  proof (cases "a = k")
    case True
    with 1 show ?thesis by (subst first_nonblank.simps) simp
  next
    case False
    with 1 show ?thesis by (subst first_nonblank.simps) simp
  qed
qed

lemma byte_at_zbuf_in:
  "length s \<le> MAX_LINE_LENGTH \<Longrightarrow> byte_at (zbuf MAX_LINE_LENGTH s) i \<in> set s \<union> {NUL}"
  using byte_at_zbuf [of s i] nth_mem [of i s] by (cases "i < length s") auto

lemma hl_loop_no_quotes_zbuf:
  assumes "length s \<le> MAX_LINE_LENGTH" "\<forall>c \<in> set s. \<not> is_quote c"
  shows "\<exists>out. hl_loop (zbuf MAX_LINE_LENGTH s) = Some out"
proof (rule hl_loop_no_quotes)
  show "\<not> is_quote (byte_at (zbuf MAX_LINE_LENGTH s) i)" for i
  proof -
    have "\<forall>c \<in> set s \<union> {NUL}. \<not> is_quote c" using assms(2) by (auto simp: is_quote_def)
    with byte_at_zbuf_in [OF assms(1), of i] show ?thesis by blast
  qed
qed

lemma cstr_prefix: "nul_free p \<Longrightarrow> cstr (p @ r) = p @ cstr r"
  by (induction p) (auto simp: cstr_def)

section \<open>Properties\<close>

text \<open>
  C17. The highlighter's scanning loop returns exactly on the lines on which it never stands,
  outside a comment, at a quotation mark that has no partner further on in the buffer.
  At such a mark it sets \<^verbatim>\<open>mark\<close> back to 0 and starts over for ever.
\<close>

theorem hl_loop_hangs_iff_dangling_quote:
  "hl_loop b = None \<longleftrightarrow> (\<exists>m. ((0, False), (m, False)) \<in> (hl_rel b)\<^sup>* \<and> dangling b m)"
proof
  assume "hl_loop b = None"
  with hl_loop_returns [of b] show "\<exists>m. ((0, False), (m, False)) \<in> (hl_rel b)\<^sup>* \<and> dangling b m"
    by auto
next
  assume "\<exists>m. ((0, False), (m, False)) \<in> (hl_rel b)\<^sup>* \<and> dangling b m"
  then show "hl_loop b = None" by (auto intro: hl_loop_cycle dangling_on_cycle)
qed

text \<open>
  C20. When the highlighter returns on a line \<open>s\<close> held in a zero-padded buffer, it has printed
  the line itself and nothing else but colour sequences: with the escape sequences and
  NUL bytes left out, the output is \<open>s\<close>.
\<close>

theorem highlighting_preserves_text:
  assumes "length s < MAX_LINE_LENGTH" "nul_free s" "ESC \<notin> set s"
    and "hl_loop (zbuf MAX_LINE_LENGTH s) = Some out"
  shows "filter (\<lambda>c. c \<noteq> NUL) (visible out) = s"
proof -
  let ?b = "zbuf MAX_LINE_LENGTH s"
  from assms(4) obtain mark flag where inv: "hl_inv ?b (mark, flag, out)"
    and g: "\<not> hl_guard ?b mark" by (rule hl_loop_inv)
  have noesc: "\<forall>i. byte_at ?b i \<noteq> ESC"
  proof
    fix i
    have "byte_at ?b i \<in> set s \<union> {NUL}" using assms(1) by (intro byte_at_zbuf_in) simp
    then show "byte_at ?b i \<noteq> ESC" using assms(3) by (cases "byte_at ?b i = NUL") auto
  qed
  have "\<not> on_cycle ?b (mark, flag)" using g on_cycle_guard by blast
  with inv noesc have "visible out = map (byte_at ?b) [0..<mark]"
    by (auto simp: hl_inv_def intro: shows_text_visible)
  moreover have "length s \<le> mark"
  proof (rule ccontr)
    assume "\<not> length s \<le> mark"
    then have "byte_at ?b mark \<in> set s" "mark < MAX_LINE_LENGTH"
      using assms(1) by (auto simp: byte_at_zbuf)
    moreover from this assms(2) have "byte_at ?b mark \<noteq> NUL" unfolding nul_free_def by metis
    ultimately show False using g by (simp add: hl_guard_def)
  qed
  ultimately have "visible out = s @ replicate (mark - length s) NUL"
    using assms(1) by (simp add: map_byte_at_zbuf)
  with assms(2) show ?thesis by (auto simp: nul_free_def filter_id_conv)
qed

theorem highlighting_preserves_text_witness:
  "\<exists>out. hl_loop (zbuf MAX_LINE_LENGTH ''int n = 10; // ten'') = Some out
     \<and> filter (\<lambda>c. c \<noteq> NUL) (visible out) = ''int n = 10; // ten''"
proof -
  let ?s = "''int n = 10; // ten''"
  have "length ?s \<le> MAX_LINE_LENGTH" "\<forall>c \<in> set ?s. \<not> is_quote c"
    by (simp_all add: is_quote_def)
  from hl_loop_no_quotes_zbuf [OF this]
  obtain out where out: "hl_loop (zbuf MAX_LINE_LENGTH ?s) = Some out" ..
  have "filter (\<lambda>c. c \<noteq> NUL) (visible out) = ?s"
    by (rule highlighting_preserves_text [OF _ _ _ out]) simp_all
  with out show ?thesis by blast
qed

text \<open>
  C35. A line with a quotation mark that is not closed, and with no slash or other quotation
  mark before it, makes the highlighter loop for ever, whatever stands around it:
  an apostrophe in ordinary prose is enough.
\<close>

theorem unclosed_quote_hangs_highlighter:
  assumes "length (p @ q # r) < MAX_LINE_LENGTH" "nul_free p" "is_quote q" "q \<notin> set r"
    and "\<forall>c \<in> set p. \<not> is_quote c \<and> c \<noteq> CHR ''/''"
  shows "hl_line j (zbuf MAX_LINE_LENGTH (p @ q # r)) = None"
proof -
  let ?b = "zbuf MAX_LINE_LENGTH (p @ q # r)"
  have at: "byte_at ?b i = (if i < length (p @ q # r) then (p @ q # r) ! i else NUL)" for i
    using assms(1) by (intro byte_at_zbuf) simp
  have "first_nonblank ?b 0 \<le> length p"
    using assms(1,3) by (intro first_nonblank_le) (auto simp: at is_quote_def)
  then have "byte_at ?b (first_nonblank ?b 0) \<in> set (p @ [q])"
    by (auto simp: at nth_append le_less)
  moreover have "\<forall>c \<in> set (p @ [q]). c \<noteq> CHR ''/''" using assms(3,5) by (auto simp: is_quote_def)
  ultimately have "byte_at ?b (first_nonblank ?b 0) \<noteq> CHR ''/''" by blast
  moreover have "cstr ?b \<noteq> [NEWLINE]"
    using cstr_prefix [of "p @ [q]"] assms(2,3) by (auto simp: zbuf_def is_quote_def append_eq_Cons_conv)
  ultimately show ?thesis
    using hl_loop_hangs [OF assms] by (simp add: hl_line_def Let_def)
qed

theorem unclosed_quote_witness:
  "hl_line 0 (zbuf MAX_LINE_LENGTH (''don'' @ CHR 0x27 # ''t'')) = None"
  by (rule unclosed_quote_hangs_highlighter) (simp_all add: is_quote_def)

end
