(* ===== verification/Editor_Commands.thy ===== *)
theory Editor_Commands
  imports Editor_Highlight
begin

text \<open>
  The commands of \<^verbatim>\<open>editor.c\<close>, the reading of the file at start-up and the command loop of
  \<^verbatim>\<open>main\<close>. A command is a function from the state to the next state or to the reason why
  it does not come back. \<^verbatim>\<open>malloc\<close> is taken to succeed, as the program assumes throughout.
\<close>

section \<open>Recording commands\<close>

abbreviation TAB :: char where
  "TAB \<equiv> CHR 0x09"

text \<open>
  \<^verbatim>\<open>record_command\<close>: the next free slot of \<^verbatim>\<open>command_set\<close>, or, when all twenty are in use, the
  last one after the others have moved down by one.
\<close>

definition record_command :: "string \<Rightarrow> editor \<Rightarrow> editor" where
  "record_command command e =
     (if upper_bound e + 1 < int MAX_ROLLBAKC_STEP
      then e\<lparr>command_set := (command_set e)[nat (upper_bound e + 1) := Some command],
             upper_bound := upper_bound e + 1\<rparr>
      else e\<lparr>command_set :=
               (foldl (\<lambda>cs i. cs[i - 1 := cs ! i]) (command_set e) [1..<MAX_ROLLBAKC_STEP])
                 [nat (upper_bound e) := Some command],
             upper_bound := int MAX_ROLLBAKC_STEP - 1\<rparr>)"

text \<open>
  The command line built by \<^verbatim>\<open>com_ins\<close> and \<^verbatim>\<open>com_mod\<close>: name, line number, a space and the old
  contents, concatenated in the five-byte array \<^verbatim>\<open>part1\<close>.
\<close>

definition command_line :: "string \<Rightarrow> int \<Rightarrow> string \<Rightarrow> buffer" where
  "command_line name n part4 =
     (let part2 = number2string n;
          part1 = strcat_n (name @ [NUL]) part2 (int (length part2));
          part1 = strcat_n part1 '' '' 1
      in strcat_n part1 part4 (int (length part4)))"

definition record_edit :: "string \<Rightarrow> int \<Rightarrow> string \<Rightarrow> editor \<Rightarrow> editor" where
  "record_edit name n part4 e =
     (let part1 = command_line name n part4
      in record_command (cstr part1) (e\<lparr>overrun := overrun e + (length part1 - 5)\<rparr>))"

section \<open>Editing commands\<close>

definition refuse :: "string \<Rightarrow> editor \<Rightarrow> editor" where
  "refuse s e = ed_printf 1 (alert s) [] e"

text \<open>\<^verbatim>\<open>if (auto_show == 1) show_text_syntax_highlighting(text);\<close>\<close>

definition refresh :: "editor \<Rightarrow> ed_result" where
  "refresh e = (if auto_show e = 1 then show_text_syntax_highlighting e else Inr e)"

text \<open>The line to store: what follows the command, or a line read from the console.\<close>

definition content_input :: "buffer \<Rightarrow> editor \<Rightarrow> stop + (buffer \<times> editor)" where
  "content_input extra e =
     (if byte_at extra 0 = NUL
      then read_input (ed_printf 1 (''... '' @ esc ''[1;35m'' @ ''input content:'' @ reset) [] e)
      else if length (cstr extra) < MAX_LINE_LENGTH
      then Inr (buf_strcpy (replicate MAX_LINE_LENGTH NUL) extra, e)
      else Inl (Faulted (OutOfBounds ''input'')))"

text \<open>
  \<^verbatim>\<open>strcpy(part4, text[n-1])\<close>, where \<^verbatim>\<open>text[n-1]\<close> is a null pointer when a line is appended.
\<close>

definition old_content :: "int \<Rightarrow> editor \<Rightarrow> stop + string" where
  "old_content n e =
     (if n - 1 \<ge> int (length (ed_text e)) then Inl (Faulted (OutOfBounds ''text''))
      else let s = (case ed_text e ! nat (n - 1) of None \<Rightarrow> cstr (null_str e) | Some b \<Rightarrow> cstr b)
        in if length s < MAX_LINE_LENGTH then Inr s
           else Inl (Faulted (OutOfBounds ''part4'')))"

definition copy_line :: "buffer \<Rightarrow> buffer" where
  "copy_line b = buf_strcpy (replicate MAX_LINE_LENGTH NUL) b"

text \<open>The loop of \<^verbatim>\<open>com_ins\<close> that moves the lines from \<open>n\<close> on up by one, from the last to the first.\<close>

primrec ins_shift :: "nat \<Rightarrow> nat \<Rightarrow> buffer option list \<Rightarrow> buffer option list" where
  "ins_shift n 0 t = t"
| "ins_shift n (Suc i) t =
     (if Suc i > n - 1
      then ins_shift n i
        (case t ! i of None \<Rightarrow> t | Some b \<Rightarrow> t[Suc i := Some (copy_line b)])
      else t)"

definition set_line :: "nat \<Rightarrow> buffer \<Rightarrow> editor \<Rightarrow> editor" where
  "set_line i b e = e\<lparr>ed_text := (ed_text e)[i := Some b]\<rparr>"

text \<open>
  The part of \<^verbatim>\<open>com_ins\<close> after the shift. A line appended after an empty last line goes into
  that line, a fresh empty line is added after it, and the command is not recorded.
\<close>

definition ins_store :: "int \<Rightarrow> buffer \<Rightarrow> int \<Rightarrow> string \<Rightarrow> editor \<Rightarrow> ed_result" where
  "ins_store n input flag part4 e =
     (let store =
            (let e1 = (set_line (nat (n - 1)) (copy_line input) e)\<lparr>changed := 1\<rparr>;
                 e2 = (if flag \<noteq> 0 then record_edit ''ins-'' n part4 e1 else e1)
             in refresh e2)
      in if n - 1 \<ge> int (length (ed_text e)) then Inl (Faulted (OutOfBounds ''text''))
         else if ed_text e ! nat (n - 1) = None
         then if n < 2 then Inl (Faulted (OutOfBounds ''text''))
              else (case ed_text e ! nat (n - 2) of
                  None \<Rightarrow> Inl (Faulted (NullPointer ''text''))
                | Some b \<Rightarrow>
                    if byte_at b 0 = NUL
                    then refresh
                      ((set_line (nat (n - 2)) (buf_strcpy b input)
                         (set_line (nat (n - 1)) (replicate MAX_LINE_LENGTH NUL) e))
                       \<lparr>changed := 1\<rparr>)
                    else store)
         else store)"

definition com_ins :: "int \<Rightarrow> buffer \<Rightarrow> int \<Rightarrow> editor \<Rightarrow> ed_result" where
  "com_ins n extra flag e =
     (if n \<le> 0 \<or> n > get_line_number (ed_text e) + 1 + 1
      then Inr (refuse ''invalid line number'' e)
      else ed_bind (content_input extra e) (\<lambda>(input, e1).
           ed_bind (if flag \<noteq> 0 then old_content n e1 else Inr []) (\<lambda>part4.
           ins_store n input flag part4
             (e1\<lparr>ed_text := ins_shift (nat n) (MAX_LINE_NUMBER - 1) (ed_text e1)\<rparr>))))"

definition com_mod :: "int \<Rightarrow> buffer \<Rightarrow> int \<Rightarrow> editor \<Rightarrow> ed_result" where
  "com_mod n extra flag e =
     (if n \<le> 0 \<or> n > get_line_number (ed_text e) + 1
      then Inr (refuse ''invalid line number'' e)
      else ed_bind (content_input extra e) (\<lambda>(input, e1).
           ed_bind (if flag \<noteq> 0 then old_content n e1 else Inr []) (\<lambda>part4.
           let e2 = (set_line (nat (n - 1)) (copy_line input) e1)\<lparr>changed := 1\<rparr>;
               e3 = (if flag \<noteq> 0 then record_edit ''mod-'' n part4 e2 else e2)
           in refresh e3)))"

text \<open>
  The loop of \<^verbatim>\<open>com_del\<close>: every later line is copied down by one and its place is zeroed.
  It returns the array and the last index \<open>i\<close>. With all 256 lines in use it reads
  \<^verbatim>\<open>text[256]\<close>.
\<close>

function del_shift :: "nat \<Rightarrow> buffer option list \<Rightarrow> stop + (nat \<times> buffer option list)" where
  "del_shift i t =
     (if i + 1 \<ge> length t then Inl (Faulted (OutOfBounds ''text''))
      else case t ! (i + 1) of
          None \<Rightarrow> Inr (i, t)
        | Some b \<Rightarrow>
            (case t ! i of
               None \<Rightarrow> Inl (Faulted (NullPointer ''text''))
             | Some d \<Rightarrow> del_shift (i + 1)
                 (t[i := Some (buf_strcpy d b), i + 1 := Some (replicate MAX_LINE_LENGTH NUL)])))"
  by pat_completeness auto

termination
  by (relation "measure (\<lambda>(i, t). length t - i)") auto

declare del_shift.simps [simp del]

definition com_del :: "int \<Rightarrow> int \<Rightarrow> editor \<Rightarrow> ed_result" where
  "com_del n flag e =
     (if n \<le> 0 \<or> n > get_line_number (ed_text e) + 1
      then Inr (refuse ''invalid line number'' e)
      else ed_bind (if flag \<noteq> 0 then old_content n e else Inr []) (\<lambda>part4.
           ed_bind (del_shift (nat (n - 1))
                     ((ed_text e)[nat (n - 1) := Some (replicate MAX_LINE_LENGTH NUL)]))
             (\<lambda>(i, t). refresh (e\<lparr>ed_text := (if i \<noteq> 0 then t[i := None] else t), changed := 1\<rparr>))))"

section \<open>Files\<close>

abbreviation (input) O_RDONLY :: int where
  "O_RDONLY \<equiv> 0"

abbreviation (input) O_WRONLY :: int where
  "O_WRONLY \<equiv> 1"

abbreviation (input) O_CREATE :: int where
  "O_CREATE \<equiv> 0x200"

text \<open>\<^verbatim>\<open>open(path, omode)\<close>: the kernel's answer comes from \<open>opens\<close>.\<close>

definition sys_open :: "string \<Rightarrow> int \<Rightarrow> editor \<Rightarrow> int \<times> editor" where
  "sys_open path omode e =
     (case opens e of
        [] \<Rightarrow> (- 1, e\<lparr>events := events e @ [Open path omode]\<rparr>)
      | fd # r \<Rightarrow> (fd, e\<lparr>opens := r, events := events e @ [Open path omode]\<rparr>))"

definition sys_unlink :: "string \<Rightarrow> editor \<Rightarrow> editor" where
  "sys_unlink path e = e\<lparr>events := events e @ [Unlink path]\<rparr>"

definition sys_close :: "int \<Rightarrow> editor \<Rightarrow> editor" where
  "sys_close fd e = e\<lparr>events := events e @ [Close fd]\<rparr>"

text \<open>The lines after the first, each preceded by a newline.\<close>

fun save_lines :: "int \<Rightarrow> buffer option list \<Rightarrow> editor \<Rightarrow> ed_result" where
  "save_lines fd [] e = Inl (Faulted (OutOfBounds ''text''))"
| "save_lines fd (None # ts) e = Inr e"
| "save_lines fd (Some b # ts) e =
     save_lines fd ts (ed_write fd (cstr b) (ed_printf fd [NEWLINE] [] e))"

definition com_save :: "string \<Rightarrow> editor \<Rightarrow> ed_result" where
  "com_save path e =
     (let (fd, e1) = sys_open path (O_WRONLY + O_CREATE) (sys_unlink path e)
      in if fd = - 1
         then Inl (Exited (refuse ''save failed, file can't open:'' e1))
         else case ed_text e1 of
             [] \<Rightarrow> Inl (Faulted (OutOfBounds ''text''))
           | None # ts \<Rightarrow> Inr (sys_close fd e1)
           | Some b # ts \<Rightarrow>
               ed_bind (save_lines fd ts (ed_write fd (cstr b) e1)) (\<lambda>e2.
                 Inr ((ed_printf 1 (''>>> '' @ esc ''[1;32m'' @ ''saved successfully'' @ reset
                        @ [NEWLINE]) [] (sys_close fd e2))\<lparr>changed := 0\<rparr>)))"

text \<open>The loop that frees the lines before the program ends.\<close>

fun free_lines :: "buffer option list \<Rightarrow> stop + buffer option list" where
  "free_lines [] = Inl (Faulted (OutOfBounds ''text''))"
| "free_lines (None # ts) = Inr (None # ts)"
| "free_lines (Some b # ts) = ed_bind (free_lines ts) (\<lambda>ts'. Inr (None # ts'))"

definition leave :: "editor \<Rightarrow> ed_result" where
  "leave e = ed_bind (free_lines (ed_text e)) (\<lambda>t. Inl (Exited (e\<lparr>ed_text := t\<rparr>)))"

definition save_question :: string where
  "save_question = ''>>> '' @ esc ''[1;33m'' @ ''save the file?'' @ reset @ '' ''
     @ esc ''[1m'' @ esc ''[46;33m'' @ ''y'' @ reset @ ''/''
     @ esc ''[1m'' @ esc ''[41;33m'' @ ''n'' @ reset @ [NEWLINE]"

lemma read_input_shorter:
  assumes "read_input e = Inr (input, e1)"
  shows "length (stdin e1) < length (stdin e)"
proof -
  obtain s rest where g: "gets MAX_LINE_LENGTH (stdin e) = (s, rest)" by fastforce
  with assms have "s \<noteq> []" "stdin e1 = rest"
    by (auto simp: read_input_def Let_def split: if_splits)
  with gets_split [OF g] show ?thesis by (metis length_append length_greater_0_conv less_add_same_cancel2)
qed

lemma stdin_ed_write [simp]: "stdin (ed_write fd s e) = stdin e"
  by (simp add: ed_write_def)

lemma stdin_ed_printf [simp]: "stdin (ed_printf fd s as e) = stdin e"
  by (simp add: ed_printf_def)

lemma stdin_save_lines: "save_lines fd ts e = Inr e1 \<Longrightarrow> stdin e1 = stdin e"
  by (induction fd ts e rule: save_lines.induct) auto

lemma stdin_com_save: "com_save path e = Inr e1 \<Longrightarrow> stdin e1 = stdin e"
  by (auto simp: com_save_def sys_open_def sys_unlink_def sys_close_def Let_def ed_bind_Inr_iff
      dest!: stdin_save_lines split: list.splits option.splits prod.splits if_splits)

text \<open>\<^verbatim>\<open>com_exit\<close> asks until the answer is \<^verbatim>\<open>n\<close> or the text has been saved.\<close>

function com_exit :: "string \<Rightarrow> editor \<Rightarrow> ed_result" where
  "com_exit path e =
     (if changed e = 1
      then case read_input (ed_printf 1 save_question [] e) of
          Inl s \<Rightarrow> Inl s
        | Inr (input, e1) \<Rightarrow>
            if cstr input = ''y''
            then (case com_save path e1 of Inl s \<Rightarrow> Inl s | Inr e2 \<Rightarrow> com_exit path e2)
            else if cstr input = ''n'' then leave e1
            else com_exit path
              (ed_printf 2 (''>>> '' @ esc ''[1;31m'' @ ''wrong answer?'' @ reset @ [NEWLINE]) [] e1)
      else leave e)"
  by pat_completeness auto

termination
  by (relation "measure (\<lambda>(path, e). length (stdin e))")
    (auto dest!: read_input_shorter stdin_com_save)

declare com_exit.simps [simp del]

definition com_create_new_file :: "string \<Rightarrow> editor \<Rightarrow> ed_result" where
  "com_create_new_file path e =
     (let (fd, e1) = sys_open path (O_WRONLY + O_CREATE) e
      in if fd = - 1
         then Inl (Exited (ed_printf 1 (''>>> '' @ esc ''[1;31m'' @ ''create file failed'' @ reset
                @ [NEWLINE]) [] e1))
         else Inr e1)"

section \<open>Fixed texts\<close>

text \<open>A row of the colour table.\<close>

definition demo_row :: "string \<Rightarrow> string \<Rightarrow> string \<Rightarrow> string" where
  "demo_row name colour pad =
     name @ ''| '' @ esc colour @ ''I am happy Shaun Fong.'' @ pad @ reset @ [TAB] @ ''|'' @ [TAB]
       @ esc colour @ [CHR 0x5C] @ ''e'' @ colour @ reset @ [NEWLINE]"

definition demo_lines :: "string list" where
  "demo_lines =
    [''>>> '' @ esc ''[1;33m'' @ ''color demo:'' @ [NEWLINE] @ reset,
     ''----------------+-------------------------------+-----------------------'' @ [NEWLINE],
     demo_row (''L_BLACK: '' @ [TAB]) ''[1;30m'' [],
     demo_row (''BLACK: '' @ [TAB] @ [TAB]) ''[0;30m'' [],
     demo_row (''RED: '' @ [TAB] @ [TAB]) ''[0;31m'' [],
     demo_row (''L_RED: '' @ [TAB] @ [TAB]) ''[1;31m'' [],
     demo_row (''GREEN: '' @ [TAB] @ [TAB]) ''[0;32m'' [],
     demo_row (''L_GREEN: '' @ [TAB]) ''[1;32m'' [],
     demo_row (''YELLOW:'' @ [TAB] @ [TAB]) ''[0;33m'' '' '',
     demo_row (''L_YELLOW:'' @ [TAB]) ''[1;33m'' '' '',
     demo_row (''BLUE: '' @ [TAB] @ [TAB]) ''[0;34m'' '' '',
     demo_row (''L_BLUE:'' @ [TAB] @ [TAB]) ''[1;34m'' '' '',
     demo_row (''PURPLE:'' @ [TAB] @ [TAB]) ''[0;35m'' '' '',
     demo_row (''L_PURPLE: '' @ [TAB]) ''[1;35m'' '' '',
     demo_row (''CYAN: '' @ [TAB] @ [TAB]) ''[0;36m'' '' '',
     demo_row (''L_CYAN:'' @ [TAB] @ [TAB]) ''[1;36m'' '' '',
     demo_row (''GRAY: '' @ [TAB] @ [TAB]) ''[0;37m'' '' '',
     demo_row (''WHITE: '' @ [TAB] @ [TAB]) ''[1;37m'' '' '',
     ''----------------+-------------------------------+-----------------------'' @ [NEWLINE]]"

definition help_lines :: "string list" where
  "help_lines =
    [''>>> '' @ esc ''[1;33m'' @ ''instructions for use:'' @ [NEWLINE] @ reset,
     ''--------+--------------------------------------------------------------'' @ [NEWLINE],
     esc ''[1;32m'' @ ''ins-n:'' @ reset @ '' '' @ [TAB] @ ''| insert a line after line n''
       @ [NEWLINE],
     esc ''[1;32m'' @ ''mod-n:'' @ reset @ '' '' @ [TAB] @ ''| modify line n'' @ [NEWLINE],
     esc ''[1;32m'' @ ''del-n:'' @ reset @ '' '' @ [TAB] @ ''| delete line n'' @ [NEWLINE],
     esc ''[1;32m'' @ ''ins:'' @ reset @ '' '' @ [TAB]
       @ ''| insert a line after the last line'' @ [NEWLINE],
     esc ''[1;32m'' @ ''mod:'' @ reset @ '' '' @ [TAB] @ ''| modify the last line'' @ [NEWLINE],
     esc ''[1;32m'' @ ''del:'' @ reset @ '' '' @ [TAB] @ ''| delete the last line'' @ [NEWLINE],
     esc ''[1;32m'' @ ''show:'' @ reset @ '' '' @ [TAB]
       @ ''| enable show current contents after executing a command.'' @ [NEWLINE],
     esc ''[1;32m'' @ ''hide:'' @ reset @ '' '' @ [TAB]
       @ ''| disable show current contents after executing a command.'' @ [NEWLINE],
     esc ''[1;32m'' @ ''save:'' @ reset @ '' '' @ [TAB] @ ''| save the file'' @ [NEWLINE],
     esc ''[1;32m'' @ ''exit:'' @ reset @ '' '' @ [TAB] @ ''| exit editor'' @ [NEWLINE],
     esc ''[1;32m'' @ ''help:'' @ reset @ [TAB] @ ''| help info'' @ [NEWLINE],
     esc ''[1;32m'' @ ''demo:'' @ reset @ [TAB] @ ''| color demo'' @ [NEWLINE],
     esc ''[1;32m'' @ ''init:'' @ reset @ [TAB] @ ''| initial file'' @ [NEWLINE],
     esc ''[1;32m'' @ ''disp:'' @ reset @ [TAB] @ ''| display with highlighting'' @ [NEWLINE],
     esc ''[1;32m'' @ ''rb:'' @ reset @ [TAB] @ ''| rollback the file'' @ [NEWLINE],
     ''--------+--------------------------------------------------------------'' @ [NEWLINE]]"

definition print_all :: "string list \<Rightarrow> editor \<Rightarrow> editor" where
  "print_all ss e = foldl (\<lambda>e s. ed_printf 1 s [] e) e ss"

definition com_display_color_demo :: "editor \<Rightarrow> editor" where
  "com_display_color_demo e = print_all demo_lines e"

definition com_help :: "editor \<Rightarrow> editor" where
  "com_help e = print_all help_lines e"

definition init_lines :: "string list" where
  "init_lines =
    [''// Create a NULL-terminated string by reading the provided file'',
     ''static char* readShaderSource(const char* shaderFile)'',
     ''{'',
     [TAB] @ ''int flag = 24;'',
     [TAB] @ ''double ways = 100.43;'',
     [TAB] @ ''if ( fp == NULL ) {'',
     [TAB] @ [TAB] @ ''return NULL;'',
     [TAB] @ ''}'',
     [TAB] @ ''fseek(fp, 0L, SEEK_END);'' @ [TAB] @ ''//search something'',
     [TAB] @ ''long size = ftell(fp);'',
     [TAB] @ ''fseek(fp, 0L, SEEK_SET);'',
     [TAB] @ ''char* buf = new char[size + 1];'',
     [TAB] @ ''memset(buf, 0, size + 1);'' @ [TAB] @ ''//Initiate every bit of buf as 0'',
     [TAB] @ ''fread(buf, 1, size, fp);'',
     [TAB] @ ''buf[size] = '' @ [CHR 0x27] @ [CHR 0x5C] @ ''0'' @ [CHR 0x27] @ '';'',
     [TAB] @ ''fclose(fp);'' @ [TAB] @ [TAB] @ [TAB] @ ''// close '' @ [CHR 0x27] @ ''fp''
       @ [CHR 0x27] @ '' stream.'',
     [TAB] @ ''return buf;'',
     [TAB] @ ''while (flag != 0){'',
     [TAB] @ [TAB] @ ''ways = ways + ways * 12;'',
     [TAB] @ ''}'',
     [TAB] @ ''for (int a = 10; a >= 0; a--){'',
     [TAB] @ [TAB] @ ''float tmp_value = 20.5;'',
     [TAB] @ [TAB] @ ''printf('' @ [CHR 0x22]
       @ ''the real value of variable tmp_value is:%f'' @ [CHR 0x22] @ '', tmp_value);'',
     [TAB] @ [TAB] @ ''continue;'',
     [TAB] @ ''}'',
     ''}'',
     ''// demo | made by Shaun Fong'']"

text \<open>
  \<^verbatim>\<open>com_init_file\<close>: the prepared lines are copied over freshly allocated buffers, which are not
  cleared first.
\<close>

definition com_init_file :: "editor \<Rightarrow> ed_result" where
  "com_init_file e =
     (let t = foldl (\<lambda>t i. t[i := Some (buf_strcpy (junk e i) (init_lines ! i))])
                (ed_text e) [0..<27];
          e1 = e\<lparr>ed_text := t, line_number := get_line_number t\<rparr>
      in ed_bind (show_text_syntax_highlighting e1) (\<lambda>e2. Inr (e2\<lparr>changed := 1\<rparr>)))"

section \<open>Undoing\<close>

text \<open>The position after the first space among the first \<open>k\<close> bytes, 255 if there is none.\<close>

definition space_pos :: "nat \<Rightarrow> buffer \<Rightarrow> nat" where
  "space_pos k b =
     (let j = length (takeWhile (\<lambda>c. c \<noteq> CHR '' '') (take k b))
      in if j < length (take k b) then j + 1 else MAX_LINE_LENGTH - 1)"

definition update_line_number :: "ed_result \<Rightarrow> ed_result" where
  "update_line_number r = ed_bind r (\<lambda>e. Inr (e\<lparr>line_number := get_line_number (ed_text e)\<rparr>))"

definition com_rollback :: "editor \<Rightarrow> ed_result" where
  "com_rollback e =
     (if upper_bound e < 0 then Inr (refuse ''couldn't rollback'' e)
      else case command_set e ! nat (upper_bound e) of
          None \<Rightarrow> Inl (Faulted (NullPointer ''command_set''))
        | Some s \<Rightarrow>
            let input = zbuf MAX_LINE_LENGTH s;
                e1 = e\<lparr>upper_bound := upper_bound e - 1\<rparr>;
                pos = space_pos 10 input;
                line = stringtonumber (drop 4 input);
                content = drop pos input
            in if take 3 input = ''ins'' then update_line_number (com_del line 0 e1)
               else if take 3 input = ''mod'' then update_line_number (com_mod line content 0 e1)
               else if take 3 input = ''del'' then update_line_number (com_ins line content 0 e1)
               else Inr e1)"

section \<open>Reading the file\<close>

text \<open>
  One round of the inner loop of \<^verbatim>\<open>main\<close> handles the bytes \<open>rest\<close> from \<^verbatim>\<open>buf+next\<close> up to
  \<^verbatim>\<open>len\<close>. The last component of the result is \<^verbatim>\<open>is_full\<close>.
\<close>

type_synonym load_state = "buffer option list \<times> int \<times> bool"

function load_rest :: "string \<Rightarrow> buffer option list \<Rightarrow> int \<Rightarrow> load_state" where
  "load_rest rest t ln =
     (let n = length (takeWhile (\<lambda>c. c \<noteq> NEWLINE) rest);
          t1 = (case t ! nat ln of
                  None \<Rightarrow> t
                | Some b \<Rightarrow> t[nat ln := Some (strcat_n b rest (int n))]);
          newline = n < length rest;
          full = newline \<and> ln \<ge> int MAX_LINE_NUMBER - 1;
          ln' = (if newline \<and> \<not> full then ln + 1 else ln);
          t2 = (if newline \<and> \<not> full
                then t1[nat ln' := Some (replicate MAX_LINE_LENGTH NUL)] else t1)
      in if full \<or> n + 1 \<ge> length rest then (t2, ln', full)
         else load_rest (drop (n + 1) rest) t2 ln')"
  by pat_completeness auto

termination
  by (relation "measure (\<lambda>(rest, t, ln). length rest)") auto

declare load_rest.simps [simp del]

text \<open>The results of the successive \<^verbatim>\<open>read\<close> calls; an empty one ends the loop.\<close>

fun load_chunks :: "string list \<Rightarrow> buffer option list \<Rightarrow> int \<Rightarrow> buffer option list \<times> int" where
  "load_chunks [] t ln = (t, ln)"
| "load_chunks (buf # bufs) t ln =
     (if buf = [] then (t, ln)
      else let (t', ln', full) = load_rest buf t ln
        in if full then (t', ln') else load_chunks bufs t' ln')"

definition empty_text :: "buffer option list" where
  "empty_text = (replicate MAX_LINE_NUMBER None)[0 := Some (replicate MAX_LINE_LENGTH NUL)]"

text \<open>
  \<^verbatim>\<open>main\<close> up to the command loop, for the command line \<open>argv\<close> and the chunks that \<^verbatim>\<open>read\<close>
  delivers.
\<close>

definition usage :: string where
  "usage = ''>>> '' @ esc ''[1;31m'' @ ''please input the command as [editor file_name]''
     @ [NEWLINE] @ reset"

definition main_start :: "string list \<Rightarrow> string list \<Rightarrow> editor \<Rightarrow> ed_result" where
  "main_start argv chunks e =
     (case argv of
        (_ # path # _) \<Rightarrow>
          (let e0 = e\<lparr>ed_text := empty_text, line_number := 0\<rparr>;
               (fd, e1) = sys_open path O_RDONLY e0
           in if fd \<noteq> - 1
              then let (t, ln) = load_chunks chunks (ed_text e1) 0;
                       e2 = sys_close fd (e1\<lparr>ed_text := t, line_number := ln\<rparr>)
                   in if auto_show e2 \<noteq> 0 then show_text_syntax_highlighting e2 else Inr e2
              else com_create_new_file path e1)
      | _ \<Rightarrow> Inl (Exited (ed_printf 1 usage [] e)))"

section \<open>The command loop\<close>

definition invalid_command :: "editor \<Rightarrow> ed_result" where
  "invalid_command e = Inr (refuse ''invalid command.'' e)"

definition note_line :: "string \<Rightarrow> string" where
  "note_line s = ''>>> '' @ esc ''[1;33m'' @ s @ [NEWLINE] @ reset"

definition main_ins :: "buffer \<Rightarrow> nat \<Rightarrow> editor \<Rightarrow> ed_result" where
  "main_ins input pos e =
     (if byte_at input 3 = CHR ''-'' \<and> stringtonumber (drop 4 input) \<ge> 0
      then update_line_number (com_ins (stringtonumber (drop 4 input)) (drop pos input) 1 e)
      else if byte_at input 3 = CHR '' '' \<or> byte_at input 3 = NUL
      then update_line_number (com_ins (line_number e + 1 + 1) (drop pos input) 1 e)
      else invalid_command e)"

definition main_mod :: "buffer \<Rightarrow> nat \<Rightarrow> editor \<Rightarrow> ed_result" where
  "main_mod input pos e =
     (if byte_at input 3 = CHR ''-'' \<and> stringtonumber (drop 4 input) \<ge> 0
      then com_mod (sint (atoi_str (cstr (drop 4 input)) 0)) (drop pos input) 1 e
      else if byte_at input 3 = CHR '' '' \<or> byte_at input 3 = NUL
      then com_mod (line_number e + 1) (drop pos input) 1 e
      else invalid_command e)"

definition main_del :: "buffer \<Rightarrow> editor \<Rightarrow> ed_result" where
  "main_del input e =
     (if byte_at input 3 = CHR ''-'' \<and> stringtonumber (drop 4 input) \<ge> 0
      then update_line_number (com_del (stringtonumber (drop 4 input)) 1 e)
      else if byte_at input 3 = NUL then update_line_number (com_del (line_number e + 1) 1 e)
      else invalid_command e)"

definition main_command :: "string \<Rightarrow> buffer \<Rightarrow> editor \<Rightarrow> ed_result" where
  "main_command path input e =
     (let pos = space_pos 8 input; s = cstr input in
      if take 3 input = ''ins'' then main_ins input pos e
      else if take 3 input = ''mod'' then main_mod input pos e
      else if take 3 input = ''del'' then main_del input e
      else if s = ''show''
      then Inr (ed_printf 1
        (note_line ''enable show current contents after text changed.'') [] (e\<lparr>auto_show := 1\<rparr>))
      else if s = ''hide''
      then Inr (ed_printf 1
        (note_line ''disable show current contents after text changed.'') [] (e\<lparr>auto_show := 0\<rparr>))
      else if s = ''rb'' then com_rollback e
      else if s = ''help'' then Inr (com_help e)
      else if s = ''save'' \<or> s = ''CTRL+S'' @ [NEWLINE] then com_save path e
      else if s = ''exit'' then com_exit path e
      else if s = ''demo'' then Inr (com_display_color_demo e)
      else if s = ''init'' then com_init_file e
      else if s = ''disp'' then show_text_syntax_highlighting e
      else if s = ''normaldisp'' then show_text e
      else invalid_command e)"

text \<open>One round of \<^verbatim>\<open>while (1)\<close>.\<close>

definition main_step :: "string \<Rightarrow> editor \<Rightarrow> ed_result" where
  "main_step path e =
     ed_bind (read_input (ed_printf 1 (''>>> '' @ esc ''[1;33m'' @ reset) [] e))
       (\<lambda>(input, e1). main_command path input e1)"

end
