(* ===== verification/Editor_Spec.thy ===== *)
theory Editor_Spec
  imports Editor_Commands
begin

text \<open>
  What the editing commands mean: a text is a list of lines, and \<^verbatim>\<open>com_ins\<close>, \<^verbatim>\<open>com_mod\<close> and
  \<^verbatim>\<open>com_del\<close> are list operations on it. The invariant of the array of line buffers and of the
  command history is kept by every round of the command loop.
\<close>

section \<open>The text as a list of lines\<close>

text \<open>The array whose first entries are the given buffers and whose other entries are null.\<close>

definition arr :: "buffer list \<Rightarrow> buffer option list" where
  "arr bs = map Some bs @ replicate (MAX_LINE_NUMBER - length bs) None"

definition text_bufs :: "buffer option list \<Rightarrow> buffer list" where
  "text_bufs t = map the (takeWhile (\<lambda>x. x \<noteq> None) t)"

definition line_ok :: "buffer \<Rightarrow> bool" where
  "line_ok b \<longleftrightarrow> length b = MAX_LINE_LENGTH \<and> terminated b"

definition text_ok :: "buffer option list \<Rightarrow> bool" where
  "text_ok t \<longleftrightarrow> t = arr (text_bufs t) \<and> text_bufs t \<noteq> []
     \<and> length (text_bufs t) \<le> MAX_LINE_NUMBER \<and> list_all line_ok (text_bufs t)"

definition lines_of :: "editor \<Rightarrow> string list" where
  "lines_of e = map cstr (text_bufs (ed_text e))"

lemma text_bufs_arr [simp]: "text_bufs (arr bs) = bs"
proof -
  have "takeWhile (\<lambda>x. x \<noteq> None) (map Some bs @ replicate k None) = map Some bs" for k
    by (induction bs) (simp_all add: takeWhile_replicate)
  then show ?thesis by (simp add: text_bufs_def arr_def)
qed

lemma text_ok_arr [simp]:
  "text_ok (arr bs) \<longleftrightarrow> bs \<noteq> [] \<and> length bs \<le> MAX_LINE_NUMBER \<and> list_all line_ok bs"
  by (simp add: text_ok_def)

lemma text_okE:
  assumes "text_ok t"
  obtains bs where "t = arr bs" "bs \<noteq> []" "length bs \<le> MAX_LINE_NUMBER" "list_all line_ok bs"
  using assms that by (auto simp: text_ok_def)

lemma length_arr [simp]: "length bs \<le> MAX_LINE_NUMBER \<Longrightarrow> length (arr bs) = MAX_LINE_NUMBER"
  by (simp add: arr_def)

lemma nth_arr:
  "i < MAX_LINE_NUMBER \<Longrightarrow> length bs \<le> MAX_LINE_NUMBER \<Longrightarrow>
     arr bs ! i = (if i < length bs then Some (bs ! i) else None)"
  by (simp add: arr_def nth_append)

lemma arr_update: "i < length bs \<Longrightarrow> (arr bs)[i := Some b] = arr (bs[i := b])"
  by (simp add: arr_def list_update_append map_update)

lemma arr_extend:
  assumes "length bs < MAX_LINE_NUMBER"
  shows "(arr bs)[length bs := Some b] = arr (bs @ [b])"
proof -
  obtain k where k: "MAX_LINE_NUMBER - length bs = Suc k" using assms by (metis Suc_diff_Suc)
  then have "MAX_LINE_NUMBER - length (bs @ [b]) = k" by simp
  with k show ?thesis by (simp add: arr_def list_update_append)
qed

lemma arr_drop_last:
  assumes "length (bs @ [b]) \<le> MAX_LINE_NUMBER"
  shows "(arr (bs @ [b]))[length bs := None] = arr bs"
proof -
  obtain k where k: "MAX_LINE_NUMBER - length bs = Suc k" using assms by (metis Suc_diff_Suc length_append_singleton Suc_le_eq)
  then have "MAX_LINE_NUMBER - length (bs @ [b]) = k" by simp
  with k show ?thesis by (simp add: arr_def list_update_append)
qed

lemma get_line_number_arr:
  assumes "length bs \<le> MAX_LINE_NUMBER"
  shows "get_line_number (arr bs) = int (length bs) - 1"
proof -
  have "get_line_number_from i (map Some bs @ replicate k None) = int i + int (length bs) - 1" for i k
    by (induction bs arbitrary: i) (cases k; simp)+
  then show ?thesis by (simp add: get_line_number_def arr_def)
qed

lemma line_ok_copy_short [simp]: "length (cstr b) < MAX_LINE_LENGTH \<Longrightarrow> line_ok (copy_line b)"
  by (simp add: line_ok_def copy_line_def)

lemma line_ok_copy [simp]: "line_ok b \<Longrightarrow> line_ok (copy_line b)"
  using length_cstr_terminated [of b] by (intro line_ok_copy_short) (simp add: line_ok_def)

lemma line_ok_zeroes [simp]: "line_ok (replicate MAX_LINE_LENGTH NUL)"
  by (simp add: line_ok_def terminated_def)

lemma line_ok_strcpy [simp]: "line_ok d \<Longrightarrow> length (cstr b) < MAX_LINE_LENGTH \<Longrightarrow> line_ok (buf_strcpy d b)"
  by (simp add: line_ok_def)

lemma cstr_copy [simp]: "cstr (copy_line b) = cstr b"
  by (simp add: copy_line_def)

lemma line_ok_length: "line_ok b \<Longrightarrow> length (cstr b) < MAX_LINE_LENGTH"
  using length_cstr_terminated [of b] by (simp add: line_ok_def)

lemma copy_line_strcpy [simp]: "buf_strcpy (replicate MAX_LINE_LENGTH NUL) b = copy_line b"
  by (simp add: copy_line_def)

subsection \<open>The shifts\<close>

lemma length_ins_shift [simp]: "length (ins_shift n i t) = length t"
  by (induction i arbitrary: t) (simp_all split: option.splits)

lemma ins_shift_nth:
  assumes "1 \<le> n" "i < length t" "k < length t"
  shows "ins_shift n i t ! k =
    (if n \<le> k \<and> k \<le> i \<and> t ! (k - 1) \<noteq> None then Some (copy_line (the (t ! (k - 1)))) else t ! k)"
  using assms
proof (induction i arbitrary: t)
  case 0
  then show ?case by auto
next
  case (Suc i)
  show ?case
  proof (cases "n \<le> Suc i")
    case False
    with Suc.prems show ?thesis by auto
  next
    case True
    let ?t = "case t ! i of None \<Rightarrow> t | Some b \<Rightarrow> t[Suc i := Some (copy_line b)]"
    have len: "length ?t = length t" by (simp split: option.splits)
    have low: "?t ! j = t ! j" if "j \<le> i" for j using that by (simp split: option.splits)
    have at: "?t ! k = (if k = Suc i \<and> t ! i \<noteq> None then Some (copy_line (the (t ! i))) else t ! k)"
      using Suc.prems by (auto split: option.splits)
    have "ins_shift n (Suc i) t ! k = ins_shift n i ?t ! k" using True Suc.prems(1) by auto
    also have "\<dots> = (if n \<le> k \<and> k \<le> i \<and> ?t ! (k - 1) \<noteq> None
        then Some (copy_line (the (?t ! (k - 1)))) else ?t ! k)"
      using Suc.prems len by (intro Suc.IH) auto
    also have "\<dots> = (if n \<le> k \<and> k \<le> Suc i \<and> t ! (k - 1) \<noteq> None
        then Some (copy_line (the (t ! (k - 1)))) else t ! k)"
    proof (cases "k \<le> i")
      case k: True
      then have "?t ! (k - 1) = t ! (k - 1)" "?t ! k = t ! k" by (intro low; simp)+
      with k show ?thesis by auto
    next
      case False
      with True show ?thesis by (auto simp: at le_Suc_eq)
    qed
    finally show ?thesis .
  qed
qed

lemma ins_shift_arr:
  assumes "1 \<le> n" "n \<le> length bs" "length bs \<le> MAX_LINE_NUMBER"
  shows "ins_shift n (MAX_LINE_NUMBER - 1) (arr bs)
    = arr (take MAX_LINE_NUMBER (take n bs @ map copy_line (drop (n - 1) bs)))" (is "?l = arr ?bs")
proof (rule nth_equalityI)
  have len: "length ?bs = min MAX_LINE_NUMBER (length bs + 1)" using assms by auto
  show "length ?l = length (arr ?bs)" using assms len by simp
  fix k
  assume "k < length ?l"
  then have k: "k < MAX_LINE_NUMBER" using assms by simp
  have l: "?l ! k = (if n \<le> k \<and> arr bs ! (k - 1) \<noteq> None then Some (copy_line (the (arr bs ! (k - 1))))
      else arr bs ! k)"
    using k assms by (subst ins_shift_nth) auto
  have bs: "?bs ! k = (if k < n then bs ! k else copy_line (bs ! (k - 1)))" if "k < length bs + 1"
    using k that assms by (auto simp: nth_append)
  show "?l ! k = arr ?bs ! k"
  proof (cases "k < length bs + 1")
    case True
    with k assms len have "arr ?bs ! k = Some (?bs ! k)" by (subst nth_arr) auto
    also have "\<dots> = ?l ! k" unfolding l bs [OF True] using k True assms by (auto simp: nth_arr)
    finally show ?thesis by simp
  next
    case False
    with k assms show ?thesis unfolding l by (auto simp: nth_arr)
  qed
qed

lemma ins_shift_arr_append:
  assumes "length bs < MAX_LINE_NUMBER"
  shows "ins_shift (Suc (length bs)) (MAX_LINE_NUMBER - 1) (arr bs) = arr bs"
proof (rule nth_equalityI)
  fix k
  assume "k < length (ins_shift (Suc (length bs)) (MAX_LINE_NUMBER - 1) (arr bs))"
  with assms have "k < MAX_LINE_NUMBER" by simp
  with assms show "ins_shift (Suc (length bs)) (MAX_LINE_NUMBER - 1) (arr bs) ! k = arr bs ! k"
    by (subst ins_shift_nth) (auto simp: nth_arr)
qed simp

lemma del_shift_arr:
  assumes "length p + length q + 1 < MAX_LINE_NUMBER"
  shows "del_shift (length p) (arr (p @ replicate MAX_LINE_LENGTH NUL # q))
    = Inr (length p + length q, arr (p @ map copy_line q @ [replicate MAX_LINE_LENGTH NUL]))"
  using assms
proof (induction q arbitrary: p)
  case Nil
  then show ?case by (subst del_shift.simps) (simp add: nth_arr nth_append)
next
  case (Cons b q)
  let ?Z = "replicate MAX_LINE_LENGTH NUL"
  have "(arr (p @ ?Z # b # q))[length p := Some (copy_line b), length p + 1 := Some ?Z]
      = arr ((p @ [copy_line b]) @ ?Z # q)"
    by (simp add: arr_update list_update_append)
  with Cons.IH [of "p @ [copy_line b]"] Cons.prems show ?case
    by (subst del_shift.simps) (simp add: nth_arr nth_append)
qed

lemma del_shift_arr_full:
  assumes "length p + length q + 1 = MAX_LINE_NUMBER"
  shows "del_shift (length p) (arr (p @ replicate MAX_LINE_LENGTH NUL # q))
    = Inl (Faulted (OutOfBounds ''text''))"
  using assms
proof (induction q arbitrary: p)
  case Nil
  then show ?case by (subst del_shift.simps) simp
next
  case (Cons b q)
  let ?Z = "replicate MAX_LINE_LENGTH NUL"
  have "(arr (p @ ?Z # b # q))[length p := Some (copy_line b), length p + 1 := Some ?Z]
      = arr ((p @ [copy_line b]) @ ?Z # q)"
    by (simp add: arr_update list_update_append)
  with Cons.IH [of "p @ [copy_line b]"] Cons.prems show ?case
    by (subst del_shift.simps) (simp add: nth_arr nth_append)
qed

section \<open>The history\<close>

definition history :: "editor \<Rightarrow> string list" where
  "history e = map the (take (nat (upper_bound e + 1)) (command_set e))"

definition command_ok :: "string option \<Rightarrow> bool" where
  "command_ok c \<longleftrightarrow> (case c of None \<Rightarrow> False | Some s \<Rightarrow> nul_free s \<and> length s < MAX_LINE_LENGTH)"

definition history_ok :: "editor \<Rightarrow> bool" where
  "history_ok e \<longleftrightarrow> length (command_set e) = MAX_ROLLBAKC_STEP
     \<and> - 1 \<le> upper_bound e \<and> upper_bound e < int MAX_ROLLBAKC_STEP
     \<and> list_all command_ok (take (nat (upper_bound e + 1)) (command_set e))"

text \<open>Adding a command keeps the last twenty.\<close>

definition push_command :: "string \<Rightarrow> string list \<Rightarrow> string list" where
  "push_command c h = (let h' = h @ [c] in drop (length h' - MAX_ROLLBAKC_STEP) h')"

lemma history_shift:
  "1 \<le> k \<Longrightarrow> k \<le> length cs \<Longrightarrow>
    foldl (\<lambda>cs i. cs[i - 1 := cs ! i]) cs [1..<k] = take (k - 1) (drop 1 cs) @ drop (k - 1) cs"
proof (induction k)
  case IH: (Suc k)
  show ?case
  proof (cases k)
    case (Suc j)
    let ?r = "take j (drop 1 cs) @ drop j cs"
    have j: "Suc j < length cs" using Suc IH.prems by simp
    have "foldl (\<lambda>cs i. cs[i - 1 := cs ! i]) cs [1..<Suc k] = ?r[j := ?r ! Suc j]"
      using IH Suc by simp
    also have "drop j cs = cs ! j # cs ! Suc j # drop (Suc (Suc j)) cs"
      using j by (simp add: Cons_nth_drop_Suc)
    also have "(take j (drop 1 cs) @ \<dots>)[j := (take j (drop 1 cs) @ \<dots>) ! Suc j]
        = take j (drop 1 cs) @ cs ! Suc j # cs ! Suc j # drop (Suc (Suc j)) cs"
      using j by (simp add: list_update_append nth_append)
    also have "\<dots> = take k (drop 1 cs) @ drop k cs"
      using j Suc by (simp add: take_Suc_conv_app_nth Cons_nth_drop_Suc)
    finally show ?thesis by simp
  qed simp
qed simp

lemma length_history: "history_ok e \<Longrightarrow> length (history e) = nat (upper_bound e + 1)"
  by (auto simp: history_def history_ok_def min_def)

lemma record_command_history:
  assumes "history_ok e" "nul_free c" "length c < MAX_LINE_LENGTH"
  shows "history_ok (record_command c e)"
    and "history (record_command c e) = push_command c (history e)"
proof -
  define k where "k = nat (upper_bound e + 1)"
  have h: "length (command_set e) = MAX_ROLLBAKC_STEP" "upper_bound e = int k - 1"
      "k \<le> MAX_ROLLBAKC_STEP" "list_all command_ok (take k (command_set e))"
    using assms(1) by (auto simp: history_ok_def k_def)
  have "history_ok (record_command c e) \<and>
    history (record_command c e) = push_command c (history e)"
  proof (cases "k < MAX_ROLLBAKC_STEP")
    case True
    then have "take (Suc k) ((command_set e)[k := Some c]) = take k (command_set e) @ [Some c]"
      using h(1) by (simp add: take_Suc_conv_app_nth)
    moreover have "record_command c e =
        e\<lparr>command_set := (command_set e)[k := Some c], upper_bound := int k\<rparr>"
      using True h(2) by (simp add: record_command_def)
    moreover have "nat (int k + 1) = Suc k" by simp
    ultimately show ?thesis using h True assms(2,3)
      by (simp add: history_ok_def history_def push_command_def command_ok_def)
  next
    case False
    with h have k: "k = MAX_ROLLBAKC_STEP" by simp
    have "drop 19 (command_set e) = [command_set e ! 19]"
      using h(1) Cons_nth_drop_Suc [of 19 "command_set e"] by simp
    then have "foldl (\<lambda>cs i. cs[i - 1 := cs ! i]) (command_set e) [1..<MAX_ROLLBAKC_STEP]
        = drop 1 (command_set e) @ [command_set e ! 19]"
      using h(1) history_shift [of MAX_ROLLBAKC_STEP "command_set e"] by simp
    then have r: "record_command c e =
        e\<lparr>command_set := drop 1 (command_set e) @ [Some c], upper_bound := 19\<rparr>"
      using h(1,2) k by (simp add: record_command_def list_update_append)
    have "list_all command_ok (drop 1 (command_set e))"
      using h k by (auto simp: list_all_iff dest: in_set_dropD)
    then show ?thesis using h k assms(2,3) r
      by (simp add: history_ok_def history_def push_command_def command_ok_def drop_map)
  qed
  then show "history_ok (record_command c e)"
    and "history (record_command c e) = push_command c (history e)" by simp_all
qed

section \<open>Command lines\<close>

lemma strcat_n_cstr:
  assumes "terminated dest" "nul_free src"
  shows "cstr (strcat_n dest src (int (length src))) =
      (if length (cstr dest) + length src < MAX_LINE_LENGTH then cstr dest @ src else cstr dest)"
    and "terminated (strcat_n dest src (int (length src)))"
proof -
  obtain s r where d: "dest = s @ NUL # r" "nul_free s" "cstr dest = s"
    using assms(1) by (rule terminatedE)
  let ?k = "length s + length src + 1"
  have "cstr (s @ src @ NUL # drop ?k dest) = s @ src"
    using cstr_append_NUL [of "s @ src"] d(2) assms(2) by simp
  then show "cstr (strcat_n dest src (int (length src))) =
      (if length (cstr dest) + length src < MAX_LINE_LENGTH then cstr dest @ src else cstr dest)"
    using d by (auto simp: strcat_n_def Let_def add.commute)
  show "terminated (strcat_n dest src (int (length src)))"
    using assms(1) by (auto simp: strcat_n_def Let_def terminated_def)
qed

lemma less_10_cases: "(d :: nat) < 10 \<Longrightarrow>
    d = 0 \<or> d = 1 \<or> d = 2 \<or> d = 3 \<or> d = 4 \<or> d = 5 \<or> d = 6 \<or> d = 7 \<or> d = 8 \<or> d = 9"
  by presburger

lemma dec_digit_char: "d < 10 \<Longrightarrow> char_of (int d + 48) = dec_digit d"
  by (drule less_10_cases) (auto simp: dec_digit_def char_of_def)

lemma dec_digit_val: "d < 10 \<Longrightarrow> schar_val (dec_digit d) = int d + 48"
  by (drule less_10_cases) (auto simp: dec_digit_def schar_val_def uchar_val_def)

lemma dec_digit_neq: "d < 10 \<Longrightarrow> dec_digit d \<noteq> NUL \<and> dec_digit d \<noteq> CHR '' ''"
  by (drule less_10_cases) (auto simp: dec_digit_def)

lemma number2string_loop_digits:
  "number2string_loop (int n) = rev (map dec_digit (nat_digits 10 n))"
proof -
  have "(2 :: nat) \<le> 10" by simp
  then show ?thesis
  proof (induction n rule: nat_digits_induct)
    case (small n)
    then show ?case
      by (subst number2string_loop.simps)
        (simp add: nat_digits_small dec_digit_char dec_digit_char [of 0, simplified]
          signed_divide_int_def signed_modulo_int_def)
  next
    case (step n)
    have "int n sdiv 10 = int (n div 10)" "int n smod 10 = int (n mod 10)"
      using step(1) by (simp_all add: signed_divide_int_def signed_modulo_int_def zdiv_int zmod_int)
    moreover have "0 < n div 10" using step(1) by (simp add: div_greater_zero_iff)
    ultimately show ?case using step
      by (subst number2string_loop.simps) (simp add: nat_digits_step [of 10 n] dec_digit_char)
  qed
qed

lemma number2string_decimal:
  assumes "0 \<le> n"
  shows "number2string n = map dec_digit (nat_digits 10 (nat n))"
proof -
  have "nul_free (rev (map dec_digit (nat_digits 10 (nat n))))"
    using nat_digits_bound [of 10 "nat n"] dec_digit_neq by (force simp: nul_free_def)
  with number2string_loop_digits [of "nat n"] assms show ?thesis
    by (simp add: number2string_def Let_def)
qed

lemma stringtonumber_loop_digits:
  assumes "\<forall>d \<in> set ds. d < 10"
  shows "stringtonumber_loop (map dec_digit ds @ CHR '' '' # r) acc
    = foldl (\<lambda>v d. v * 10 + of_nat d) acc ds"
  using assms
proof (induction ds arbitrary: acc)
  case (Cons d ds)
  then show ?case using dec_digit_neq [of d] by (simp add: dec_digit_val algebra_simps)
qed simp

lemma of_nat_digits: "foldl (\<lambda>v d. v * 10 + of_nat d) (of_nat a :: uint) ds
    = of_nat (foldl (\<lambda>v d. v * 10 + d) a ds)"
proof (induction ds arbitrary: a)
  case (Cons d ds)
  from Cons [of "a * 10 + d"] show ?case by simp
qed simp

text \<open>Reading back a number that \<^verbatim>\<open>number2string\<close> has written.\<close>

lemma stringtonumber_number2string:
  assumes "0 \<le> n" "n < 2 ^ 31"
  shows "sint (stringtonumber_loop (number2string n @ CHR '' '' # r) 0) = n"
proof -
  have "stringtonumber_loop (number2string n @ CHR '' '' # r) 0 = of_nat (nat n)"
    using stringtonumber_loop_digits [OF nat_digits_bound [of 10 "nat n"], of r 0]
      of_nat_digits [of 0] digits_value_nat_digits [of 10 "nat n"] assms(1)
    by (simp add: number2string_decimal digits_value_def)
  also have "\<dots> = (word_of_int n :: uint)" using assms(1) by simp
  finally show ?thesis using assms by (simp add: sint_uint32 uint_word_of_int)
qed

lemma length_number2string:
  assumes "0 \<le> n" "n < 1000"
  shows "length (number2string n) \<le> 3"
  using assms length_nat_digits [of 10 "nat n" 2] by (simp add: number2string_decimal)

lemma number2string_chars:
  assumes "0 \<le> n"
  shows "nul_free (number2string n)" "CHR '' '' \<notin> set (number2string n)"
  using nat_digits_bound [of 10 "nat n"] dec_digit_neq
  by (fastforce simp: number2string_decimal [OF assms] nul_free_def)+

lemma command_line_cstr:
  assumes "length name = 4" "nul_free name" "0 \<le> n" "n < 1000" "nul_free part4"
  defines "p \<equiv> name @ number2string n @ '' ''"
  shows "cstr (command_line name n part4)
    = (if length p + length part4 < MAX_LINE_LENGTH then p @ part4 else p)"
proof -
  let ?a = "strcat_n (name @ [NUL]) (number2string n) (int (length (number2string n)))"
  have t: "terminated (name @ [NUL])" by (simp add: terminated_def)
  have len: "length (number2string n) \<le> 3" using assms(3,4) by (rule length_number2string)
  have nf: "nul_free (number2string n)" using assms(3) by (rule number2string_chars)
  have a: "cstr ?a = name @ number2string n" "terminated ?a"
    using strcat_n_cstr [OF t nf] len assms(1,2) by simp_all
  then have b: "cstr (strcat_n ?a '' '' 1) = p" "terminated (strcat_n ?a '' '' 1)"
    using strcat_n_cstr [of ?a "'' ''"] len assms(1) by (simp_all add: p_def)
  from strcat_n_cstr(1) [OF b(2) assms(5)] show ?thesis
    by (simp add: command_line_def Let_def b(1))
qed

section \<open>The commands as list operations\<close>

text \<open>
  \<^verbatim>\<open>ins-n\<close> puts the new line before line \<open>n\<close>; a 257th line is lost. After the last line it appends,
  but an empty last line is overwritten and a new empty line follows.
\<close>

definition spec_ins :: "nat \<Rightarrow> string \<Rightarrow> string list \<Rightarrow> string list" where
  "spec_ins n x ls =
     (if n \<le> length ls then take MAX_LINE_NUMBER (take (n - 1) ls @ x # drop (n - 1) ls)
      else if last ls = [] then butlast ls @ [x, []]
      else ls @ [x])"

definition spec_mod :: "nat \<Rightarrow> string \<Rightarrow> string list \<Rightarrow> string list" where
  "spec_mod n x ls = ls[n - 1 := x]"

definition spec_del :: "nat \<Rightarrow> string list \<Rightarrow> string list" where
  "spec_del n ls = (if length ls = 1 then [[]] else take (n - 1) ls @ drop n ls)"

definition doc_ok :: "editor \<Rightarrow> bool" where
  "doc_ok e \<longleftrightarrow> text_ok (ed_text e) \<and> history_ok e
     \<and> list_all (\<lambda>i. length (junk e i) = MAX_LINE_LENGTH) [0..<27]"

definition ed_inv :: "editor \<Rightarrow> bool" where
  "ed_inv e \<longleftrightarrow> doc_ok e \<and> line_number e = int (length (lines_of e)) - 1"

text \<open>The two states differ only in the input that is left and the output made.\<close>

definition same_doc :: "editor \<Rightarrow> editor \<Rightarrow> bool" where
  "same_doc e e' \<longleftrightarrow> e' = e\<lparr>stdin := stdin e', events := events e'\<rparr>"

lemma history_ok_update [simp]:
  "history_ok (e\<lparr>ed_text := t\<rparr>) = history_ok e" "history_ok (e\<lparr>changed := c\<rparr>) = history_ok e"
  "history_ok (e\<lparr>line_number := l\<rparr>) = history_ok e" "history_ok (e\<lparr>overrun := v\<rparr>) = history_ok e"
  "history_ok (e\<lparr>stdin := i\<rparr>) = history_ok e" "history_ok (e\<lparr>events := v'\<rparr>) = history_ok e"
  "history_ok (e\<lparr>auto_show := c\<rparr>) = history_ok e" "history_ok (e\<lparr>opens := p\<rparr>) = history_ok e"
  by (simp_all add: history_ok_def)

lemma history_update [simp]:
  "history (e\<lparr>ed_text := t\<rparr>) = history e" "history (e\<lparr>changed := c\<rparr>) = history e"
  "history (e\<lparr>line_number := l\<rparr>) = history e" "history (e\<lparr>overrun := v\<rparr>) = history e"
  "history (e\<lparr>stdin := i\<rparr>) = history e" "history (e\<lparr>events := v'\<rparr>) = history e"
  by (simp_all add: history_def)

lemma record_command_frame [simp]:
  "ed_text (record_command c e) = ed_text e" "changed (record_command c e) = changed e"
  "junk (record_command c e) = junk e" "auto_show (record_command c e) = auto_show e"
  "line_number (record_command c e) = line_number e" "stdin (record_command c e) = stdin e"
  "null_str (record_command c e) = null_str e" "overrun (record_command c e) = overrun e"
  by (simp_all add: record_command_def)

lemma same_doc_refl [simp]: "same_doc e e"
  by (simp add: same_doc_def)

lemma same_doc_trans: "same_doc e e' \<Longrightarrow> same_doc e' e'' \<Longrightarrow> same_doc e e''"
  by (cases e; cases e'; cases e'') (simp add: same_doc_def)

lemma same_docD:
  assumes "same_doc e e'"
  shows "ed_text e' = ed_text e" "changed e' = changed e" "auto_show e' = auto_show e"
    "line_number e' = line_number e" "command_set e' = command_set e"
    "upper_bound e' = upper_bound e" "null_str e' = null_str e" "junk e' = junk e"
    "overrun e' = overrun e" "opens e' = opens e"
  using assms by (cases e; cases e'; simp add: same_doc_def)+

lemma same_doc_write [simp]: "same_doc e (ed_write fd s e)"
  by (simp add: same_doc_def ed_write_def)

lemma same_doc_printf [simp]: "same_doc e (ed_printf fd s as e)"
  by (simp add: ed_printf_def)

lemma same_doc_ok:
  assumes "same_doc e e'"
  shows "doc_ok e' = doc_ok e" "lines_of e' = lines_of e" "history e' = history e"
    "history_ok e' = history_ok e" "ed_inv e' = ed_inv e"
  using same_docD [OF assms]
  by (simp_all add: doc_ok_def ed_inv_def lines_of_def history_def history_ok_def)

lemma same_doc_show:
  "show_text_syntax_highlighting e = Inr e' \<Longrightarrow> same_doc e e'"
  "show_text e = Inr e' \<Longrightarrow> same_doc e e'"
  by (auto simp: show_text_syntax_highlighting_def show_text_def ed_bind_Inr_iff)

lemma same_doc_refresh: "refresh e = Inr e' \<Longrightarrow> same_doc e e'"
  by (auto simp: refresh_def split: if_splits dest: same_doc_show)

lemma read_input_ok:
  assumes "read_input e = Inr (input, e1)"
  shows "line_ok input \<and> same_doc e e1"
proof -
  obtain s rest where g: "gets MAX_LINE_LENGTH (stdin e) = (s, rest)" by fastforce
  let ?b = "zbuf MAX_LINE_LENGTH s"
  from g assms have i: "cstr ?b \<noteq> []" "input = ?b[length (cstr ?b) - 1 := NUL]"
      "e1 = e\<lparr>stdin := rest\<rparr>"
    by (auto simp: read_input_def Let_def split: if_splits)
  have len: "length ?b = MAX_LINE_LENGTH" using gets_length [OF g] by simp
  then have "length (cstr ?b) - 1 < length ?b"
    using i(1) length_cstr_le [of ?b] by (cases "cstr ?b") auto
  then have "line_ok input" using i(2) len by (simp add: line_ok_def terminated_def set_update_memI)
  with i(3) show ?thesis by (simp add: same_doc_def)
qed

lemma content_input_ok:
  assumes "content_input extra e = Inr (input, e1)"
  shows "line_ok input \<and> same_doc e e1"
proof (cases "byte_at extra 0 = NUL")
  case True
  with assms have "line_ok input \<and> same_doc (ed_printf 1
      (''... '' @ esc ''[1;35m'' @ ''input content:'' @ reset) [] e) e1"
    by (intro read_input_ok) (simp add: content_input_def)
  then show ?thesis using same_doc_printf same_doc_trans by blast
next
  case False
  with assms show ?thesis
    by (auto simp: content_input_def split: if_splits)
qed

lemma content_input_extra:
  "byte_at extra 0 \<noteq> NUL \<Longrightarrow> length (cstr extra) < MAX_LINE_LENGTH \<Longrightarrow>
     content_input extra e = Inr (copy_line extra, e)"
  by (simp add: content_input_def)

subsection \<open>Storing a line\<close>

text \<open>\<open>e'\<close> is \<open>e\<close> with the lines \<open>ls\<close> and the history \<open>h\<close>.\<close>

definition edited :: "editor \<Rightarrow> editor \<Rightarrow> string list \<Rightarrow> string list \<Rightarrow> bool" where
  "edited e e' ls h \<longleftrightarrow> doc_ok e' \<and> lines_of e' = ls \<and> history e' = h \<and> changed e' = 1
     \<and> null_str e' = null_str e \<and> auto_show e' = auto_show e \<and> stdin e' = stdin e"

lemma record_edit_frame [simp]:
  "ed_text (record_edit name n p e) = ed_text e" "changed (record_edit name n p e) = changed e"
  "junk (record_edit name n p e) = junk e" "auto_show (record_edit name n p e) = auto_show e"
  "line_number (record_edit name n p e) = line_number e"
  "stdin (record_edit name n p e) = stdin e" "null_str (record_edit name n p e) = null_str e"
  by (simp_all add: record_edit_def Let_def)

lemma record_edit_history:
  assumes "history_ok e" "length name = 4" "nul_free name" "0 \<le> n" "n < 1000" "nul_free p"
  shows "history_ok (record_edit name n p e)"
    and "history (record_edit name n p e) = push_command (cstr (command_line name n p)) (history e)"
proof -
  have "length (cstr (command_line name n p)) < MAX_LINE_LENGTH"
    using command_line_cstr [of name n p] assms length_number2string [of n] by simp
  then show "history_ok (record_edit name n p e)"
    and "history (record_edit name n p e) = push_command (cstr (command_line name n p)) (history e)"
    using assms(1) by (simp_all add: record_edit_def Let_def record_command_history)
qed

lemma edited_set_line:
  assumes "doc_ok e" "text_ok t"
  shows "edited e (e\<lparr>ed_text := t, changed := 1\<rparr>) (map cstr (text_bufs t)) (history e)"
  using assms by (simp add: edited_def doc_ok_def lines_of_def)

lemma edited_record:
  assumes "edited e e' ls h" "length name = 4" "nul_free name" "0 \<le> n" "n < 1000" "nul_free p"
  shows "edited e (record_edit name n p e') ls (push_command (cstr (command_line name n p)) h)"
  using assms record_edit_history [of e' name n p]
  by (simp add: edited_def doc_ok_def lines_of_def)

lemma old_content_ok:
  assumes "old_content n e = Inr p" shows "nul_free p"
  using assms by (auto simp: old_content_def Let_def split: if_splits option.splits)

lemma old_content_line:
  assumes "ed_text e = arr bs" "1 \<le> n" "n \<le> length bs" "length bs \<le> MAX_LINE_NUMBER"
    "list_all line_ok bs"
  shows "old_content (int n) e = Inr (cstr (bs ! (n - 1)))"
proof -
  have n: "n - 1 < length bs" "nat (int n - 1) = n - 1" "\<not> int n - 1 \<ge> int MAX_LINE_NUMBER"
    using assms(2-4) by auto
  then have "line_ok (bs ! (n - 1))" using assms(5) by (simp add: list_all_length)
  moreover have "ed_text e ! (n - 1) = Some (bs ! (n - 1))" using n(1) assms(1,4) by (simp add: nth_arr)
  ultimately show ?thesis
    using n assms(1,4) by (simp add: old_content_def Let_def line_ok_length)
qed

lemma old_content_append:
  assumes "ed_text e = arr bs" "length bs < MAX_LINE_NUMBER"
    "length (cstr (null_str e)) < MAX_LINE_LENGTH"
  shows "old_content (int (Suc (length bs))) e = Inr (cstr (null_str e))"
  using assms by (simp add: old_content_def Let_def nth_arr)

text \<open>The buffers after \<^verbatim>\<open>ins-n\<close> inside the text.\<close>

lemma ins_bufs_lines:
  assumes "1 \<le> n" "n \<le> length bs" "length bs \<le> MAX_LINE_NUMBER"
  shows "map cstr ((take MAX_LINE_NUMBER (take n bs @ map copy_line (drop (n - 1) bs)))[n - 1 := b])
    = take MAX_LINE_NUMBER (take (n - 1) (map cstr bs) @ cstr b # drop (n - 1) (map cstr bs))"
proof -
  obtain k where k: "n = Suc k" using assms(1) by (cases n) auto
  have "take n bs = take k bs @ [bs ! k]" using k assms(2) by (simp add: take_Suc_conv_app_nth)
  then have eq: "(take n bs @ map copy_line (drop k bs))[k := b]
      = take k bs @ b # map copy_line (drop k bs)"
    using k assms(2) by (simp add: list_update_append)
  have "map cstr ((take MAX_LINE_NUMBER (take n bs @ map copy_line (drop k bs)))[k := b])
      = take MAX_LINE_NUMBER (map cstr (take k bs @ b # map copy_line (drop k bs)))"
    unfolding take_update_swap [symmetric] eq by (rule take_map [symmetric])
  also have "map cstr (take k bs @ b # map copy_line (drop k bs))
      = take k (map cstr bs) @ cstr b # drop k (map cstr bs)"
    by (simp add: take_map drop_map)
  finally show ?thesis by (simp add: k)
qed

lemma ins_store_inside:
  assumes "doc_ok e" "ed_text e = arr bs" "1 \<le> n" "n \<le> length bs" "line_ok input" "nul_free p"
  shows "\<exists>e'. ins_store (int n) input flag p
        (e\<lparr>ed_text := ins_shift n (MAX_LINE_NUMBER - 1) (arr bs)\<rparr>) = refresh e'
    \<and> edited e e' (spec_ins n (cstr input) (map cstr bs))
        (if flag \<noteq> 0 then push_command (cstr (command_line ''ins-'' (int n) p)) (history e)
         else history e)"
proof -
  define B where "B = take MAX_LINE_NUMBER (take n bs @ map copy_line (drop (n - 1) bs))"
  have bs: "length bs \<le> MAX_LINE_NUMBER" "list_all line_ok bs"
    using assms(1,2) by (simp_all add: doc_ok_def)
  then have t: "ins_shift n (MAX_LINE_NUMBER - 1) (arr bs) = arr B"
    using assms(3,4) unfolding B_def by (intro ins_shift_arr) auto
  have n: "n - 1 < length B" "length B \<le> MAX_LINE_NUMBER" "n - 1 < MAX_LINE_NUMBER"
      "nat (int n - 1) = n - 1" "\<not> int n - 1 \<ge> int MAX_LINE_NUMBER"
    using assms(3,4) bs(1) by (auto simp: B_def)
  then have s: "arr B ! (n - 1) = Some (B ! (n - 1))" "length (arr B) = MAX_LINE_NUMBER"
      "(arr B)[n - 1 := Some (copy_line input)] = arr (B[n - 1 := copy_line input])"
    by (simp_all add: nth_arr arr_update)
  let ?e = "e\<lparr>ed_text := arr (B[n - 1 := copy_line input]), changed := 1\<rparr>"
  have "list_all line_ok B"
    using bs(2) by (auto simp: B_def list_all_iff dest!: in_set_takeD in_set_dropD)
  then have "list_all line_ok (B[n - 1 := copy_line input])"
    using assms(5) set_update_subset_insert [of B "n - 1" "copy_line input"]
    by (auto simp: list_all_iff)
  then have "text_ok (arr (B[n - 1 := copy_line input]))" using n by auto
  then have "edited e ?e (map cstr (B[n - 1 := copy_line input])) (history e)"
    using edited_set_line [OF assms(1)] by fastforce
  then have ed: "edited e ?e (spec_ins n (cstr input) (map cstr bs)) (history e)"
    using ins_bufs_lines [OF assms(3,4) bs(1), of "copy_line input"] assms(4)
    by (simp add: spec_ins_def B_def)
  let ?r = "if flag \<noteq> 0 then record_edit ''ins-'' (int n) p ?e else ?e"
  have "ins_store (int n) input flag p (e\<lparr>ed_text := arr B\<rparr>) = refresh ?r"
    unfolding ins_store_def Let_def set_line_def using n s by simp
  moreover have "edited e ?r (spec_ins n (cstr input) (map cstr bs))
      (if flag \<noteq> 0 then push_command (cstr (command_line ''ins-'' (int n) p)) (history e)
       else history e)"
    using ed edited_record [OF ed, of "''ins-''" "int n" p] n(3) assms(6) by simp
  ultimately show ?thesis unfolding t by blast
qed

lemma cstr_empty_iff: "line_ok b \<Longrightarrow> byte_at b 0 = NUL \<longleftrightarrow> cstr b = []"
  by (cases b) (auto simp: line_ok_def byte_at_def cstr_def)

lemma ins_store_append:
  assumes "doc_ok e" "ed_text e = arr bs" "length bs < MAX_LINE_NUMBER" "line_ok input" "nul_free p"
  defines "n \<equiv> Suc (length bs)"
  shows "\<exists>e'. ins_store (int n) input flag p
        (e\<lparr>ed_text := ins_shift n (MAX_LINE_NUMBER - 1) (arr bs)\<rparr>) = refresh e'
    \<and> edited e e' (spec_ins n (cstr input) (map cstr bs))
        (if flag \<noteq> 0 \<and> cstr (last bs) \<noteq> []
         then push_command (cstr (command_line ''ins-'' (int n) p)) (history e) else history e)"
proof -
  let ?Z = "replicate MAX_LINE_LENGTH NUL"
  have bs: "bs \<noteq> []" "list_all line_ok bs" using assms(1,2) by (simp_all add: doc_ok_def)
  then obtain cs b where cs: "bs = cs @ [b]" by (metis append_butlast_last_id)
  have t: "ins_shift n (MAX_LINE_NUMBER - 1) (arr bs) = arr bs"
    unfolding n_def using assms(3) by (rule ins_shift_arr_append)
  have at: "arr bs ! length bs = None" "arr bs ! length cs = Some b" "length (arr bs) = MAX_LINE_NUMBER"
    using assms(3) cs by (simp_all add: nth_arr)
  have n: "nat (int n - 1) = length bs" "nat (int n - 2) = length cs" "\<not> int n < 2"
      "\<not> int n - 1 \<ge> int MAX_LINE_NUMBER" "int n < 1000"
    using cs assms(3) by (auto simp: n_def)
  have b: "byte_at b 0 = NUL \<longleftrightarrow> cstr b = []" using bs(2) cs by (simp add: cstr_empty_iff)
  show ?thesis
  proof (cases "cstr b = []")
    case True
    let ?t = "arr (cs @ [buf_strcpy b input, ?Z])"
    have "(arr bs)[length bs := Some ?Z, length cs := Some (buf_strcpy b input)] = ?t"
      using arr_extend [OF assms(3), of ?Z] cs by (simp add: arr_update)
    then have "ins_store (int n) input flag p (e\<lparr>ed_text := arr bs\<rparr>)
        = refresh (e\<lparr>ed_text := ?t, changed := 1\<rparr>)"
      using n at b True by (simp add: ins_store_def set_line_def)
    moreover have "text_ok ?t"
      using bs(2) cs assms(3,4) by (simp add: line_ok_length)
    from edited_set_line [OF assms(1) this]
    have "edited e (e\<lparr>ed_text := ?t, changed := 1\<rparr>) (spec_ins n (cstr input) (map cstr bs)) (history e)"
      using True by (simp add: spec_ins_def n_def cs)
    ultimately show ?thesis unfolding t using True cs by auto
  next
    case False
    let ?t = "arr (bs @ [copy_line input])"
    let ?e = "e\<lparr>ed_text := ?t, changed := 1\<rparr>"
    let ?r = "if flag \<noteq> 0 then record_edit ''ins-'' (int n) p ?e else ?e"
    have "(arr bs)[length bs := Some (copy_line input)] = ?t" using assms(3) by (rule arr_extend)
    then have "ins_store (int n) input flag p (e\<lparr>ed_text := arr bs\<rparr>) = refresh ?r"
      using n at b False by (simp add: ins_store_def set_line_def Let_def)
    moreover have "text_ok ?t" using bs(2) assms(3,4) by simp
    from edited_set_line [OF assms(1) this]
    have ed: "edited e ?e (spec_ins n (cstr input) (map cstr bs)) (history e)"
      using False by (simp add: spec_ins_def n_def cs)
    then have "edited e ?r (spec_ins n (cstr input) (map cstr bs))
        (if flag \<noteq> 0 then push_command (cstr (command_line ''ins-'' (int n) p)) (history e)
         else history e)"
      using edited_record [OF ed, of "''ins-''" "int n" p] n assms(5) by simp
    ultimately show ?thesis unfolding t using False cs by auto
  qed
qed

text \<open>
  \<^verbatim>\<open>com_ins\<close> on a valid line number, whatever its source of input: the invariant is kept and the
  lines are those of \<^const>\<open>spec_ins\<close>.
\<close>

lemma com_ins_effect:
  assumes "doc_ok e" "1 \<le> n" "n \<le> length (lines_of e) + 1" "n \<le> MAX_LINE_NUMBER"
    and "content_input extra e = Inr (input, e1)"
    and "(if flag \<noteq> 0 then old_content (int n) e1 else Inr []) = Inr p"
  shows "\<exists>e'. com_ins (int n) extra flag e = refresh e'
    \<and> edited e1 e' (spec_ins n (cstr input) (lines_of e))
        (if flag \<noteq> 0 \<and> \<not> (n = length (lines_of e) + 1 \<and> last (lines_of e) = [])
         then push_command (cstr (command_line ''ins-'' (int n) p)) (history e) else history e)"
proof -
  obtain bs where t: "ed_text e = arr bs" "bs \<noteq> []" "length bs \<le> MAX_LINE_NUMBER"
    using assms(1) by (auto simp: doc_ok_def elim: text_okE)
  have ls: "lines_of e = map cstr bs" using t by (simp add: lines_of_def)
  have i: "line_ok input" "same_doc e e1" using content_input_ok [OF assms(5)] by simp_all
  have e1: "doc_ok e1" "ed_text e1 = arr bs" "history e1 = history e"
    using same_doc_ok [OF i(2)] same_docD [OF i(2)] assms(1) t by simp_all
  have p: "nul_free p" using assms(6) by (auto split: if_splits dest: old_content_ok)
  have eq: "com_ins (int n) extra flag e
      = ins_store (int n) input flag p (e1\<lparr>ed_text := ins_shift n (MAX_LINE_NUMBER - 1) (arr bs)\<rparr>)"
    using assms(2,3,5,6) t e1(2) by (simp add: com_ins_def get_line_number_arr ls)
  consider "n \<le> length bs" | "n = Suc (length bs)" "length bs < MAX_LINE_NUMBER"
    using assms(3,4) ls by fastforce
  then show ?thesis
  proof cases
    case 1
    with ins_store_inside [OF e1(1,2) assms(2) 1 i(1) p, of flag] show ?thesis
      using eq e1(3) ls by auto
  next
    case 2
    with ins_store_append [OF e1(1,2) 2(2) i(1) p, of flag] show ?thesis
      using eq e1(3) ls t(2) by (auto simp: last_map)
  qed
qed

lemma com_mod_effect:
  assumes "doc_ok e" "1 \<le> n" "n \<le> length (lines_of e)"
    and "content_input extra e = Inr (input, e1)"
  shows "\<exists>e'. com_mod (int n) extra flag e = refresh e'
    \<and> edited e1 e' (spec_mod n (cstr input) (lines_of e))
        (if flag \<noteq> 0
         then push_command (cstr (command_line ''mod-'' (int n) (lines_of e ! (n - 1)))) (history e)
         else history e)"
proof -
  obtain bs where t: "ed_text e = arr bs" "bs \<noteq> []" "length bs \<le> MAX_LINE_NUMBER" "list_all line_ok bs"
    using assms(1) by (auto simp: doc_ok_def elim: text_okE)
  have ls: "lines_of e = map cstr bs" using t by (simp add: lines_of_def)
  have i: "line_ok input" "same_doc e e1" using content_input_ok [OF assms(4)] by simp_all
  have e1: "doc_ok e1" "ed_text e1 = arr bs" "history e1 = history e"
    using same_doc_ok [OF i(2)] same_docD [OF i(2)] assms(1) t by simp_all
  have n: "n - 1 < length bs" "nat (int n - 1) = n - 1" "int n < 1000" using assms(2,3) t(3) ls by auto
  let ?bs = "bs[n - 1 := copy_line input]"
  let ?e = "e1\<lparr>ed_text := arr ?bs, changed := 1\<rparr>"
  let ?p = "cstr (bs ! (n - 1))"
  let ?r = "if flag \<noteq> 0 then record_edit ''mod-'' (int n) ?p ?e else ?e"
  have "list_all line_ok ?bs"
    using t(4) i(1) set_update_subset_insert [of bs "n - 1" "copy_line input"]
    by (auto simp: list_all_iff)
  then have "text_ok (arr ?bs)" using t(2,3) by simp
  from edited_set_line [OF e1(1) this]
  have ed: "edited e1 ?e (spec_mod n (cstr input) (lines_of e)) (history e)"
    by (simp add: spec_mod_def ls map_update e1(3))
  moreover have "com_mod (int n) extra flag e = refresh ?r"
  proof -
    have "old_content (int n) e1 = Inr ?p"
      using e1(2) assms(2,3) t(3,4) ls by (intro old_content_line) auto
    then show ?thesis using assms(2-4) t n e1(2) ls
      by (simp add: com_mod_def get_line_number_arr set_line_def arr_update Let_def)
  qed
  ultimately show ?thesis using edited_record [OF ed, of "''mod-''" "int n" ?p] n ls
    by (intro exI [of _ ?r]) simp
qed

lemma com_del_effect:
  assumes "doc_ok e" "1 \<le> n" "n \<le> length (lines_of e)" "length (lines_of e) < MAX_LINE_NUMBER"
  shows "\<exists>e'. com_del (int n) flag e = refresh e' \<and> edited e e' (spec_del n (lines_of e)) (history e)"
proof -
  let ?Z = "replicate MAX_LINE_LENGTH NUL"
  obtain bs where t: "ed_text e = arr bs" "bs \<noteq> []" "length bs \<le> MAX_LINE_NUMBER" "list_all line_ok bs"
    using assms(1) by (auto simp: doc_ok_def elim: text_okE)
  have ls: "lines_of e = map cstr bs" using t by (simp add: lines_of_def)
  define p q where "p = take (n - 1) bs" and "q = drop n bs"
  have n: "n - 1 < length bs" "nat (int n - 1) = n - 1" "length p = n - 1"
      "length p + length q + 1 = length bs" using assms(2,3) ls by (auto simp: p_def q_def)
  have "(arr bs)[n - 1 := Some ?Z] = arr (p @ ?Z # q)"
    using n(1) assms(2) by (simp add: arr_update upd_conv_take_nth_drop p_def q_def)
  then have shift: "del_shift (n - 1) ((arr bs)[n - 1 := Some ?Z])
      = Inr (length p + length q, arr (p @ map copy_line q @ [?Z]))"
    using del_shift_arr [of p q] n(3,4) assms(4) ls by simp
  define t' where "t' = (if length p + length q = 0 then arr [?Z] else arr (p @ map copy_line q))"
  have "(if length p + length q \<noteq> 0
      then (arr (p @ map copy_line q @ [?Z]))[length p + length q := None]
      else arr (p @ map copy_line q @ [?Z])) = t'"
    using arr_drop_last [of "p @ map copy_line q" ?Z] n(4) t(3) by (auto simp: t'_def)
  moreover have "old_content (int n) e = Inr (cstr (bs ! (n - 1)))"
    using assms(2,3) t ls by (intro old_content_line) auto
  ultimately have "com_del (int n) flag e = refresh (e\<lparr>ed_text := t', changed := 1\<rparr>)"
    using assms(2,3) t ls n(2) shift by (simp add: com_del_def get_line_number_arr)
  moreover have "text_ok t' \<and> map cstr (text_bufs t') = spec_del n (lines_of e)"
  proof (cases "length p + length q = 0")
    case True
    with n(4) show ?thesis by (simp add: t'_def spec_del_def ls)
  next
    case False
    have "list_all line_ok p" "list_all line_ok q"
      using t(4) by (auto simp: p_def q_def list_all_iff dest: in_set_takeD in_set_dropD)
    moreover have "cstr \<circ> copy_line = cstr" by auto
    ultimately show ?thesis using False n(4) t(3)
      by (auto simp: t'_def spec_del_def ls p_def q_def take_map drop_map list_all_iff)
  qed
  ultimately show ?thesis using edited_set_line [OF assms(1), of t'] by auto
qed

lemma com_del_full:
  assumes "doc_ok e" "1 \<le> n" "n \<le> length (lines_of e)" "length (lines_of e) = MAX_LINE_NUMBER"
  shows "com_del (int n) flag e = Inl (Faulted (OutOfBounds ''text''))"
proof -
  let ?Z = "replicate MAX_LINE_LENGTH NUL"
  obtain bs where t: "ed_text e = arr bs" "length bs \<le> MAX_LINE_NUMBER" "list_all line_ok bs"
    using assms(1) by (auto simp: doc_ok_def elim: text_okE)
  have ls: "lines_of e = map cstr bs" using t by (simp add: lines_of_def)
  define p q where "p = take (n - 1) bs" and "q = drop n bs"
  have n: "n - 1 < length bs" "nat (int n - 1) = n - 1" "length p = n - 1"
      "length p + length q + 1 = length bs" using assms(2,3) ls by (auto simp: p_def q_def)
  have "(arr bs)[n - 1 := Some ?Z] = arr (p @ ?Z # q)"
    using n(1) assms(2) by (simp add: arr_update upd_conv_take_nth_drop p_def q_def)
  then have "del_shift (n - 1) ((arr bs)[n - 1 := Some ?Z]) = Inl (Faulted (OutOfBounds ''text''))"
    using del_shift_arr_full [of p q] n(3,4) assms(4) ls by simp
  moreover have "old_content (int n) e = Inr (cstr (bs ! (n - 1)))"
    using assms(2,3) t ls by (intro old_content_line) auto
  ultimately show ?thesis using assms(2,3) t ls n(2) by (simp add: com_del_def get_line_number_arr)
qed

end
