(* ===== verification/Editor_Session.thy ===== *)
theory Editor_Session
  imports Editor_Spec
begin

text \<open>
  Whole sessions with the editor: the invariant of the command loop, undoing by \<^verbatim>\<open>rb\<close>, and
  saving a text and reading it back.
\<close>

section \<open>The invariant of the command loop\<close>

lemma doc_ok_update [simp]:
  "doc_ok (e\<lparr>line_number := l\<rparr>) = doc_ok e" "doc_ok (e\<lparr>changed := c\<rparr>) = doc_ok e"
  "doc_ok (e\<lparr>stdin := i\<rparr>) = doc_ok e" "doc_ok (e\<lparr>events := v\<rparr>) = doc_ok e"
  "doc_ok (e\<lparr>auto_show := c\<rparr>) = doc_ok e" "doc_ok (e\<lparr>opens := p\<rparr>) = doc_ok e"
  by (simp_all add: doc_ok_def)

lemma lines_of_update [simp]:
  "lines_of (e\<lparr>line_number := l\<rparr>) = lines_of e" "lines_of (e\<lparr>changed := c\<rparr>) = lines_of e"
  "lines_of (e\<lparr>stdin := i\<rparr>) = lines_of e" "lines_of (e\<lparr>events := v\<rparr>) = lines_of e"
  "lines_of (e\<lparr>auto_show := c\<rparr>) = lines_of e" "lines_of (e\<lparr>upper_bound := u\<rparr>) = lines_of e"
  "lines_of (e\<lparr>opens := p\<rparr>) = lines_of e"
  by (simp_all add: lines_of_def)

lemma doc_ok_line_number:
  "doc_ok e \<Longrightarrow> get_line_number (ed_text e) = int (length (lines_of e)) - 1"
  by (auto simp: doc_ok_def lines_of_def get_line_number_arr elim!: text_okE)

lemma doc_ok_lines: "doc_ok e \<Longrightarrow> lines_of e \<noteq> [] \<and> length (lines_of e) \<le> MAX_LINE_NUMBER"
  by (auto simp: doc_ok_def lines_of_def elim!: text_okE)

lemma edited_refresh:
  "edited e0 e1 ls h \<Longrightarrow> refresh e1 = Inr e' \<Longrightarrow> doc_ok e' \<and> lines_of e' = ls \<and> history e' = h"
  using same_doc_ok [of e1 e'] same_doc_refresh [of e1 e'] by (simp add: edited_def)

lemma com_ins_doc_ok:
  assumes "doc_ok e" "com_ins n extra flag e = Inr e'"
  shows "doc_ok e'"
proof (cases "n \<le> 0 \<or> n > get_line_number (ed_text e) + 1 + 1")
  case True
  with assms show ?thesis by (auto simp: com_ins_def refuse_def same_doc_ok [OF same_doc_printf])
next
  case False
  let ?store = "\<lambda>input e1 p. ins_store n input flag p
      (e1\<lparr>ed_text := ins_shift (nat n) (MAX_LINE_NUMBER - 1) (ed_text e1)\<rparr>)"
  have "com_ins n extra flag e = ed_bind (content_input extra e) (\<lambda>(input, e1).
      ed_bind (if flag \<noteq> 0 then old_content n e1 else Inr []) (?store input e1))"
    using False by (simp only: com_ins_def if_False)
  with assms(2) obtain z where z: "content_input extra e = Inr z"
      "ed_bind (if flag \<noteq> 0 then old_content n (snd z) else Inr []) (?store (fst z) (snd z)) = Inr e'"
    by (auto simp only: ed_bind_Inr_iff case_prod_beta)
  obtain input e1 where zeq: "z = (input, e1)" by (cases z)
  obtain p where r: "content_input extra e = Inr (input, e1)"
      "(if flag \<noteq> 0 then old_content n e1 else Inr []) = Inr p" "?store input e1 p = Inr e'"
    using z [unfolded zeq ed_bind_Inr_iff fst_conv snd_conv] by blast
  have len: "length (ed_text e1) = MAX_LINE_NUMBER"
    using same_docD(1) content_input_ok [OF r(1)] assms(1)
    by (auto simp: doc_ok_def elim!: text_okE)
  have "n \<le> int MAX_LINE_NUMBER"
  proof (rule ccontr)
    assume "\<not> n \<le> int MAX_LINE_NUMBER"
    with len have "?store input e1 p = Inl (Faulted (OutOfBounds ''text''))"
      by (simp add: ins_store_def Let_def)
    with r(3) show False by simp
  qed
  with False doc_ok_line_number [OF assms(1)] have n: "1 \<le> nat n" "nat n \<le> length (lines_of e) + 1"
      "nat n \<le> MAX_LINE_NUMBER" "int (nat n) = n" by auto
  from com_ins_effect [OF assms(1) n(1-3) r(1)] r(2) assms(2) show ?thesis
    unfolding n(4) using edited_refresh by metis
qed

lemma com_mod_doc_ok:
  assumes "doc_ok e" "com_mod n extra flag e = Inr e'"
  shows "doc_ok e' \<and> length (lines_of e') = length (lines_of e)"
proof (cases "n \<le> 0 \<or> n > get_line_number (ed_text e) + 1")
  case True
  with assms show ?thesis by (auto simp: com_mod_def refuse_def same_doc_ok [OF same_doc_printf])
next
  case False
  with assms(2) obtain input e1 where r: "content_input extra e = Inr (input, e1)"
    by (auto simp: com_mod_def ed_bind_Inr_iff split: if_splits)
  from False doc_ok_line_number [OF assms(1)] have n: "1 \<le> nat n" "nat n \<le> length (lines_of e)"
      "int (nat n) = n" by auto
  from com_mod_effect [OF assms(1) n(1,2) r, of flag] obtain e2 h
    where "com_mod n extra flag e = refresh e2" "edited e1 e2 (spec_mod (nat n) (cstr input) (lines_of e)) h"
    unfolding n(3) by blast
  with edited_refresh [of e1 e2] assms(2) show ?thesis by (simp add: spec_mod_def)
qed

lemma com_mod_line_number:
  assumes "com_mod n extra flag e = Inr e'"
  shows "line_number e' = line_number e"
proof -
  have c: "line_number e1 = line_number e" if "content_input extra e = Inr (i, e1)" for i e1
    using content_input_ok [OF that] same_docD(4) by blast
  have "line_number e2' = line_number e2" if "refresh e2 = Inr e2'" for e2 e2'
    using same_doc_refresh [OF that] same_docD(4) by blast
  with c assms show ?thesis
    by (fastforce simp: com_mod_def ed_bind_Inr_iff Let_def set_line_def refuse_def
        same_docD [OF same_doc_printf] split: if_splits)
qed

lemma com_del_doc_ok:
  assumes "doc_ok e" "com_del n flag e = Inr e'"
  shows "doc_ok e'"
proof (cases "n \<le> 0 \<or> n > get_line_number (ed_text e) + 1")
  case True
  with assms show ?thesis by (auto simp: com_del_def refuse_def same_doc_ok [OF same_doc_printf])
next
  case False
  with doc_ok_line_number [OF assms(1)] have n: "1 \<le> nat n" "nat n \<le> length (lines_of e)"
      "int (nat n) = n" by auto
  have "length (lines_of e) < MAX_LINE_NUMBER"
    using com_del_full [OF assms(1) n(1,2)] doc_ok_lines [OF assms(1)] assms(2) n(3)
    by (metis Inl_Inr_False le_neq_implies_less)
  from com_del_effect [OF assms(1) n(1,2) this] assms(2) show ?thesis
    unfolding n(3) using edited_refresh by metis
qed

lemma update_line_number_inv:
  assumes "update_line_number r = Inr e'" "\<And>e. r = Inr e \<Longrightarrow> doc_ok e"
  shows "ed_inv e'"
  using assms by (auto simp: update_line_number_def ed_bind_Inr_iff ed_inv_def doc_ok_line_number)

lemma same_doc_com_save:
  assumes "com_save path e = Inr e'"
  shows "doc_ok e' = doc_ok e" "lines_of e' = lines_of e" "line_number e' = line_number e"
proof -
  have s: "same_doc e1 e2" if "save_lines fd ts e1 = Inr e2" for fd ts e1 e2
    using that by (induction fd ts e1 rule: save_lines.induct)
      (auto dest: same_doc_trans [OF same_doc_trans [OF same_doc_printf same_doc_write]])
  have "doc_ok e' = doc_ok e \<and> lines_of e' = lines_of e \<and> line_number e' = line_number e"
    using assms
    by (auto simp: com_save_def Let_def ed_bind_Inr_iff sys_open_def sys_close_def sys_unlink_def
        ed_printf_def ed_write_def same_doc_ok [OF s] same_docD [OF s]
        split: if_splits list.splits option.splits)
  then show "doc_ok e' = doc_ok e" "lines_of e' = lines_of e" "line_number e' = line_number e"
    by simp_all
qed

lemma com_exit_no_return: "com_exit path e \<noteq> Inr e'"
proof (induction path e rule: com_exit.induct)
  case (1 path e)
  then show ?case
    by (subst com_exit.simps) (auto simp: leave_def ed_bind_def split: sum.splits)
qed

lemma com_init_file_inv:
  assumes "doc_ok e" "com_init_file e = Inr e'"
  shows "ed_inv e'"
proof -
  let ?b = "\<lambda>i. buf_strcpy (junk e i) (init_lines ! i)"
  have init: "length init_lines = 27" by (simp add: init_lines_def)
  have short: "list_all (\<lambda>l. length l < MAX_LINE_LENGTH) init_lines"
    by (simp add: init_lines_def)
  obtain bs where t: "ed_text e = arr bs" "bs \<noteq> []" "length bs \<le> MAX_LINE_NUMBER" "list_all line_ok bs"
    using assms(1) by (auto simp: doc_ok_def elim: text_okE)
  have ok: "line_ok (?b i)" if "i < 27" for i
  proof -
    have "length (cstr (init_lines ! i)) < MAX_LINE_LENGTH"
      using short init that length_cstr_le [of "init_lines ! i"]
      by (auto simp: list_all_length intro: le_less_trans)
    moreover have "length (junk e i) = MAX_LINE_LENGTH" using assms(1) that by (simp add: doc_ok_def list_all_iff)
    ultimately show ?thesis by (simp add: line_ok_def)
  qed
  have fold: "k \<le> 27 \<Longrightarrow> foldl (\<lambda>t i. t[i := Some (?b i)]) (arr bs) [0..<k]
      = arr (map ?b [0..<k] @ drop k bs)" for k
  proof (induction k)
    case (Suc k)
    show ?case
    proof (cases "k < length bs")
      case True
      then have "drop k bs = bs ! k # drop (Suc k) bs" by (simp add: Cons_nth_drop_Suc)
      with Suc show ?thesis by (simp add: arr_update list_update_append)
    next
      case False
      have "length (map ?b [0..<k]) < MAX_LINE_NUMBER" using Suc.prems by simp
      from arr_extend [OF this, of "?b k"] False Suc show ?thesis by simp
    qed
  qed simp
  let ?t = "arr (map ?b [0..<27] @ drop 27 bs)"
  let ?e = "e\<lparr>ed_text := ?t, line_number := get_line_number ?t\<rparr>"
  have "text_ok ?t"
    using t(3,4) ok by (auto simp: list_all_iff dest: in_set_dropD)
  then have "doc_ok ?e" using assms(1) by (simp add: doc_ok_def)
  then have "ed_inv ?e" using doc_ok_line_number [of ?e] by (simp add: ed_inv_def)
  moreover obtain e2 where "show_text_syntax_highlighting ?e = Inr e2" "e' = e2\<lparr>changed := 1\<rparr>"
    using assms(2) t(1) fold [of 27] by (auto simp: com_init_file_def Let_def ed_bind_Inr_iff)
  moreover have "ed_inv e2 = ed_inv ?e" using same_doc_ok(5) [OF same_doc_show(1)] calculation(2) by blast
  ultimately show ?thesis by (simp add: ed_inv_def)
qed

lemma history_ok_pop:
  assumes "history_ok e" "0 \<le> upper_bound e"
  shows "history_ok (e\<lparr>upper_bound := upper_bound e - 1\<rparr>)"
    and "history (e\<lparr>upper_bound := upper_bound e - 1\<rparr>) = butlast (history e)"
proof -
  define k where "k = nat (upper_bound e)"
  have k: "upper_bound e = int k" "nat (upper_bound e + 1) = Suc k" "k < length (command_set e)"
    using assms by (auto simp: k_def history_ok_def)
  have split: "take (Suc k) (command_set e) = take k (command_set e) @ [command_set e ! k]"
    using k(3) by (rule take_Suc_conv_app_nth)
  show "history_ok (e\<lparr>upper_bound := upper_bound e - 1\<rparr>)"
    using assms k split by (simp add: history_ok_def)
  show "history (e\<lparr>upper_bound := upper_bound e - 1\<rparr>) = butlast (history e)"
    using k split by (simp add: history_def butlast_append)
qed

lemma com_rollback_inv:
  assumes "ed_inv e" "com_rollback e = Inr e'"
  shows "ed_inv e'"
proof (cases "upper_bound e < 0")
  case True
  with assms show ?thesis
    by (auto simp: com_rollback_def refuse_def same_doc_ok(5) [OF same_doc_printf])
next
  case False
  let ?e = "e\<lparr>upper_bound := upper_bound e - 1\<rparr>"
  have d: "doc_ok ?e"
    using assms(1) False history_ok_pop(1) [of e] by (simp add: ed_inv_def doc_ok_def)
  then have "ed_inv ?e" using assms(1) by (simp add: ed_inv_def)
  moreover obtain c where "command_set e ! nat (upper_bound e) = Some c"
    using assms(2) False by (auto simp: com_rollback_def split: option.splits)
  ultimately show ?thesis
    using assms(2) False com_ins_doc_ok [OF d] com_mod_doc_ok [OF d] com_del_doc_ok [OF d]
    by (auto simp: com_rollback_def Let_def split: if_splits elim!: update_line_number_inv)
qed

lemma main_command_inv:
  assumes "ed_inv e" "main_command path input e = Inr e'"
  shows "ed_inv e'"
proof -
  have d: "doc_ok e" using assms(1) by (simp add: ed_inv_def)
  have "ed_inv e'" if "main_ins input pos e = Inr e'" for pos
    using that assms(1) com_ins_doc_ok [OF d]
    by (auto simp: main_ins_def invalid_command_def refuse_def same_doc_ok [OF same_doc_printf]
        split: if_splits elim!: update_line_number_inv)
  moreover have "ed_inv e'" if "main_mod input pos e = Inr e'" for pos
    using that assms(1) com_mod_doc_ok [OF d] com_mod_line_number
    by (auto simp: main_mod_def invalid_command_def refuse_def same_doc_ok [OF same_doc_printf]
        same_docD(4) [OF same_doc_printf] ed_inv_def split: if_splits)
  moreover have "ed_inv e'" if "main_del input e = Inr e'"
    using that assms(1) com_del_doc_ok [OF d]
    by (auto simp: main_del_def invalid_command_def refuse_def same_doc_ok [OF same_doc_printf]
        split: if_splits elim!: update_line_number_inv)
  moreover have "ed_inv e'" if "com_save path e = Inr e'"
    using assms(1) same_doc_com_save [OF that] by (simp add: ed_inv_def)
  moreover have "same_doc e (print_all ss e)" for ss
    unfolding print_all_def
    by (induction ss rule: rev_induct) (auto intro: same_doc_trans [OF _ same_doc_printf])
  moreover have "ed_inv (ed_printf 1 s [] (e\<lparr>auto_show := v\<rparr>))" for s v
    using assms(1)
    by (simp add: same_doc_ok [OF same_doc_printf] same_docD(4) [OF same_doc_printf] ed_inv_def)
  ultimately show ?thesis
    using assms com_rollback_inv [OF assms(1)] com_init_file_inv [OF d] com_exit_no_return [of path e e']
      same_doc_ok(5) [OF same_doc_show(1)] same_doc_ok(5) [OF same_doc_show(2)]
      same_doc_ok(5) [of e "print_all _ e"]
    by (auto simp: main_command_def Let_def com_help_def com_display_color_demo_def
        invalid_command_def refuse_def same_doc_ok [OF same_doc_printf] split: if_splits)
qed

lemma main_step_inv:
  assumes "ed_inv e" "main_step path e = Inr e'"
  shows "ed_inv e'"
proof -
  obtain input e1 where r: "read_input (ed_printf 1 (''>>> '' @ esc ''[1;33m'' @ reset) [] e)
      = Inr (input, e1)" "main_command path input e1 = Inr e'"
    using assms(2) by (auto simp: main_step_def ed_bind_Inr_iff)
  have "ed_inv e1"
    using read_input_ok [OF r(1)] same_doc_ok(5) [of _ e1] same_doc_ok(5) [OF same_doc_printf] assms(1)
    by blast
  then show ?thesis using r(2) by (rule main_command_inv)
qed

subsection \<open>Start-up\<close>

lemma strcat_n_ok:
  assumes "line_ok b" "n \<le> length src"
  shows "line_ok (strcat_n b src (int n))"
  using assms line_ok_length [OF assms(1)]
  by (auto simp: strcat_n_def Let_def line_ok_def terminated_def)

lemma load_rest_arr:
  assumes "length cs < MAX_LINE_NUMBER"
  defines "n \<equiv> \<lambda>rest. length (takeWhile (\<lambda>c. c \<noteq> NEWLINE) rest)"
  shows "load_rest rest (arr (cs @ [b])) (int (length cs)) =
    (let b' = strcat_n b rest (int (n rest)) in
     if \<not> n rest < length rest then (arr (cs @ [b']), int (length cs), False)
     else if length cs = MAX_LINE_NUMBER - 1 then (arr (cs @ [b']), int (length cs), True)
     else let t = arr (cs @ [b', replicate MAX_LINE_LENGTH NUL])
       in if n rest + 1 \<ge> length rest then (t, int (length cs) + 1, False)
          else load_rest (drop (n rest + 1) rest) t (int (length cs) + 1))"
proof -
  have at: "arr (cs @ [b]) ! length cs = Some b"
      "(arr (cs @ [b]))[length cs := Some b'] = arr (cs @ [b'])" for b'
    using assms(1) by (simp_all add: nth_arr arr_update)
  have ext: "(arr (cs @ [b']))[Suc (length cs) := Some z] = arr (cs @ [b', z])"
    if "length cs \<noteq> MAX_LINE_NUMBER - 1" for b' z
    using arr_extend [of "cs @ [b']" z] assms(1) that by simp
  have nat: "nat (int (length cs) + 1) = Suc (length cs)" by simp
  have full: "int MAX_LINE_NUMBER - 1 \<le> int (length cs) \<longleftrightarrow> length cs = MAX_LINE_NUMBER - 1"
    using assms(1) by auto
  show ?thesis
    unfolding load_rest.simps [of rest] n_def Let_def nat_int at(1) option.case at(2) full
    by (cases "length cs = MAX_LINE_NUMBER - 1") (simp_all add: nat ext)
qed

lemma load_rest_ok:
  assumes "list_all line_ok (cs @ [b])" "length cs < MAX_LINE_NUMBER"
    "load_rest rest (arr (cs @ [b])) (int (length cs)) = (t, ln, full)"
  shows "text_ok t \<and> ln = int (length (text_bufs t)) - 1"
  using assms
proof (induction "length rest" arbitrary: rest cs b rule: less_induct)
  case less
  let ?n = "length (takeWhile (\<lambda>c. c \<noteq> NEWLINE) rest)"
  let ?b = "strcat_n b rest (int ?n)"
  let ?Z = "replicate MAX_LINE_LENGTH NUL"
  have b: "line_ok ?b"
    using less.prems(1) by (intro strcat_n_ok) (simp_all add: length_takeWhile_le)
  show ?case
  proof (cases "?n + 1 < length rest \<and> length cs \<noteq> MAX_LINE_NUMBER - 1")
    case False
    then have "t = arr (cs @ [?b]) \<and> ln = int (length cs) \<or>
        t = arr (cs @ [?b, ?Z]) \<and> ln = int (length cs) + 1 \<and> length cs \<noteq> MAX_LINE_NUMBER - 1"
      using less.prems(3) unfolding load_rest_arr [OF less.prems(2)] Let_def
      by (auto split: if_splits)
    with b less.prems(1,2) show ?thesis by auto
  next
    case True
    then have "load_rest (drop (?n + 1) rest) (arr ((cs @ [?b]) @ [?Z])) (int (length (cs @ [?b])))
        = (t, ln, full)"
      using less.prems(3) unfolding load_rest_arr [OF less.prems(2)] Let_def
      by (simp add: add.commute)
    moreover have "length (drop (?n + 1) rest) < length rest" "length (cs @ [?b]) < MAX_LINE_NUMBER"
      using True less.prems(2) by auto
    moreover have "list_all line_ok ((cs @ [?b]) @ [?Z])" using b less.prems(1) by simp
    ultimately show ?thesis using less.hyps by blast
  qed
qed

lemma load_chunks_ok:
  assumes "text_ok t" "ln = int (length (text_bufs t)) - 1" "load_chunks bufs t ln = (t', ln')"
  shows "text_ok t' \<and> ln' = int (length (text_bufs t')) - 1"
  using assms
proof (induction bufs t ln rule: load_chunks.induct)
  case (2 buf bufs t ln)
  obtain t1 ln1 full where r: "load_rest buf t ln = (t1, ln1, full)" by (metis prod_cases3)
  from 2(2) obtain bs where bs: "t = arr bs" "bs \<noteq> []" "length bs \<le> MAX_LINE_NUMBER" "list_all line_ok bs"
    by (rule text_okE)
  from bs(2) obtain cs b where "bs = cs @ [b]" by (metis append_butlast_last_id)
  with bs r 2(3) load_rest_ok [of cs b buf t1 ln1 full]
  have "text_ok t1 \<and> ln1 = int (length (text_bufs t1)) - 1" by simp
  with r 2 show ?case by (auto split: if_splits)
qed simp

lemma empty_text_arr: "empty_text = arr [replicate MAX_LINE_LENGTH NUL]"
  using replicate_Suc [of 255 "None :: buffer option"] by (simp add: empty_text_def arr_def)

text \<open>The globals as the program finds them.\<close>

definition fresh :: "editor \<Rightarrow> bool" where
  "fresh e \<longleftrightarrow> command_set e = replicate MAX_ROLLBAKC_STEP None \<and> upper_bound e = - 1
     \<and> list_all (\<lambda>i. length (junk e i) = MAX_LINE_LENGTH) [0..<27]"

lemma main_start_inv:
  assumes "fresh e" "main_start argv chunks e = Inr e'"
  shows "ed_inv e'"
proof -
  obtain prog path args where argv: "argv = prog # path # args"
    using assms(2) by (auto simp: main_start_def split: list.splits)
  obtain fd e1 where o: "sys_open path O_RDONLY (e\<lparr>ed_text := empty_text, line_number := 0\<rparr>) = (fd, e1)"
    by fastforce
  then have t1: "ed_text e1 = empty_text" "line_number e1 = 0" and h: "history_ok e1"
      "list_all (\<lambda>i. length (junk e1 i) = MAX_LINE_LENGTH) [0..<27]"
    using assms(1) by (auto simp: sys_open_def fresh_def history_ok_def split: list.splits)
  show ?thesis
  proof (cases "fd = - 1")
    case True
    with assms(2) argv o t1 h show ?thesis
      by (auto simp: main_start_def com_create_new_file_def sys_open_def ed_inv_def doc_ok_def
          lines_of_def empty_text_arr split: list.splits if_splits)
  next
    case False
    obtain t ln where l: "load_chunks chunks empty_text 0 = (t, ln)" by fastforce
    have t: "text_ok t" "ln = int (length (text_bufs t)) - 1"
      using load_chunks_ok [OF _ _ l] by (simp_all add: empty_text_arr)
    let ?e = "sys_close fd (e1\<lparr>ed_text := t, line_number := ln\<rparr>)"
    have "ed_inv ?e" using t h by (simp add: sys_close_def ed_inv_def doc_ok_def lines_of_def)
    moreover have "e' = ?e \<or> show_text_syntax_highlighting ?e = Inr e'"
      using assms(2) argv o False t1 l by (auto simp: main_start_def Let_def split: if_splits)
    ultimately show ?thesis using same_doc_ok(5) [OF same_doc_show(1)] by blast
  qed
qed

section \<open>Undoing\<close>

datatype edit = Ins nat string | Mod nat string

definition do_edit :: "edit \<Rightarrow> editor \<Rightarrow> ed_result" where
  "do_edit d e =
     (case d of
        Ins n x \<Rightarrow> com_ins (int n) (zbuf MAX_LINE_LENGTH x) 1 e
      | Mod n x \<Rightarrow> com_mod (int n) (zbuf MAX_LINE_LENGTH x) 1 e)"

definition spec_edit :: "edit \<Rightarrow> string list \<Rightarrow> string list" where
  "spec_edit d ls = (case d of Ins n x \<Rightarrow> spec_ins n x ls | Mod n x \<Rightarrow> spec_mod n x ls)"

text \<open>
  The edits that \<^verbatim>\<open>rb\<close> takes back: a line number in range, a content to store, room for one more
  line, no empty last line to append to; and for \<^verbatim>\<open>mod\<close> an old line that is not empty and
  fits into the recorded command.
\<close>

definition undoable :: "edit \<Rightarrow> string list \<Rightarrow> bool" where
  "undoable d ls \<longleftrightarrow>
     (case d of
        Ins n x \<Rightarrow> x \<noteq> [] \<and> nul_free x \<and> length x < MAX_LINE_LENGTH \<and> 1 \<le> n \<and> n \<le> length ls + 1
          \<and> length ls < MAX_LINE_NUMBER - 1 \<and> \<not> (n = length ls + 1 \<and> last ls = [])
      | Mod n x \<Rightarrow> x \<noteq> [] \<and> nul_free x \<and> length x < MAX_LINE_LENGTH \<and> 1 \<le> n \<and> n \<le> length ls
          \<and> ls ! (n - 1) \<noteq> [] \<and> length (ls ! (n - 1)) < MAX_LINE_LENGTH - 8)"

fun run_edits :: "edit list \<Rightarrow> editor \<Rightarrow> ed_result" where
  "run_edits [] e = Inr e"
| "run_edits (d # ds) e = ed_bind (do_edit d e) (run_edits ds)"

fun all_undoable :: "edit list \<Rightarrow> string list \<Rightarrow> bool" where
  "all_undoable [] ls = True"
| "all_undoable (d # ds) ls = (undoable d ls \<and> all_undoable ds (spec_edit d ls))"

primrec rollbacks :: "nat \<Rightarrow> editor \<Rightarrow> ed_result" where
  "rollbacks 0 e = Inr e"
| "rollbacks (Suc k) e = ed_bind (com_rollback e) (rollbacks k)"

lemma rollbacks_last: "rollbacks (Suc k) e = ed_bind (rollbacks k e) com_rollback"
proof (induction k arbitrary: e)
  case 0
  show ?case by (cases "com_rollback e") simp_all
next
  case (Suc k)
  show ?case
    by (cases "com_rollback e") (use Suc in \<open>simp_all\<close>)
qed

lemma history_top:
  assumes "history_ok e" "history e = h @ [c]"
  shows "upper_bound e = int (length h)" "command_set e ! length h = Some c"
proof -
  have "length (history e) = nat (upper_bound e + 1)" using assms(1) by (rule length_history)
  with assms(2) show ub: "upper_bound e = int (length h)" by simp
  have l: "length h < length (command_set e)" using assms(1) ub by (simp add: history_ok_def)
  have t: "take (Suc (length h)) (command_set e) = take (length h) (command_set e) @ [command_set e ! length h]"
    using l by (rule take_Suc_conv_app_nth)
  have "nat (upper_bound e + 1) = Suc (length h)" using ub by simp
  with assms t have "command_ok (command_set e ! length h)" "the (command_set e ! length h) = c"
    by (simp_all add: history_ok_def history_def)
  then show "command_set e ! length h = Some c" by (auto simp: command_ok_def split: option.splits)
qed

text \<open>How \<^verbatim>\<open>com_rollback\<close> reads a recorded command.\<close>

lemma recorded_command:
  assumes "length name = 4" "nul_free name" "CHR '' '' \<notin> set name" "0 \<le> n" "n < 1000" "nul_free p"
    "length p < MAX_LINE_LENGTH - 8"
  defines "c \<equiv> name @ number2string n @ CHR '' '' # p"
  shows "take 3 (zbuf MAX_LINE_LENGTH c) = take 3 name"
    and "stringtonumber (drop 4 (zbuf MAX_LINE_LENGTH c)) = n"
    and "cstr (drop (space_pos 10 (zbuf MAX_LINE_LENGTH c)) (zbuf MAX_LINE_LENGTH c)) = p"
proof -
  have len: "length (number2string n) \<le> 3" using assms(4,5) by (rule length_number2string)
  have nf: "nul_free (number2string n)" "CHR '' '' \<notin> set (number2string n)"
    using number2string_chars [OF assms(4)] by simp_all
  define k where "k = 4 + length (number2string n)"
  have k: "k = length (name @ number2string n)" "k < 10" using assms(1) len by (simp_all add: k_def)
  let ?r = "replicate (MAX_LINE_LENGTH - length c) NUL"
  have z: "zbuf MAX_LINE_LENGTH c = (name @ number2string n) @ CHR '' '' # p @ ?r"
    by (simp add: zbuf_def c_def)
  show "take 3 (zbuf MAX_LINE_LENGTH c) = take 3 name" using assms(1) by (simp add: zbuf_def c_def)
  have "length c < MAX_LINE_LENGTH" using assms(1,7) len by (simp add: c_def)
  then obtain j where j: "?r = NUL # replicate j NUL" by (metis Suc_diff_Suc replicate_Suc)
  have "cstr (drop 4 (zbuf MAX_LINE_LENGTH c)) = number2string n @ CHR '' '' # p"
    using cstr_append_NUL [of "number2string n @ CHR '' '' # p" "replicate j NUL"] assms(1,6) nf z j by simp
  then show "stringtonumber (drop 4 (zbuf MAX_LINE_LENGTH c)) = n"
    using stringtonumber_number2string [of n p] assms(4,5) by (simp add: stringtonumber_def)
  have "take 10 (zbuf MAX_LINE_LENGTH c) = (name @ number2string n) @ CHR '' '' # take (9 - k) (p @ ?r)"
    using k unfolding z by (simp add: take_Cons' del: append_assoc)
  moreover have "takeWhile (\<lambda>ch. ch \<noteq> CHR '' '') ((name @ number2string n) @ CHR '' '' # y)
      = name @ number2string n" for y
    using assms(3) nf(2) by (subst takeWhile_append2) auto
  ultimately have "space_pos 10 (zbuf MAX_LINE_LENGTH c) = Suc k"
    unfolding space_pos_def Let_def using k(1) by (simp del: append_assoc)
  then have "drop (space_pos 10 (zbuf MAX_LINE_LENGTH c)) (zbuf MAX_LINE_LENGTH c) = p @ ?r"
    using k(1) z by simp
  then show "cstr (drop (space_pos 10 (zbuf MAX_LINE_LENGTH c)) (zbuf MAX_LINE_LENGTH c)) = p"
    using assms(6) j by simp
qed

text \<open>Undoing the last recorded edit, in any state with the lines and the history it left.\<close>

definition restores :: "editor \<Rightarrow> string list \<Rightarrow> string list \<Rightarrow> bool" where
  "restores e ls h \<longleftrightarrow> (\<exists>e'. com_rollback e = Inr e' \<and> doc_ok e' \<and> auto_show e' = 0
     \<and> lines_of e' = ls \<and> history e' = h)"

lemma restores_ins:
  assumes "doc_ok e" "auto_show e = 0" "history e = h @ [cstr (command_line ''ins-'' (int n) p)]"
    "nul_free p" "1 \<le> n" "n \<le> length (lines_of e)" "length (lines_of e) < MAX_LINE_NUMBER"
  shows "restores e (spec_del n (lines_of e)) h"
proof -
  let ?c = "cstr (command_line ''ins-'' (int n) p)"
  let ?e = "e\<lparr>upper_bound := upper_bound e - 1\<rparr>"
  have h: "history_ok e" using assms(1) by (simp add: doc_ok_def)
  have n: "int n < 1000" using assms(6,7) by simp
  obtain q where q: "?c = ''ins-'' @ number2string (int n) @ CHR '' '' # q" "nul_free q"
      "length q < MAX_LINE_LENGTH"
    using command_line_cstr [of "''ins-''" "int n" p] n assms(4)
    by (auto split: if_splits intro: that)
  have ub: "upper_bound e = int (length h)" "command_set e ! length h = Some ?c"
    using history_top [OF h assms(3)] by simp_all
  have e: "doc_ok ?e" "history ?e = h" "lines_of ?e = lines_of e" "auto_show ?e = 0"
    using assms(1-3) history_ok_pop [OF h] ub(1) by (simp_all add: doc_ok_def)
  have num: "stringtonumber (drop 4 (zbuf MAX_LINE_LENGTH ?c)) = int n"
    "take 3 (zbuf MAX_LINE_LENGTH ?c) = ''ins''"
  proof -
    have "cstr (drop 4 (zbuf MAX_LINE_LENGTH ?c)) = number2string (int n) @ CHR '' '' # q"
    proof -
      have "length ?c < MAX_LINE_LENGTH"
        using command_line_cstr [of "''ins-''" "int n" p] n assms(4) length_number2string [of "int n"]
        by simp
      then obtain j where "replicate (MAX_LINE_LENGTH - length ?c) NUL = NUL # replicate j NUL"
        by (metis Suc_diff_Suc replicate_Suc)
      then show ?thesis
        using cstr_append_NUL [of "number2string (int n) @ CHR '' '' # q" "replicate j NUL"]
          q number2string_chars(1) [of "int n"] by (simp add: zbuf_def)
    qed
    then show "stringtonumber (drop 4 (zbuf MAX_LINE_LENGTH ?c)) = int n"
      using stringtonumber_number2string [of "int n" q] n by (simp add: stringtonumber_def)
    show "take 3 (zbuf MAX_LINE_LENGTH ?c) = ''ins''" using q(1) by (simp add: zbuf_def)
  qed
  obtain e1 where "com_del (int n) 0 ?e = refresh e1" "edited ?e e1 (spec_del n (lines_of e)) h"
    using com_del_effect [OF e(1) assms(5), of 0] assms(6,7) e by auto
  moreover from this have "refresh e1 = Inr e1" using e(4) by (simp add: refresh_def edited_def)
  ultimately have "com_rollback e = Inr (e1\<lparr>line_number := get_line_number (ed_text e1)\<rparr>)"
    using ub num by (simp add: com_rollback_def Let_def update_line_number_def)
  with \<open>edited ?e e1 _ _\<close> e(4) show ?thesis by (simp add: restores_def edited_def)
qed

lemma restores_mod:
  assumes "doc_ok e" "auto_show e = 0" "history e = h @ [cstr (command_line ''mod-'' (int n) p)]"
    "nul_free p" "p \<noteq> []" "length p < MAX_LINE_LENGTH - 8" "1 \<le> n" "n \<le> length (lines_of e)"
  shows "restores e (spec_mod n p (lines_of e)) h"
proof -
  let ?c = "cstr (command_line ''mod-'' (int n) p)"
  let ?e = "e\<lparr>upper_bound := upper_bound e - 1\<rparr>"
  let ?b = "drop (space_pos 10 (zbuf MAX_LINE_LENGTH ?c)) (zbuf MAX_LINE_LENGTH ?c)"
  have h: "history_ok e" using assms(1) by (simp add: doc_ok_def)
  have n: "int n < 1000" using assms(8) doc_ok_lines [OF assms(1)] by simp
  have c: "?c = ''mod-'' @ number2string (int n) @ CHR '' '' # p"
    using command_line_cstr [of "''mod-''" "int n" p] n assms(4,6) length_number2string [of "int n"]
    by simp
  have ub: "upper_bound e = int (length h)" "command_set e ! length h = Some ?c"
    using history_top [OF h assms(3)] by simp_all
  have e: "doc_ok ?e" "history ?e = h" "lines_of ?e = lines_of e" "auto_show ?e = 0"
    using assms(1-3) history_ok_pop [OF h] ub(1) by (simp_all add: doc_ok_def)
  have r: "take 3 (zbuf MAX_LINE_LENGTH ?c) = ''mod''"
      "stringtonumber (drop 4 (zbuf MAX_LINE_LENGTH ?c)) = int n" "cstr ?b = p"
    using recorded_command [of "''mod-''" "int n" p] n assms(4,6) unfolding c by simp_all
  have "byte_at ?b 0 \<noteq> NUL"
    using r(3) assms(5) by (cases ?b) (auto simp: byte_at_def cstr_def split: if_splits)
  then have i: "content_input ?b ?e = Inr (copy_line ?b, ?e)"
    using r(3) assms(6) by (intro content_input_extra) auto
  obtain e1 where "com_mod (int n) ?b 0 ?e = refresh e1" "edited ?e e1 (spec_mod n p (lines_of e)) h"
    using com_mod_effect [OF e(1) assms(7) _ i, of 0] assms(8) e r(3) by auto
  moreover from this have "refresh e1 = Inr e1" using e(4) by (simp add: refresh_def edited_def)
  ultimately have "com_rollback e = Inr (e1\<lparr>line_number := get_line_number (ed_text e1)\<rparr>)"
    using ub r by (simp add: com_rollback_def Let_def update_line_number_def)
  with \<open>edited ?e e1 _ _\<close> e(4) show ?thesis by (simp add: restores_def edited_def)
qed

lemma content_input_zbuf:
  assumes "x \<noteq> []" "nul_free x" "length x < MAX_LINE_LENGTH"
  shows "content_input (zbuf MAX_LINE_LENGTH x) e = Inr (copy_line (zbuf MAX_LINE_LENGTH x), e)"
proof -
  have "byte_at (zbuf MAX_LINE_LENGTH x) 0 \<noteq> NUL"
    using assms by (cases x) (simp_all add: byte_at_def zbuf_def)
  then show ?thesis using assms by (intro content_input_extra) simp_all
qed

lemma spec_del_ins:
  assumes "ls \<noteq> []" "1 \<le> n" "n \<le> length ls + 1" "length ls < MAX_LINE_NUMBER - 1"
    "\<not> (n = length ls + 1 \<and> last ls = [])"
  shows "spec_del n (spec_ins n x ls) = ls" "length (spec_ins n x ls) = length ls + 1"
proof -
  obtain k where k: "n = Suc k" using assms(2) by (cases n) auto
  have "spec_ins n x ls = take k ls @ x # drop k ls"
    using assms k by (cases "n \<le> length ls") (auto simp: spec_ins_def min_def)
  with k assms(1,3) show "spec_del n (spec_ins n x ls) = ls" "length (spec_ins n x ls) = length ls + 1"
    by (simp_all add: spec_del_def)
qed

lemma undoable_step:
  assumes "doc_ok e" "auto_show e = 0" "length (cstr (null_str e)) < MAX_LINE_LENGTH"
    "undoable d (lines_of e)" "length (history e) < MAX_ROLLBAKC_STEP"
  shows "\<exists>e' c. do_edit d e = Inr e' \<and> doc_ok e' \<and> auto_show e' = 0 \<and> null_str e' = null_str e
    \<and> lines_of e' = spec_edit d (lines_of e) \<and> history e' = history e @ [c]
    \<and> (\<forall>e2. doc_ok e2 \<longrightarrow> auto_show e2 = 0 \<longrightarrow> lines_of e2 = lines_of e' \<longrightarrow>
        history e2 = history e' \<longrightarrow> restores e2 (lines_of e) (history e))"
proof -
  let ?ls = "lines_of e"
  have push: "push_command c (history e) = history e @ [c]" for c
    using assms(5) by (simp add: push_command_def)
  have hide: "refresh e' = Inr e'" if "edited e e' ls h" for e' ls h
    using that assms(2) by (simp add: edited_def refresh_def)
  obtain bs where t: "ed_text e = arr bs" "length bs \<le> MAX_LINE_NUMBER" "list_all line_ok bs"
    using assms(1) by (auto simp: doc_ok_def elim: text_okE)
  have ls: "?ls = map cstr bs" "?ls \<noteq> []" using t doc_ok_lines [OF assms(1)] by (auto simp: lines_of_def)
  show ?thesis
  proof (cases d)
    case (Ins n x)
    have x: "x \<noteq> []" "nul_free x" "length x < MAX_LINE_LENGTH" and n: "1 \<le> n" "n \<le> length ?ls + 1"
        "length ?ls < MAX_LINE_NUMBER - 1" "\<not> (n = length ?ls + 1 \<and> last ?ls = [])"
      using assms(4) Ins by (simp_all add: undoable_def)
    obtain p where p: "old_content (int n) e = Inr p" "nul_free p"
    proof (cases "n \<le> length bs")
      case True
      with old_content_line [OF t(1) n(1) _ t(2,3)] that show ?thesis by simp
    next
      case False
      with n(2) ls have "n = Suc (length bs)" by simp
      with old_content_append [OF t(1)] n(3) ls assms(3) that show ?thesis by simp
    qed
    let ?c = "cstr (command_line ''ins-'' (int n) p)"
    obtain e' where e': "com_ins (int n) (zbuf MAX_LINE_LENGTH x) 1 e = refresh e'"
        "edited e e' (spec_ins n x ?ls) (history e @ [?c])"
      using com_ins_effect [OF assms(1) n(1,2) _ content_input_zbuf [OF x], of 1 p] n p x(2) push
      by auto
    have "restores e2 ?ls (history e)" if "doc_ok e2" "auto_show e2 = 0" "lines_of e2 = lines_of e'"
      "history e2 = history e'" for e2
    proof -
      have "lines_of e2 = spec_ins n x ?ls" "history e2 = history e @ [?c]"
        using that e'(2) by (simp_all add: edited_def)
      with restores_ins [OF that(1,2), of "history e" n p] spec_del_ins [OF ls(2) n] n p(2)
      show ?thesis by simp
    qed
    with e' hide [OF e'(2)] Ins assms(2) show ?thesis
      by (intro exI [of _ e'] exI [of _ ?c]) (simp add: do_edit_def spec_edit_def edited_def)
  next
    case (Mod n x)
    have x: "x \<noteq> []" "nul_free x" "length x < MAX_LINE_LENGTH" and n: "1 \<le> n" "n \<le> length ?ls"
        "?ls ! (n - 1) \<noteq> []" "length (?ls ! (n - 1)) < MAX_LINE_LENGTH - 8"
      using assms(4) Mod by (simp_all add: undoable_def)
    have nf: "nul_free (?ls ! (n - 1))" using n(1,2) ls(1) by simp
    let ?c = "cstr (command_line ''mod-'' (int n) (?ls ! (n - 1)))"
    obtain e' where e': "com_mod (int n) (zbuf MAX_LINE_LENGTH x) 1 e = refresh e'"
        "edited e e' (spec_mod n x ?ls) (history e @ [?c])"
      using com_mod_effect [OF assms(1) n(1,2) content_input_zbuf [OF x], of 1] x(2) push by auto
    have "restores e2 ?ls (history e)" if "doc_ok e2" "auto_show e2 = 0" "lines_of e2 = lines_of e'"
      "history e2 = history e'" for e2
    proof -
      have "lines_of e2 = spec_mod n x ?ls" "history e2 = history e @ [?c]"
        using that e'(2) by (simp_all add: edited_def)
      with restores_mod [OF that(1,2), of "history e" n "?ls ! (n - 1)"] n nf
      show ?thesis by (simp add: spec_mod_def)
    qed
    with e' hide [OF e'(2)] Mod assms(2) show ?thesis
      by (intro exI [of _ e'] exI [of _ ?c]) (simp add: do_edit_def spec_edit_def edited_def)
  qed
qed

section \<open>Saving and reading back\<close>

text \<open>The contents of a file with the given lines, and the bytes written to a descriptor.\<close>

fun join_lines :: "string list \<Rightarrow> string" where
  "join_lines [] = []"
| "join_lines [l] = l"
| "join_lines (l # ls) = l @ NEWLINE # join_lines ls"

definition bytes_written :: "int \<Rightarrow> event list \<Rightarrow> string" where
  "bytes_written fd evs = concat (map (\<lambda>ev. case ev of Write fd' s \<Rightarrow> if fd' = fd then s else [] | _ \<Rightarrow> []) evs)"

text \<open>The lines of a string, the first one continuing \<open>c\<close>.\<close>

fun split_lines :: "string \<Rightarrow> string \<Rightarrow> string list" where
  "split_lines c [] = [c]"
| "split_lines c (x # xs) = (if x = NEWLINE then c # split_lines [] xs else split_lines (c @ [x]) xs)"

lemma split_lines_segment:
  "NEWLINE \<notin> set s \<Longrightarrow> split_lines c (s @ r) = split_lines (c @ s) r"
  by (induction s arbitrary: c) auto

lemma split_join_lines:
  "ls \<noteq> [] \<Longrightarrow> \<forall>l \<in> set ls. NEWLINE \<notin> set l \<Longrightarrow> split_lines [] (join_lines ls) = ls"
proof (induction ls rule: join_lines.induct)
  case (2 l)
  then show ?case using split_lines_segment [of l "[]" "[]"] by simp
next
  case (3 l v va)
  then show ?case using split_lines_segment [of l "[]"] by simp
qed simp

lemma split_lines_hd: "\<exists>y ys. split_lines c xs = (c @ y) # ys"
proof (induction xs arbitrary: c)
  case (Cons x xs)
  from Cons [of "c @ [x]"] show ?case by auto
qed simp

lemma split_lines_not_Nil [simp]: "split_lines c xs \<noteq> []"
  using split_lines_hd [of c xs] by auto

lemma split_lines_append:
  "split_lines c (a @ b) = butlast (split_lines c a) @ split_lines (last (split_lines c a)) b"
  by (induction a arbitrary: c) auto

definition line_fits :: "string \<Rightarrow> bool" where
  "line_fits l \<longleftrightarrow> nul_free l \<and> length l < MAX_LINE_LENGTH"

lemma line_fits_prefix: "line_fits (c @ y) \<Longrightarrow> line_fits c"
  by (simp add: line_fits_def)

text \<open>The buffers of lines that fit.\<close>

abbreviation bufs_of :: "string list \<Rightarrow> buffer list" where
  "bufs_of ls \<equiv> map (zbuf MAX_LINE_LENGTH) ls"

lemma strcat_n_zbuf:
  assumes "line_fits (c @ s)"
  shows "strcat_n (zbuf MAX_LINE_LENGTH c) (s @ r) (int (length s)) = zbuf MAX_LINE_LENGTH (c @ s)"
proof (cases "s = []")
  case False
  have c: "nul_free c" "length c + length s < MAX_LINE_LENGTH" using assms by (simp_all add: line_fits_def)
  have "drop (length c + length s + 1) (zbuf MAX_LINE_LENGTH c)
      = replicate (MAX_LINE_LENGTH - (length c + length s + 1)) NUL"
    by (simp add: zbuf_def)
  moreover have "NUL # replicate (MAX_LINE_LENGTH - (length c + length s + 1)) NUL
      = replicate (MAX_LINE_LENGTH - (length c + length s)) NUL"
    using c(2) by (simp flip: replicate_Suc add: Suc_diff_Suc)
  moreover have "take (length c) (zbuf MAX_LINE_LENGTH c) = c" by (simp add: zbuf_def)
  ultimately have "take (length c) (zbuf MAX_LINE_LENGTH c) @ s
      @ NUL # drop (length c + length s + 1) (zbuf MAX_LINE_LENGTH c) = zbuf MAX_LINE_LENGTH (c @ s)"
    by (simp add: zbuf_def)
  with False c show ?thesis by (simp add: strcat_n_def Let_def add.commute)
qed (simp add: strcat_n_def)

lemma load_rest_lines:
  assumes "length (pre @ split_lines c rest) \<le> MAX_LINE_NUMBER"
    "\<forall>l \<in> set (pre @ split_lines c rest). line_fits l"
  shows "load_rest rest (arr (bufs_of pre @ [zbuf MAX_LINE_LENGTH c])) (int (length pre))
    = (arr (bufs_of (pre @ split_lines c rest)), int (length (pre @ split_lines c rest)) - 1, False)"
  using assms
proof (induction "length rest" arbitrary: rest pre c rule: less_induct)
  case less
  define s where "s = takeWhile (\<lambda>x. x \<noteq> NEWLINE) rest"
  have s: "NEWLINE \<notin> set s" by (auto simp: s_def dest: set_takeWhileD)
  have pre: "length (bufs_of pre) < MAX_LINE_NUMBER"
    using less.prems(1) by (cases "split_lines c rest") simp_all
  note step = load_rest_arr [OF pre, of rest "zbuf MAX_LINE_LENGTH c", unfolded length_map s_def [symmetric]]
  show ?case
  proof (cases "length s < length rest")
    case False
    have "s = take (length s) rest" unfolding s_def by (rule takeWhile_eq_take)
    with False have "rest = s" by simp
    with s have sp: "split_lines c rest = [c @ s]" using split_lines_segment [of s c "[]"] by simp
    with less.prems(2) strcat_n_zbuf [of c s "[]"] \<open>rest = s\<close> False step show ?thesis by simp
  next
    case True
    define w where "w = dropWhile (\<lambda>x. x \<noteq> NEWLINE) rest"
    have w: "rest = s @ w" by (simp add: s_def w_def)
    with True have "w \<noteq> []" by auto
    moreover from this have "hd w = NEWLINE" using hd_dropWhile [of "\<lambda>x. x \<noteq> NEWLINE" rest] by (simp add: w_def)
    ultimately obtain r where r: "rest = s @ NEWLINE # r" using w by (cases w) auto
    with s have sp: "split_lines c rest = (c @ s) # split_lines [] r" by (simp add: split_lines_segment)
    have cat: "strcat_n (zbuf MAX_LINE_LENGTH c) rest (int (length s)) = zbuf MAX_LINE_LENGTH (c @ s)"
      unfolding r using less.prems(2) sp by (intro strcat_n_zbuf) simp
    have room: "length pre \<noteq> MAX_LINE_NUMBER - 1"
      using less.prems(1) sp by (cases "split_lines [] r") simp_all
    show ?thesis
    proof (cases "r = []")
      case r': True
      then show ?thesis using step True cat room sp r by simp
    next
      case False
      have "load_rest rest (arr (bufs_of pre @ [zbuf MAX_LINE_LENGTH c])) (int (length pre))
          = load_rest r (arr (bufs_of (pre @ [c @ s]) @ [zbuf MAX_LINE_LENGTH []])) (int (length (pre @ [c @ s])))"
        using step True cat room r False by (simp add: add.commute)
      also have "\<dots> = (arr (bufs_of ((pre @ [c @ s]) @ split_lines [] r)),
          int (length ((pre @ [c @ s]) @ split_lines [] r)) - 1, False)"
        using less.prems sp r by (intro less.hyps) auto
      finally show ?thesis by (simp add: sp)
    qed
  qed
qed

lemma load_chunks_lines:
  assumes "[] \<notin> set chunks" "length (pre @ split_lines c (concat chunks)) \<le> MAX_LINE_NUMBER"
    "\<forall>l \<in> set (pre @ split_lines c (concat chunks)). line_fits l"
  shows "load_chunks chunks (arr (bufs_of pre @ [zbuf MAX_LINE_LENGTH c])) (int (length pre))
    = (arr (bufs_of (pre @ split_lines c (concat chunks))),
       int (length (pre @ split_lines c (concat chunks))) - 1)"
  using assms
proof (induction chunks arbitrary: pre c)
  case (Cons buf chunks)
  define d' c' where "d' = butlast (split_lines c buf)" and "c' = last (split_lines c buf)"
  have sp: "split_lines c buf = d' @ [c']" by (simp add: d'_def c'_def)
  have all: "split_lines c (concat (buf # chunks)) = d' @ split_lines c' (concat chunks)"
    by (simp add: split_lines_append d'_def c'_def)
  obtain y ys where hd: "split_lines c' (concat chunks) = (c' @ y) # ys" using split_lines_hd by blast
  have "line_fits c'" using Cons.prems(3) all hd line_fits_prefix [of c' y] by simp
  then have "\<forall>l \<in> set (pre @ split_lines c buf). line_fits l"
    using Cons.prems(3) all sp by auto
  moreover have "length (pre @ split_lines c buf) \<le> MAX_LINE_NUMBER"
    using Cons.prems(2) all sp hd by simp
  ultimately have "load_rest buf (arr (bufs_of pre @ [zbuf MAX_LINE_LENGTH c])) (int (length pre))
      = (arr (bufs_of (pre @ d') @ [zbuf MAX_LINE_LENGTH c']), int (length (pre @ d')), False)"
    using load_rest_lines [of pre c buf] sp by simp
  moreover have "buf \<noteq> []" using Cons.prems(1) by auto
  ultimately show ?case using Cons.IH [of "pre @ d'" c'] Cons.prems all by simp
qed simp

text \<open>Reading a file, however the kernel cuts it into chunks.\<close>

lemma load_file:
  assumes "[] \<notin> set chunks" "concat chunks = join_lines ls" "ls \<noteq> []"
    "length ls \<le> MAX_LINE_NUMBER" "\<forall>l \<in> set ls. line_fits l \<and> NEWLINE \<notin> set l"
  shows "load_chunks chunks empty_text 0 = (arr (bufs_of ls), int (length ls) - 1)"
proof -
  have "split_lines [] (concat chunks) = ls" using assms split_join_lines by simp
  with load_chunks_lines [of chunks "[]" "[]"] assms show ?thesis
    by (simp add: empty_text_arr)
qed

subsection \<open>Saving\<close>

lemma bytes_written_simps [simp]:
  "bytes_written fd [] = []" "bytes_written fd (a @ b) = bytes_written fd a @ bytes_written fd b"
  "bytes_written fd (Write fd' s # evs) = (if fd' = fd then s else []) @ bytes_written fd evs"
  "bytes_written fd (Unlink p # evs) = bytes_written fd evs"
  "bytes_written fd (Open p m # evs) = bytes_written fd evs"
  "bytes_written fd (Close fd' # evs) = bytes_written fd evs"
  by (simp_all add: bytes_written_def)

lemma events_ed_write [simp]: "events (ed_write fd s e) = events e @ [Write fd s]"
  by (simp add: ed_write_def)

lemma events_ed_printf [simp]: "events (ed_printf fd s as e) = events e @ [Write fd (fmt_out s as)]"
  by (simp add: ed_printf_def)

lemma save_lines_events:
  assumes "length bs < k"
  shows "\<exists>e'. save_lines fd (map Some bs @ replicate (k - length bs) None) e = Inr e' \<and> same_doc e e'
    \<and> (\<exists>evs. events e' = events e @ evs \<and> bytes_written fd evs = concat (map (\<lambda>b. NEWLINE # cstr b) bs))"
  using assms
proof (induction bs arbitrary: e k)
  case Nil
  then obtain j where "k = Suc j" by (cases k) auto
  then show ?case by simp
next
  case (Cons b bs)
  let ?e = "ed_write fd (cstr b) (ed_printf fd [NEWLINE] [] e)"
  have nl: "fmt_out [NEWLINE] [] = [NEWLINE]" by (simp add: fmt_out_def printf_literal)
  obtain j where k: "k = Suc j" "length bs < j" using Cons.prems by (cases k) auto
  obtain e' evs where e': "save_lines fd (map Some bs @ replicate (j - length bs) None) ?e = Inr e'"
      "same_doc ?e e'" "events e' = events ?e @ evs"
      "bytes_written fd evs = concat (map (\<lambda>b. NEWLINE # cstr b) bs)"
    using Cons.IH [OF k(2), of ?e] by blast
  have "same_doc e e'"
    by (rule same_doc_trans [OF same_doc_trans [OF same_doc_printf same_doc_write] e'(2)])
  with e' k nl show ?case
    by (intro exI [of _ e'] conjI exI [of _ "[Write fd [NEWLINE], Write fd (cstr b)] @ evs"]) simp_all
qed

lemma join_lines_Cons: "join_lines (l # ls) = l @ concat (map (\<lambda>l. NEWLINE # l) ls)"
  by (induction ls arbitrary: l) simp_all

lemma com_save_effect:
  assumes "doc_ok e" "opens e = fd # os" "fd \<noteq> - 1" "fd \<noteq> 1" "length (lines_of e) < MAX_LINE_NUMBER"
  shows "\<exists>e' evs. com_save path e = Inr e' \<and> changed e' = 0 \<and> lines_of e' = lines_of e
    \<and> events e' = events e @ Unlink path # evs \<and> bytes_written fd evs = join_lines (lines_of e)"
proof -
  obtain bs where t: "ed_text e = arr bs" "bs \<noteq> []" using assms(1) by (auto simp: doc_ok_def elim: text_okE)
  then obtain b cs where bs: "bs = b # cs" by (cases bs) auto
  have ls: "lines_of e = cstr b # map cstr cs" using t bs by (simp add: lines_of_def)
  let ?e = "e\<lparr>opens := os, events := (events e @ [Unlink path]) @ [Open path (O_WRONLY + O_CREATE)]\<rparr>"
  have o: "sys_open path (O_WRONLY + O_CREATE) (sys_unlink path e) = (fd, ?e)"
    using assms(2) by (simp add: sys_open_def sys_unlink_def)
  have tx: "ed_text e = Some b # map Some cs @ replicate (MAX_LINE_NUMBER - 1 - length cs) None"
    using t bs by (simp add: arr_def)
  obtain e1 evs where e1: "save_lines fd (map Some cs @ replicate (MAX_LINE_NUMBER - 1 - length cs) None)
        (ed_write fd (cstr b) ?e) = Inr e1" "same_doc (ed_write fd (cstr b) ?e) e1"
      "events e1 = events (ed_write fd (cstr b) ?e) @ evs"
      "bytes_written fd evs = concat (map (\<lambda>b. NEWLINE # cstr b) cs)"
    using save_lines_events [of cs "MAX_LINE_NUMBER - 1" fd "ed_write fd (cstr b) ?e"] assms(5) ls
    by auto
  have "lines_of e1 = lines_of e"
    using same_doc_ok(2) [OF e1(2)] same_doc_ok(2) [OF same_doc_write, of fd "cstr b" ?e]
    by (simp add: lines_of_def)
  then show ?thesis
    using o assms(3,4) tx e1 ls
    by (simp add: com_save_def Let_def sys_close_def join_lines_Cons comp_def
        same_doc_ok(2) [OF same_doc_printf])
qed

section \<open>Properties\<close>

text \<open>A hidden session with the given lines, for the examples.\<close>

definition sample_editor :: "string list \<Rightarrow> editor" where
  "sample_editor ls =
     \<lparr>ed_text = arr (bufs_of ls), changed = 0, auto_show = 0, line_number = int (length ls) - 1,
      command_set = replicate MAX_ROLLBAKC_STEP None, upper_bound = - 1, stdin = [], opens = [3],
      events = [], null_str = [], junk = (\<lambda>_. replicate MAX_LINE_LENGTH NUL), overrun = 0\<rparr>"

lemma sample_editor_simps [simp]:
  "auto_show (sample_editor ls) = 0" "null_str (sample_editor ls) = []"
  "opens (sample_editor ls) = [3]" "history (sample_editor ls) = []"
  by (simp_all add: sample_editor_def history_def)

lemma line_ok_zbuf: "line_fits l \<Longrightarrow> line_ok (zbuf MAX_LINE_LENGTH l)"
  by (simp add: line_fits_def line_ok_def)

lemma sample_editor_doc:
  assumes "ls \<noteq> []" "length ls \<le> MAX_LINE_NUMBER" "list_all line_fits ls"
  shows "doc_ok (sample_editor ls)" "lines_of (sample_editor ls) = ls"
proof -
  have "list_all line_ok (bufs_of ls)" using assms(3) by (auto simp: list_all_iff intro: line_ok_zbuf)
  then show "doc_ok (sample_editor ls)"
    using assms(1,2) by (simp add: doc_ok_def sample_editor_def history_ok_def list_all_iff)
  have "map cstr (bufs_of ls) = ls" using assms(3) by (induction ls) (simp_all add: line_fits_def)
  then show "lines_of (sample_editor ls) = ls" by (simp add: lines_of_def sample_editor_def)
qed

lemma cstr_Nil [simp]: "cstr [] = []"
  by (simp add: cstr_def)

text \<open>
  C6. In every state that the editor can reach, from any command line, any file contents cut into
  any chunks, any keyboard input and any sequence of commands, the text is a non-empty run of at
  most 256 terminated 256-byte lines followed by null pointers only, \<^verbatim>\<open>line_number\<close> is the index of
  the last line, and the history holds at most twenty well-formed commands.
\<close>

theorem editor_invariant:
  assumes "fresh e0" "main_start argv chunks e0 = Inr e1" "(\<lambda>e e'. main_step path e = Inr e')\<^sup>*\<^sup>* e1 e"
  shows "ed_inv e"
  using assms(3) by induction (use assms(1,2) main_start_inv main_step_inv in blast)+

theorem editor_invariant_witness:
  "\<exists>e1. main_start [''editor'', ''f''] [''ab'', ''c'' @ [NEWLINE]] (sample_editor [[]]) = Inr e1 \<and> ed_inv e1"
proof -
  have "load_chunks [''ab'', ''c'' @ [NEWLINE]] empty_text 0 = (arr (bufs_of [''abc'', []]), 1)"
    using load_file [of "[''ab'', ''c'' @ [NEWLINE]]" "[''abc'', []]"] by (simp add: line_fits_def)
  then obtain e1 where e1: "main_start [''editor'', ''f''] [''ab'', ''c'' @ [NEWLINE]] (sample_editor [[]]) = Inr e1"
    by (simp add: main_start_def sys_open_def sys_close_def sample_editor_def Let_def)
  have "fresh (sample_editor [[]])" by (simp add: fresh_def sample_editor_def list_all_iff)
  from editor_invariant [OF this e1 rtranclp.rtrancl_refl] e1 show ?thesis by blast
qed



text \<open>
  C19. \<^verbatim>\<open>del-n\<close> refines list deletion: line \<open>n\<close> goes and the later lines move up, the only line of
  a text is emptied instead, and the history does not change. With all 256 lines in use the
  command reads the array entry \<^verbatim>\<open>text[256]\<close>, which does not exist.
\<close>

theorem com_del_refines:
  assumes "doc_ok e" "1 \<le> n" "n \<le> length (lines_of e)"
  shows "if length (lines_of e) = MAX_LINE_NUMBER
    then com_del (int n) flag e = Inl (Faulted (OutOfBounds ''text''))
    else \<exists>e'. com_del (int n) flag e = refresh e' \<and> doc_ok e' \<and> changed e' = 1
      \<and> lines_of e' = spec_del n (lines_of e) \<and> history e' = history e"
proof (cases "length (lines_of e) = MAX_LINE_NUMBER")
  case True
  with com_del_full [OF assms] show ?thesis by simp
next
  case False
  with doc_ok_lines [OF assms(1)] have "length (lines_of e) < MAX_LINE_NUMBER" by simp
  from com_del_effect [OF assms this, of flag] False show ?thesis by (auto simp: edited_def)
qed

theorem com_del_refines_witness:
  "\<exists>e'. com_del 1 1 (sample_editor [''a'', ''b'']) = refresh e' \<and> lines_of e' = [''b'']"
proof -
  have d: "doc_ok (sample_editor [''a'', ''b''])" "lines_of (sample_editor [''a'', ''b'']) = [''a'', ''b'']"
    by (rule sample_editor_doc; simp add: line_fits_def)+
  from com_del_refines [OF d(1), of 1 1] d(2) show ?thesis by (auto simp: spec_del_def)
qed



text \<open>
  C10. Saving and loading: \<^verbatim>\<open>save\<close> deletes the old file and writes the lines separated by newlines;
  reading these bytes back, in whatever non-empty chunks \<^verbatim>\<open>read\<close> delivers them, gives the same
  lines, for every text of less than 256 lines without embedded newlines.
\<close>

theorem save_load_roundtrip:
  assumes "doc_ok e" "opens e = fd # os" "fd \<noteq> - 1" "fd \<noteq> 1" "length (lines_of e) < MAX_LINE_NUMBER"
    "\<forall>l \<in> set (lines_of e). NEWLINE \<notin> set l"
  shows "\<exists>e' evs. com_save path e = Inr e' \<and> changed e' = 0 \<and> events e' = events e @ Unlink path # evs
    \<and> (\<forall>chunks. [] \<notin> set chunks \<and> concat chunks = bytes_written fd evs \<longrightarrow>
         load_chunks chunks empty_text 0
           = (arr (bufs_of (lines_of e)), int (length (lines_of e)) - 1))"
proof -
  have "\<forall>l \<in> set (lines_of e). line_fits l"
    using assms(1) by (auto simp: doc_ok_def lines_of_def line_fits_def list_all_iff line_ok_length
        elim!: text_okE)
  with com_save_effect [OF assms(1-5), of path] load_file [of _ "lines_of e"] doc_ok_lines [OF assms(1)]
    assms(6) show ?thesis by fastforce
qed

theorem save_load_roundtrip_witness:
  "\<exists>e' evs. com_save ''f'' (sample_editor [''a'', ''b'']) = Inr e'
     \<and> events e' = Unlink ''f'' # evs \<and> (\<forall>chunks. [] \<notin> set chunks \<and> concat chunks = bytes_written 3 evs \<longrightarrow>
         load_chunks chunks empty_text 0 = (arr (bufs_of [''a'', ''b'']), 1))"
proof -
  have d: "doc_ok (sample_editor [''a'', ''b''])" "lines_of (sample_editor [''a'', ''b'']) = [''a'', ''b'']"
    by (rule sample_editor_doc; simp add: line_fits_def)+
  have "events (sample_editor [''a'', ''b'']) = []" by (simp add: sample_editor_def)
  with save_load_roundtrip [OF d(1) sample_editor_simps(3), of "''f''"] d(2) show ?thesis by auto
qed

end
