(* ===== verification/Grep.thy ===== *)
theory Grep
  imports C_Strings
begin

text \<open>
  \<^verbatim>\<open>grep.c\<close>: the regular expression matcher, the loop that cuts the input into lines inside one
  1024-byte buffer, and \<^verbatim>\<open>main\<close>. The matcher is compared with the set of strings that a pattern
  denotes.
\<close>

section \<open>The matcher\<close>

text \<open>
  Patterns and texts are C strings, so the tests for \<^verbatim>\<open>'\0'\<close> are tests for the end of the list.
  \<^verbatim>\<open>matchhere\<close> looks at \<^verbatim>\<open>re[1]\<close> before \<^verbatim>\<open>re[0]\<close>: any character before a star is repeated,
  \<^verbatim>\<open>$\<close> included.
\<close>

function matchhere :: "string \<Rightarrow> string \<Rightarrow> bool"
  and matchstar :: "char \<Rightarrow> string \<Rightarrow> string \<Rightarrow> bool" where
  "matchhere re t =
     (case re of
        [] \<Rightarrow> True
      | c # re1 \<Rightarrow>
          if re1 \<noteq> [] \<and> hd re1 = CHR ''*'' then matchstar c (tl re1) t
          else if c = CHR ''$'' \<and> re1 = [] then t = []
          else case t of
              [] \<Rightarrow> False
            | x # t1 \<Rightarrow> (c = CHR ''.'' \<or> c = x) \<and> matchhere re1 t1)"
| "matchstar c re t =
     (matchhere re t \<or>
      (case t of [] \<Rightarrow> False | x # t1 \<Rightarrow> (x = c \<or> c = CHR ''.'') \<and> matchstar c re t1))"
  by pat_completeness auto

termination
  by (relation "measures
      [\<lambda>a. case a of Inl (re, t) \<Rightarrow> length re | Inr (c, re, t) \<Rightarrow> length re,
       \<lambda>a. case a of Inl (re, t) \<Rightarrow> length t | Inr (c, re, t) \<Rightarrow> length t,
       \<lambda>a. case a of Inl _ \<Rightarrow> 0 | Inr _ \<Rightarrow> 1]") auto

declare matchhere.simps [simp del] matchstar.simps [simp del]

lemma matchhere_simps [simp]:
  "matchhere [] t"
  "matchhere (c # re) t =
     (if re \<noteq> [] \<and> hd re = CHR ''*'' then matchstar c (tl re) t
      else if c = CHR ''$'' \<and> re = [] then t = []
      else case t of [] \<Rightarrow> False | x # t1 \<Rightarrow> (c = CHR ''.'' \<or> c = x) \<and> matchhere re t1)"
  by (simp_all add: matchhere.simps [of "[]"] matchhere.simps [of "c # re"])

text \<open>The loop of \<^verbatim>\<open>match\<close> also tries the empty rest of the text.\<close>

fun match_anywhere :: "string \<Rightarrow> string \<Rightarrow> bool" where
  "match_anywhere re [] = matchhere re []"
| "match_anywhere re (x # t) = (matchhere re (x # t) \<or> match_anywhere re t)"

definition match_re :: "string \<Rightarrow> string \<Rightarrow> bool" where
  "match_re re t = (if re \<noteq> [] \<and> hd re = CHR ''^'' then matchhere (tl re) t else match_anywhere re t)"

section \<open>Searching the input\<close>

text \<open>
  \<^verbatim>\<open>strchr(p, '\n')\<close> on the buffer. A NUL ends the search; without one it runs past the end of
  the array.
\<close>

fun find_newline :: "nat \<Rightarrow> buffer \<Rightarrow> fault + nat option" where
  "find_newline i [] = Inl (OutOfBounds ''buf'')"
| "find_newline i (c # b) =
     (if c = NUL then Inr None else if c = NEWLINE then Inr (Some i) else find_newline (Suc i) b)"

lemma find_newline_bounds:
  "find_newline i b = Inr (Some q) \<Longrightarrow> i \<le> q \<and> q < i + length b"
  by (induction i b rule: find_newline.induct) (auto split: if_splits)

text \<open>
  The inner loop: the buffer, \<^verbatim>\<open>p\<close> and the bytes written so far. A line that does not match keeps
  the NUL stored over its newline.
\<close>

function grep_lines :: "string \<Rightarrow> buffer \<Rightarrow> nat \<Rightarrow> string \<Rightarrow> fault + (buffer \<times> nat \<times> string)" where
  "grep_lines pattern buf p out =
     (case find_newline p (drop p buf) of
        Inl f \<Rightarrow> Inl f
      | Inr None \<Rightarrow> Inr (buf, p, out)
      | Inr (Some q) \<Rightarrow>
          (let buf1 = buf[q := NUL] in
           if match_re pattern (cstr (drop p buf1))
           then let buf2 = buf1[q := NEWLINE]
             in grep_lines pattern buf2 (q + 1) (out @ take (q + 1 - p) (drop p buf2))
           else grep_lines pattern buf1 (q + 1) out))"
  by pat_completeness auto

termination
  by (relation "measure (\<lambda>(pattern, buf, p, out). length buf - p)")
    (auto dest: find_newline_bounds)

declare grep_lines.simps [simp del]

abbreviation (input) GREP_BUF :: nat where
  "GREP_BUF \<equiv> 1024"

text \<open>\<^verbatim>\<open>read(fd, buf+m, sizeof(buf)-m)\<close> with the bytes that the kernel delivers.\<close>

definition read_at :: "buffer \<Rightarrow> nat \<Rightarrow> string \<Rightarrow> buffer" where
  "read_at buf m s = take m buf @ s @ drop (m + length s) buf"

text \<open>
  The outer loop over the results of the successive \<^verbatim>\<open>read\<close> calls; an empty one is the end of the
  file. The buffer is a global variable: its contents stay for the next call.
\<close>

fun grep_loop :: "string \<Rightarrow> string list \<Rightarrow> buffer \<Rightarrow> nat \<Rightarrow> string \<Rightarrow> fault + (buffer \<times> string)" where
  "grep_loop pattern [] buf m out = Inr (buf, out)"
| "grep_loop pattern (s # reads) buf m out =
     (if s = [] then Inr (buf, out)
      else case grep_lines pattern (read_at buf m s) 0 out of
          Inl f \<Rightarrow> Inl f
        | Inr (buf1, p, out1) \<Rightarrow>
            (let m1 = (if p = 0 then 0 else m + length s) in
             if m1 > 0
             then grep_loop pattern reads (read_at buf1 0 (take (m1 - p) (drop p buf1))) (m1 - p) out1
             else grep_loop pattern reads buf1 m1 out1))"

definition grep :: "string \<Rightarrow> string list \<Rightarrow> buffer \<Rightarrow> fault + (buffer \<times> string)" where
  "grep pattern reads buf = grep_loop pattern reads buf 0 []"

text \<open>
  \<^verbatim>\<open>main\<close>, with the kernel's answers as parameters: \<open>opn\<close> gives the descriptor for a path and
  \<open>reads\<close> the chunks delivered from a descriptor. The result lists the bytes sent to each
  descriptor.
\<close>

fun grep_files :: "string \<Rightarrow> (string \<Rightarrow> int) \<Rightarrow> (int \<Rightarrow> string list) \<Rightarrow> string list \<Rightarrow> buffer
    \<Rightarrow> (int \<times> string) list \<Rightarrow> fault + (int \<times> string) list" where
  "grep_files pattern opn reads [] buf out = Inr out"
| "grep_files pattern opn reads (f # fs) buf out =
     (if opn f < 0 then Inr (out @ [(1, ''grep: cannot open '' @ f @ [NEWLINE])])
      else case grep pattern (reads (opn f)) buf of
          Inl e \<Rightarrow> Inl e
        | Inr (buf1, s) \<Rightarrow> grep_files pattern opn reads fs buf1 (out @ [(1, s)]))"

definition grep_main :: "string list \<Rightarrow> (string \<Rightarrow> int) \<Rightarrow> (int \<Rightarrow> string list) \<Rightarrow> fault + (int \<times> string) list" where
  "grep_main argv opn reads =
     (let buf = replicate GREP_BUF NUL in
      case argv of
        (_ # pattern # files) \<Rightarrow>
          if files = []
          then (case grep pattern (reads 0) buf of Inl e \<Rightarrow> Inl e | Inr (buf1, s) \<Rightarrow> Inr [(1, s)])
          else grep_files pattern opn reads files buf []
      | _ \<Rightarrow> Inr [(2, ''usage: grep pattern [file ...]'' @ [NEWLINE])])"

section \<open>What a pattern denotes\<close>

datatype item = One char | Star char | End

fun items :: "string \<Rightarrow> item list" where
  "items [] = []"
| "items [c] = [if c = CHR ''$'' then End else One c]"
| "items (c # d # re) = (if d = CHR ''*'' then Star c # items re else One c # items (d # re))"

definition accepts :: "char \<Rightarrow> char \<Rightarrow> bool" where
  "accepts c x \<longleftrightarrow> c = CHR ''.'' \<or> c = x"

text \<open>The texts that begin with a match of the items.\<close>

fun lang :: "item list \<Rightarrow> string set" where
  "lang [] = UNIV"
| "lang (One c # is) = {x # t | x t. accepts c x \<and> t \<in> lang is}"
| "lang (Star c # is) = {u @ t | u t. (\<forall>x \<in> set u. accepts c x) \<and> t \<in> lang is}"
| "lang (End # is) = {t. t = [] \<and> t \<in> lang is}"

definition denotes :: "string \<Rightarrow> string \<Rightarrow> bool" where
  "denotes re t \<longleftrightarrow>
     (if re \<noteq> [] \<and> hd re = CHR ''^'' then t \<in> lang (items (tl re))
      else \<exists>u v. t = u @ v \<and> v \<in> lang (items re))"

lemma lang_StarE:
  "t \<in> lang (Star c # is) \<longleftrightarrow>
     t \<in> lang is \<or> (\<exists>x t1. t = x # t1 \<and> accepts c x \<and> t1 \<in> lang (Star c # is))"
proof
  assume "t \<in> lang (Star c # is)"
  then obtain u v where t: "t = u @ v" and u: "\<forall>x \<in> set u. accepts c x" and v: "v \<in> lang is" by auto
  show "t \<in> lang is \<or> (\<exists>x t1. t = x # t1 \<and> accepts c x \<and> t1 \<in> lang (Star c # is))"
  proof (cases u)
    case Nil
    with t v show ?thesis by simp
  next
    case (Cons x w)
    with t u v show ?thesis by auto
  qed
next
  assume r: "t \<in> lang is \<or> (\<exists>x t1. t = x # t1 \<and> accepts c x \<and> t1 \<in> lang (Star c # is))"
  show "t \<in> lang (Star c # is)"
  proof (cases "t \<in> lang is")
    case True
    then have "t = [] @ t \<and> (\<forall>x \<in> set []. accepts c x) \<and> t \<in> lang is" by simp
    then show ?thesis unfolding lang.simps by blast
  next
    case False
    with r obtain x u v where "t = (x # u) @ v" "\<forall>y \<in> set (x # u). accepts c y" "v \<in> lang is" by auto
    then show ?thesis unfolding lang.simps by blast
  qed
qed

lemma matcher_lang:
  "matchhere re t \<longleftrightarrow> t \<in> lang (items re)"
  "matchstar c re t \<longleftrightarrow> t \<in> lang (Star c # items re)"
proof (induction re t and c re t rule: matchhere_matchstar.induct)
  case (1 re t)
  show ?case
  proof (cases re rule: items.cases)
    case 1
    then show ?thesis by simp
  next
    case (2 c)
    with 1 show ?thesis
      by (cases t) (auto simp: accepts_def)
  next
    case (3 c d re1)
    with 1 show ?thesis
      by (cases t) (auto simp: accepts_def simp del: lang.simps(3))
  qed
next
  case (2 c re t)
  show ?case
    by (subst matchstar.simps, subst lang_StarE)
      (use 2 in \<open>auto simp: accepts_def simp del: lang.simps split: list.splits\<close>)
qed

lemma match_anywhere_iff: "match_anywhere re t \<longleftrightarrow> (\<exists>u v. t = u @ v \<and> matchhere re v)"
  by (induction re t rule: match_anywhere.induct) (auto simp: Cons_eq_append_conv)

section \<open>The line loop\<close>

definition text_of :: "string list \<Rightarrow> string" where
  "text_of ls = concat (map (\<lambda>l. l @ [NEWLINE]) ls)"

text \<open>The lines in the buffer after the loop: a NUL has replaced the newline of those not printed.\<close>

definition scanned :: "string \<Rightarrow> string list \<Rightarrow> string" where
  "scanned pattern ls = concat (map (\<lambda>l. l @ [if match_re pattern l then NEWLINE else NUL]) ls)"

definition plain_line :: "string \<Rightarrow> bool" where
  "plain_line l \<longleftrightarrow> nul_free l \<and> NEWLINE \<notin> set l"

lemma length_scanned [simp]: "length (scanned pattern ls) = length (text_of ls)"
  by (induction ls) (simp_all add: scanned_def text_of_def)

lemma find_newline_line:
  "plain_line l \<Longrightarrow> find_newline i (l @ NEWLINE # r) = Inr (Some (i + length l))"
  by (induction l arbitrary: i) (auto simp: plain_line_def)

lemma grep_lines_step:
  assumes "find_newline p (drop p buf) = Inr (Some q)"
  shows "grep_lines pattern buf p out =
    (if match_re pattern (cstr (drop p (buf[q := NUL])))
     then grep_lines pattern (buf[q := NEWLINE]) (q + 1)
       (out @ take (q + 1 - p) (drop p (buf[q := NEWLINE])))
     else grep_lines pattern (buf[q := NUL]) (q + 1) out)"
  by (subst grep_lines.simps) (simp add: assms Let_def)

lemma grep_lines_text:
  assumes "\<forall>l \<in> set ls. plain_line l"
  shows "grep_lines pattern (pre @ text_of ls @ NUL # rest) (length pre) out
    = Inr (pre @ scanned pattern ls @ NUL # rest, length pre + length (text_of ls),
        out @ text_of (filter (match_re pattern) ls))"
  using assms
proof (induction ls arbitrary: pre out)
  case Nil
  show ?case by (simp add: grep_lines.simps text_of_def scanned_def)
next
  case (Cons l ls)
  let ?buf = "pre @ text_of (l # ls) @ NUL # rest"
  let ?q = "length pre + length l"
  have buf: "?buf = pre @ l @ NEWLINE # text_of ls @ NUL # rest" by (simp add: text_of_def)
  have l: "plain_line l" "nul_free l" using Cons.prems by (simp_all add: plain_line_def)
  have upd: "?buf[?q := c] = (pre @ l @ [c]) @ text_of ls @ NUL # rest" for c
    unfolding buf by (simp add: list_update_append)
  have find: "find_newline (length pre) (drop (length pre) ?buf) = Inr (Some ?q)"
    unfolding buf using find_newline_line [OF l(1)] by simp
  have cs: "cstr (drop (length pre) (?buf[?q := NUL])) = l"
    unfolding upd using cstr_append_NUL [OF l(2)] by simp
  show ?case
  proof (cases "match_re pattern l")
    case True
    have "?buf[?q := NEWLINE] = ?buf" unfolding upd by (simp add: buf)
    moreover have "take (?q + 1 - length pre) (drop (length pre) ?buf) = l @ [NEWLINE]" unfolding buf by simp
    ultimately have "grep_lines pattern ?buf (length pre) out
        = grep_lines pattern ?buf (?q + 1) (out @ l @ [NEWLINE])"
      using True by (simp only: grep_lines_step [OF find] cs if_True)
    with Cons.IH [of "pre @ l @ [NEWLINE]" "out @ l @ [NEWLINE]"] Cons.prems True show ?thesis
      by (simp add: buf scanned_def text_of_def)
  next
    case False
    have "grep_lines pattern ?buf (length pre) out = grep_lines pattern (?buf[?q := NUL]) (?q + 1) out"
      using False by (simp only: grep_lines_step [OF find] cs if_False)
    with Cons.IH [of "pre @ l @ [NUL]" out] Cons.prems False show ?thesis
      unfolding upd by (simp add: scanned_def text_of_def)
  qed
qed

lemma text_of_empty [simp]: "text_of ls = [] \<longleftrightarrow> ls = []"
  by (cases ls) (simp_all add: text_of_def)

lemma grep_loop_text:
  assumes "\<forall>l \<in> set ls. plain_line l" "read_at buf 0 s = text_of ls @ NUL # rest" "s \<noteq> []" "ls \<noteq> []"
    "length s \<le> length (text_of ls)"
  shows "grep_loop pattern (s # reads) buf 0 out
    = grep_loop pattern reads (scanned pattern ls @ NUL # rest) 0
        (out @ text_of (filter (match_re pattern) ls))"
proof -
  have "grep_lines pattern (read_at buf 0 s) 0 out
      = Inr (scanned pattern ls @ NUL # rest, length (text_of ls), out @ text_of (filter (match_re pattern) ls))"
    using grep_lines_text [OF assms(1), of pattern "[]" rest out] assms(2) by simp
  with assms(3-5) show ?thesis by (simp add: read_at_def)
qed

lemma match_denotes_filter: "filter (match_re re) ls = filter (denotes re) ls"
proof -
  have "match_re re = denotes re"
    by (rule ext) (simp add: match_re_def denotes_def match_anywhere_iff matcher_lang(1))
  then show ?thesis by simp
qed

section \<open>Properties\<close>

text \<open>
  C16. The matcher is correct: \<^verbatim>\<open>match\<close> returns 1 exactly when the text contains (or, after \<^verbatim>\<open>^\<close>,
  begins with) a string denoted by the pattern, where \<^verbatim>\<open>.\<close> stands for any character, \<^verbatim>\<open>c*\<close> for
  any number of \<^verbatim>\<open>c\<close> and a final \<^verbatim>\<open>$\<close> for the end of the text.
\<close>

theorem match_denotes: "match_re re t \<longleftrightarrow> denotes re t"
  by (simp add: match_re_def denotes_def match_anywhere_iff matcher_lang(1))

text \<open>
  C30. When one \<^verbatim>\<open>read\<close> delivers whole lines and leaves room in the buffer, \<^verbatim>\<open>grep\<close> prints exactly
  the lines that contain a match, in their order.
\<close>

theorem grep_prints_matching_lines:
  assumes "\<forall>l \<in> set ls. plain_line l" "length (text_of ls) < GREP_BUF"
  shows "\<exists>buf. grep pattern [text_of ls] (replicate GREP_BUF NUL)
    = Inr (buf, text_of (filter (denotes pattern) ls))"
proof (cases "ls = []")
  case True
  then show ?thesis by (simp add: grep_def text_of_def)
next
  case False
  obtain k where k: "GREP_BUF - length (text_of ls) = Suc k" using assms(2) by (metis Suc_diff_Suc)
  have "read_at (replicate GREP_BUF NUL) 0 (text_of ls) = text_of ls @ NUL # replicate k NUL"
    using k by (simp add: read_at_def)
  moreover have "filter (match_re pattern) ls = filter (denotes pattern) ls"
    by (rule match_denotes_filter)
  ultimately show ?thesis
    using grep_loop_text [OF assms(1), of "replicate GREP_BUF NUL" "text_of ls" _ pattern "[]" "[]"] False
    by (simp add: grep_def)
qed

theorem grep_prints_witness:
  "\<exists>buf. grep ''a.c'' [text_of [''abc'', ''xyz'']] (replicate GREP_BUF NUL)
    = Inr (buf, text_of (filter (denotes ''a.c'') [''abc'', ''xyz'']))"
  by (rule grep_prints_matching_lines) (simp_all add: plain_line_def text_of_def)



end
