(* ===== verification/Byte_Queue.thy ===== *)
theory Byte_Queue
  imports Prelude
begin

text \<open>
  The contract of a bounded queue of bytes, as the pipe and the console's input buffer implement
  it, and what follows from it for the loops that fill and drain such a queue.
\<close>

section \<open>Loops over a queue\<close>

text \<open>Store bytes until the queue is full; the bytes that did not fit, and the queue.\<close>

fun fill :: "('q \<Rightarrow> bool) \<Rightarrow> (char \<Rightarrow> 'q \<Rightarrow> 'q) \<Rightarrow> string \<Rightarrow> 'q \<Rightarrow> string \<times> 'q" where
  "fill is_full put [] q = ([], q)"
| "fill is_full put (c # s) q = (if is_full q then (c # s, q) else fill is_full put s (put c q))"

text \<open>Fetch at most \<open>n\<close> bytes.\<close>

primrec drain :: "('q \<Rightarrow> bool) \<Rightarrow> ('q \<Rightarrow> char \<times> 'q) \<Rightarrow> nat \<Rightarrow> 'q \<Rightarrow> string \<times> 'q" where
  "drain is_empty get 0 q = ([], q)"
| "drain is_empty get (Suc n) q =
     (if is_empty q then ([], q)
      else let (c, q1) = get q; (s, q2) = drain is_empty get n q1 in (c # s, q2))"

text \<open>Any interleaving of bursts of writers and readers; what was accepted and what was delivered.\<close>

datatype burst = Fill string | Drain nat

fun bursts :: "('q \<Rightarrow> bool) \<Rightarrow> ('q \<Rightarrow> bool) \<Rightarrow> (char \<Rightarrow> 'q \<Rightarrow> 'q) \<Rightarrow> ('q \<Rightarrow> char \<times> 'q)
    \<Rightarrow> burst list \<Rightarrow> 'q \<Rightarrow> string \<times> string \<times> 'q" where
  "bursts is_full is_empty put get [] q = ([], [], q)"
| "bursts is_full is_empty put get (Fill s # bs) q =
     (let (r, q1) = fill is_full put s q; (ins, outs, q2) = bursts is_full is_empty put get bs q1
      in (take (length s - length r) s @ ins, outs, q2))"
| "bursts is_full is_empty put get (Drain n # bs) q =
     (let (d, q1) = drain is_empty get n q; (ins, outs, q2) = bursts is_full is_empty put get bs q1
      in (ins, d @ outs, q2))"

section \<open>The contract\<close>

locale byte_queue =
  fixes cap :: nat
    and invar :: "'q \<Rightarrow> bool"
    and cont :: "'q \<Rightarrow> string"
    and is_full :: "'q \<Rightarrow> bool"
    and is_empty :: "'q \<Rightarrow> bool"
    and put :: "char \<Rightarrow> 'q \<Rightarrow> 'q"
    and get :: "'q \<Rightarrow> char \<times> 'q"
  assumes cap_pos: "0 < cap"
    and bounded: "invar q \<Longrightarrow> length (cont q) \<le> cap"
    and full_iff: "invar q \<Longrightarrow> is_full q \<longleftrightarrow> length (cont q) = cap"
    and empty_iff: "invar q \<Longrightarrow> is_empty q \<longleftrightarrow> cont q = []"
    and put_inv: "invar q \<Longrightarrow> length (cont q) < cap \<Longrightarrow> invar (put c q)"
    and put_cont: "invar q \<Longrightarrow> length (cont q) < cap \<Longrightarrow> cont (put c q) = cont q @ [c]"
    and get_inv: "invar q \<Longrightarrow> cont q \<noteq> [] \<Longrightarrow> invar (snd (get q))"
    and get_cont: "invar q \<Longrightarrow> cont q \<noteq> [] \<Longrightarrow> cont q = fst (get q) # cont (snd (get q))"
begin

lemma fill_spec:
  "invar q \<Longrightarrow> fill is_full put s q = (r, q') \<Longrightarrow>
     invar q' \<and> r = drop (cap - length (cont q)) s \<and> cont q' = cont q @ take (cap - length (cont q)) s"
proof (induction s arbitrary: q q')
  case (Cons c s)
  show ?case
  proof (cases "is_full q")
    case True
    with Cons.prems full_iff show ?thesis by auto
  next
    case False
    with Cons.prems(1) full_iff bounded [OF Cons.prems(1)] have l: "length (cont q) < cap" by auto
    then have k: "cap - length (cont q) = Suc (cap - Suc (length (cont q)))" by simp
    with Cons.IH [OF put_inv [OF Cons.prems(1) l, of c]] Cons.prems False put_cont [OF Cons.prems(1) l, of c]
    show ?thesis by auto
  qed
qed auto

lemma drain_spec:
  "invar q \<Longrightarrow> drain is_empty get n q = (s, q') \<Longrightarrow>
     invar q' \<and> s = take n (cont q) \<and> cont q' = drop n (cont q)"
proof (induction n arbitrary: q s q')
  case (Suc n)
  show ?case
  proof (cases "is_empty q")
    case True
    with Suc.prems empty_iff show ?thesis by auto
  next
    case False
    with Suc.prems(1) empty_iff have ne: "cont q \<noteq> []" by blast
    obtain c q1 where g: "get q = (c, q1)" by fastforce
    obtain s1 q2 where d: "drain is_empty get n q1 = (s1, q2)" by fastforce
    have c: "invar q1" "cont q = c # cont q1"
      using get_inv [OF Suc.prems(1) ne] get_cont [OF Suc.prems(1) ne] g by simp_all
    have "s = c # s1" "q' = q2" using Suc.prems(2) False g d by simp_all
    with Suc.IH [OF c(1) d] c(2) show ?thesis by simp
  qed
qed auto

text \<open>First in, first out: nothing is lost, duplicated or reordered.\<close>

lemma bursts_fifo:
  "invar q \<Longrightarrow> bursts is_full is_empty put get bs q = (ins, outs, q') \<Longrightarrow>
     invar q' \<and> cont q @ ins = outs @ cont q'"
proof (induction bs arbitrary: q ins outs q')
  case (Cons b bs)
  show ?case
  proof (cases b)
    case (Fill s)
    obtain r q1 where f: "fill is_full put s q = (r, q1)" by fastforce
    obtain i o1 q2 where b: "bursts is_full is_empty put get bs q1 = (i, o1, q2)" by (metis prod_cases3)
    have r: "ins = take (length s - length r) s @ i" "outs = o1" "q' = q2"
      using Cons.prems(2) Fill f b by simp_all
    have "take (length s - length r) s = take (cap - length (cont q)) s"
      using fill_spec [OF Cons.prems(1) f] by (cases "cap - length (cont q) \<le> length s") simp_all
    with Cons.IH [of q1] fill_spec [OF Cons.prems(1) f] b r show ?thesis by auto
  next
    case (Drain n)
    obtain d q1 where f: "drain is_empty get n q = (d, q1)" by fastforce
    obtain i o1 q2 where b: "bursts is_full is_empty put get bs q1 = (i, o1, q2)" by (metis prod_cases3)
    have r: "ins = i" "outs = d @ o1" "q' = q2" using Cons.prems(2) Drain f b by simp_all
    have "cont q @ i = d @ cont q1 @ i"
      using drain_spec [OF Cons.prems(1) f] append_take_drop_id [of n "cont q"] by (metis append_assoc)
    with Cons.IH [of q1] drain_spec [OF Cons.prems(1) f] b r show ?thesis by auto
  qed
qed auto

end

end
