(* ===== verification/Pipe.thy ===== *)
theory Pipe
  imports Byte_Queue
begin

text \<open>
  \<^verbatim>\<open>pipe.c\<close>: the 512-byte ring buffer between a writer and a reader. An operation is the critical
  section between two \<^verbatim>\<open>sleep\<close> calls: it ends by returning to the caller or by going to sleep
  with the rest of its work, and it reports the channels it has woken up. \<^verbatim>\<open>nread\<close> and \<^verbatim>\<open>nwrite\<close>
  are 32-bit counters that run for ever and wrap around.
\<close>

section \<open>The ring buffer\<close>

abbreviation (input) PIPESIZE :: nat where
  "PIPESIZE \<equiv> 512"

record pipe =
  data :: string
  nread :: uint
  nwrite :: uint
  readopen :: int
  writeopen :: int

definition pipe_put :: "char \<Rightarrow> pipe \<Rightarrow> pipe" where
  "pipe_put c p =
     p\<lparr>data := (data p)[unat (nwrite p) mod PIPESIZE := c], nwrite := nwrite p + 1\<rparr>"

definition pipe_get :: "pipe \<Rightarrow> char \<times> pipe" where
  "pipe_get p = (data p ! (unat (nread p) mod PIPESIZE), p\<lparr>nread := nread p + 1\<rparr>)"

definition pipe_full :: "pipe \<Rightarrow> bool" where
  "pipe_full p \<longleftrightarrow> nwrite p = nread p + of_nat PIPESIZE"

definition pipe_empty :: "pipe \<Rightarrow> bool" where
  "pipe_empty p \<longleftrightarrow> nread p = nwrite p"

text \<open>The part of \<^verbatim>\<open>pipealloc\<close> that sets up the page obtained for the pipe.\<close>

definition pipe_init :: "string \<Rightarrow> pipe" where
  "pipe_init page = \<lparr>data = page, nread = 0, nwrite = 0, readopen = 1, writeopen = 1\<rparr>"

section \<open>Operations\<close>

text \<open>The addresses \<^verbatim>\<open>&p->nread\<close> and \<^verbatim>\<open>&p->nwrite\<close> that processes sleep on.\<close>

datatype chan = NRead | NWrite

text \<open>
  How a critical section ends: with a return value, or asleep with the bytes still to be
  written.
\<close>

datatype outcome = Return int | Sleep chan string

fun pipewrite_loop :: "bool \<Rightarrow> int \<Rightarrow> string \<Rightarrow> pipe \<Rightarrow> outcome \<times> chan list \<times> pipe" where
  "pipewrite_loop killed n [] p = (Return n, [NRead], p)"
| "pipewrite_loop killed n (c # s) p =
     (if pipe_full p
      then if readopen p = 0 \<or> killed then (Return (- 1), [], p)
           else (Sleep NWrite (c # s), [NRead], p)
      else pipewrite_loop killed n s (pipe_put c p))"

definition pipewrite :: "bool \<Rightarrow> string \<Rightarrow> pipe \<Rightarrow> outcome \<times> chan list \<times> pipe" where
  "pipewrite killed addr p = pipewrite_loop killed (int (length addr)) addr p"

text \<open>\<^verbatim>\<open>piperead\<close> also returns the bytes copied to the caller.\<close>

definition piperead :: "bool \<Rightarrow> nat \<Rightarrow> pipe \<Rightarrow> outcome \<times> string \<times> chan list \<times> pipe" where
  "piperead killed n p =
     (if pipe_empty p \<and> writeopen p \<noteq> 0
      then if killed then (Return (- 1), [], [], p) else (Sleep NRead [], [], [], p)
      else let (s, p1) = drain pipe_empty pipe_get n p
        in (Return (int (length s)), s, [NWrite], p1))"

text \<open>\<^verbatim>\<open>pipeclose\<close>; the flag says that the page of the pipe has been freed.\<close>

definition pipeclose :: "bool \<Rightarrow> pipe \<Rightarrow> chan list \<times> bool \<times> pipe" where
  "pipeclose writable p =
     (let p1 = (if writable then p\<lparr>writeopen := 0\<rparr> else p\<lparr>readopen := 0\<rparr>);
          woken = (if writable then [NRead] else [NWrite])
      in (woken, readopen p1 = 0 \<and> writeopen p1 = 0, p1))"

section \<open>The queue that the ring buffer holds\<close>

definition pipe_inv :: "pipe \<Rightarrow> bool" where
  "pipe_inv p \<longleftrightarrow> length (data p) = PIPESIZE \<and> unat (nwrite p - nread p) \<le> PIPESIZE"

definition pipe_contents :: "pipe \<Rightarrow> string" where
  "pipe_contents p =
     map (\<lambda>k. data p ! ((unat (nread p) + k) mod PIPESIZE)) [0..<unat (nwrite p - nread p)]"

text \<open>The counters wrap at a multiple of the ring size.\<close>

lemma ring_index: "unat ((x :: uint) + of_nat k) mod PIPESIZE = (unat x + k) mod PIPESIZE"
proof -
  have "unat (x + of_nat k) = (unat x + k) mod 2 ^ 32"
    by (simp add: unat_word_ariths unat_of_nat mod_add_right_eq)
  moreover have "(512 :: nat) dvd 2 ^ 32" by (rule dvdI [of _ _ "2 ^ 23"]) simp
  ultimately show ?thesis by (simp only: mod_mod_cancel)
qed

lemma ring_index_Suc: "unat ((x :: uint) + 1) mod PIPESIZE = Suc (unat x) mod PIPESIZE"
  using ring_index [of x 1] by simp

lemma fill_level_put:
  assumes "unat ((w :: uint) - r) < PIPESIZE"
  shows "unat (w + 1 - r) = Suc (unat (w - r))"
proof -
  have "unat (w + 1 - r) = unat ((w - r) + 1)" by (rule arg_cong [of _ _ unat]) simp
  also have "\<dots> = (unat (w - r) + 1) mod 2 ^ 32" by (simp add: unat_word_ariths)
  finally show ?thesis using assms by simp
qed

lemma fill_level_get:
  assumes "unat ((w :: uint) - r) = Suc n"
  shows "unat (w - (r + 1)) = n"
proof -
  have n: "Suc n < 2 ^ 32" using assms unsigned_less [of "w - r", where 'a = nat] by simp
  with assms have "w - r = of_nat (Suc n)" by (simp only: unat_eq_of_nat_iff)
  then have "w - (r + 1) = of_nat n" by (simp add: algebra_simps)
  then show ?thesis using n by (simp add: unat_of_nat)
qed

lemma length_pipe_contents [simp]: "length (pipe_contents p) = unat (nwrite p - nread p)"
  by (simp add: pipe_contents_def)

lemma pipe_put_contents:
  assumes "pipe_inv p" "unat (nwrite p - nread p) < PIPESIZE"
  shows "pipe_contents (pipe_put c p) = pipe_contents p @ [c]"
proof -
  define r n where "r = unat (nread p)" and "n = unat (nwrite p - nread p)"
  have n: "n < PIPESIZE" using assms(2) by (simp add: n_def)
  have w: "unat (nwrite p) mod PIPESIZE = (r + n) mod PIPESIZE"
    using ring_index [of "nread p" n] by (simp add: r_def n_def)
  have other: "(data p)[(r + n) mod PIPESIZE := c] ! ((r + k) mod PIPESIZE) = data p ! ((r + k) mod PIPESIZE)"
    if "k < n" for k
  proof -
    have "(r + k) mod PIPESIZE \<noteq> (r + n) mod PIPESIZE"
    proof
      assume eq: "(r + k) mod PIPESIZE = (r + n) mod PIPESIZE"
      have "PIPESIZE dvd (r + n) - (r + k)" using eq by (metis mod_eq_dvd_iff_nat nat_add_left_cancel_le less_imp_le that)
      with that n show False by (auto dest: dvd_imp_le)
    qed
    then show ?thesis by simp
  qed
  have "pipe_contents (pipe_put c p)
      = map (\<lambda>k. (data p)[(r + n) mod PIPESIZE := c] ! ((r + k) mod PIPESIZE)) [0..<Suc n]"
    using fill_level_put [OF assms(2)] w by (simp add: pipe_contents_def pipe_put_def r_def n_def)
  also have "\<dots> = map (\<lambda>k. data p ! ((r + k) mod PIPESIZE)) [0..<n] @ [c]"
    using other assms(1) by (simp add: pipe_inv_def)
  finally show ?thesis by (simp add: pipe_contents_def r_def n_def)
qed

lemma pipe_get_contents:
  assumes "pipe_inv p" "pipe_contents p \<noteq> []"
  shows "pipe_contents p = fst (pipe_get p) # pipe_contents (snd (pipe_get p))"
proof -
  obtain n where n: "unat (nwrite p - nread p) = Suc n"
    using assms(2) by (cases "unat (nwrite p - nread p)") (simp_all add: pipe_contents_def)
  define d where "d = (\<lambda>k. data p ! ((unat (nread p) + k) mod PIPESIZE))"
  have "pipe_contents p = map d [0..<Suc n]" by (simp add: pipe_contents_def d_def n)
  also have "\<dots> = d 0 # map (\<lambda>k. d (Suc k)) [0..<n]"
    by (simp add: upt_conv_Cons map_Suc_upt [symmetric] comp_def del: upt_Suc)
  also have "map (\<lambda>k. d (Suc k)) [0..<n] = pipe_contents (snd (pipe_get p))"
  proof -
    have "(unat (nread p + 1) + k) mod PIPESIZE = (unat (nread p) + Suc k) mod PIPESIZE" for k
      using ring_index_Suc [of "nread p"] by (metis add_Suc_shift mod_add_left_eq)
    then show ?thesis using fill_level_get [OF n] by (simp add: pipe_contents_def pipe_get_def d_def)
  qed
  finally show ?thesis by (simp add: d_def pipe_get_def)
qed

interpretation pq: byte_queue PIPESIZE pipe_inv pipe_contents pipe_full pipe_empty pipe_put pipe_get
proof
  fix p :: pipe and c
  show "0 < PIPESIZE" by simp
  assume p: "pipe_inv p"
  then show "length (pipe_contents p) \<le> PIPESIZE" by (simp add: pipe_inv_def)
  show "pipe_full p \<longleftrightarrow> length (pipe_contents p) = PIPESIZE"
  proof -
    have "unat (nwrite p - nread p) = PIPESIZE \<longleftrightarrow> nwrite p - nread p = of_nat PIPESIZE"
      by (rule unat_eq_of_nat_iff) simp
    then show ?thesis by (auto simp: pipe_full_def algebra_simps)
  qed
  show "pipe_empty p \<longleftrightarrow> pipe_contents p = []"
    by (auto simp: pipe_empty_def pipe_contents_def unat_eq_zero)
  show "pipe_contents (pipe_put c p) = pipe_contents p @ [c]" if "length (pipe_contents p) < PIPESIZE"
    using pipe_put_contents [OF p] that by simp
  show "pipe_inv (pipe_put c p)" if "length (pipe_contents p) < PIPESIZE"
    using p that fill_level_put [of "nwrite p" "nread p"] by (simp add: pipe_inv_def pipe_put_def)
  show "pipe_contents p = fst (pipe_get p) # pipe_contents (snd (pipe_get p))" if "pipe_contents p \<noteq> []"
    using pipe_get_contents [OF p that] .
  show "pipe_inv (snd (pipe_get p))" if ne: "pipe_contents p \<noteq> []"
  proof -
    obtain n where "unat (nwrite p - nread p) = Suc n"
      using ne by (cases "unat (nwrite p - nread p)") (simp_all add: pipe_contents_def)
    with p fill_level_get show ?thesis by (simp add: pipe_inv_def pipe_get_def)
  qed
qed

section \<open>The operations on the queue\<close>

lemma pipewrite_loop_fill:
  "pipewrite_loop killed n s p =
     (let (r, p1) = fill pipe_full pipe_put s p in
      if r = [] then (Return n, [NRead], p1)
      else if readopen p1 = 0 \<or> killed then (Return (- 1), [], p1)
      else (Sleep NWrite r, [NRead], p1))"
  by (induction killed n s p rule: pipewrite_loop.induct) (auto simp: Let_def split: prod.splits)

lemma fill_frame:
  "fill pipe_full pipe_put s p = (r, p1) \<Longrightarrow>
     nread p1 = nread p \<and> readopen p1 = readopen p \<and> writeopen p1 = writeopen p"
  by (induction s arbitrary: p) (auto simp: pipe_put_def split: if_splits)

lemma drain_frame:
  "drain pipe_empty pipe_get n p = (s, p1) \<Longrightarrow>
     data p1 = data p \<and> nwrite p1 = nwrite p \<and> readopen p1 = readopen p \<and> writeopen p1 = writeopen p"
proof (induction n arbitrary: p s p1)
  case (Suc n)
  show ?case
  proof (cases "pipe_empty p")
    case False
    obtain s' p' where d: "drain pipe_empty pipe_get n (snd (pipe_get p)) = (s', p')" by fastforce
    with False Suc.prems have "p1 = p'" by (simp add: case_prod_beta Let_def)
    with Suc.IH [OF d] show ?thesis by (simp add: pipe_get_def)
  qed (use Suc.prems in simp)
qed simp

lemma pipewrite_end:
  assumes "pipe_inv p" "pipewrite killed s p = (Sleep ch rest, woken, p')"
  shows "pipe_inv p' \<and> pipe_full p' \<and> rest \<noteq> []"
proof -
  obtain x p1 where f: "fill pipe_full pipe_put s p = (x, p1)" by fastforce
  have x: "x = rest" "p1 = p'" "rest \<noteq> []"
    using assms(2) f by (auto simp: pipewrite_def pipewrite_loop_fill split: if_splits)
  have k: "pipe_inv p'" "rest = drop (PIPESIZE - length (pipe_contents p)) s"
      "pipe_contents p' = pipe_contents p @ take (PIPESIZE - length (pipe_contents p)) s"
    using pq.fill_spec [OF assms(1) f] x by simp_all
  with x(3) have "length (pipe_contents p') = PIPESIZE" using pq.bounded [OF assms(1)] by simp
  with k(1) x(3) show ?thesis using pq.full_iff by blast
qed

section \<open>Properties\<close>

text \<open>
  C8. The pipe is a first-in first-out queue: in any interleaving of bursts of writers and readers
  the bytes that were in the pipe followed by the bytes accepted are the bytes delivered followed
  by the bytes still in it, also when the 32-bit counters wrap around, and the ring never holds
  more than 512 bytes.
\<close>

theorem pipe_fifo:
  assumes "pipe_inv p" "bursts pipe_full pipe_empty pipe_put pipe_get bs p = (ins, outs, p')"
  shows "pipe_inv p' \<and> pipe_contents p @ ins = outs @ pipe_contents p' \<and> length (pipe_contents p') \<le> PIPESIZE"
  using pq.bursts_fifo [OF assms] pq.bounded by blast

theorem pipe_fifo_witness:
  "\<exists>ins outs p'.
     bursts pipe_full pipe_empty pipe_put pipe_get [Fill ''ab'', Drain 1, Fill ''c'']
       ((pipe_init (replicate PIPESIZE NUL))\<lparr>nread := - 1, nwrite := - 1\<rparr>) = (ins, outs, p')
     \<and> ins = outs @ pipe_contents p'"
proof -
  let ?p = "(pipe_init (replicate PIPESIZE NUL))\<lparr>nread := - 1, nwrite := - 1\<rparr>"
  have i: "pipe_inv ?p" "pipe_contents ?p = []" by (simp_all add: pipe_inv_def pipe_init_def pipe_contents_def)
  obtain ins outs p' where b: "bursts pipe_full pipe_empty pipe_put pipe_get
      [Fill ''ab'', Drain 1, Fill ''c''] ?p = (ins, outs, p')" by (metis prod_cases3)
  from pipe_fifo [OF i(1) b] b i(2) show ?thesis by auto
qed





end
