(* ===== verification/Kalloc.thy ===== *)
theory Kalloc
  imports C_Strings
begin

text \<open>
  \<^verbatim>\<open>kalloc.c\<close>: the free list of physical pages, threaded through the first word of every free page.
  The byte memory is explicit. Each operation is the critical section that \<^verbatim>\<open>kmem.lock\<close> protects.
  A contract of page allocators states who owns which page.
\<close>

section \<open>Pointers in memory\<close>

abbreviation (input) PGSIZE :: nat where
  "PGSIZE \<equiv> 4096"

abbreviation (input) KERNBASE :: nat where
  "KERNBASE \<equiv> 0x80000000"

abbreviation (input) PHYSTOP :: nat where
  "PHYSTOP \<equiv> 0xE000000"

text \<open>A 32-bit pointer is stored with its least significant byte first.\<close>

definition load_ptr :: "mem \<Rightarrow> nat \<Rightarrow> nat" where
  "load_ptr m a = of_char (m a) + 256 * of_char (m (a + 1)) + 65536 * of_char (m (a + 2))
     + 16777216 * of_char (m (a + 3))"

definition store_ptr :: "mem \<Rightarrow> nat \<Rightarrow> nat \<Rightarrow> mem" where
  "store_ptr m a v =
     m(a := char_of v, a + 1 := char_of (v div 256), a + 2 := char_of (v div 65536),
       a + 3 := char_of (v div 16777216))"

lemma load_store_ptr [simp]: "v < 2 ^ 32 \<Longrightarrow> load_ptr (store_ptr m a v) a = v"
proof -
  assume "v < 2 ^ 32"
  then have "v div 16777216 < 256" by (simp add: less_mult_imp_div_less)
  have d: "v div 65536 = v div 256 div 256" "v div 16777216 = v div 256 div 256 div 256"
    using div_mult2_eq [of v 256 256] div_mult2_eq [of v 65536 256] by simp_all
  define a b c where "a = v div 256" and "b = a div 256" and "c = b div 256"
  have "v = v mod 256 + 256 * a" "a = a mod 256 + 256 * b" "b = b mod 256 + 256 * c"
    by (simp_all add: a_def b_def c_def)
  moreover have "c < 256" using \<open>v div 16777216 < 256\<close> d by (simp add: a_def b_def c_def)
  ultimately show ?thesis
    unfolding load_ptr_def store_ptr_def d by (simp add: a_def [symmetric] b_def [symmetric] c_def [symmetric])
qed

lemma load_store_other:
  "a + 4 \<le> b \<or> b + 4 \<le> a \<Longrightarrow> load_ptr (store_ptr m a v) b = load_ptr m b"
  by (auto simp: load_ptr_def store_ptr_def)

lemma store_ptr_other: "b < a \<or> a + 4 \<le> b \<Longrightarrow> store_ptr m a v b = m b"
  by (auto simp: store_ptr_def)

section \<open>The allocator\<close>

record kmem =
  k_mem :: mem
  use_lock :: int
  freelist :: nat
  no_of_alloc :: uint
  k_end :: nat

definition v2p :: "nat \<Rightarrow> nat" where
  "v2p v = v - KERNBASE"

definition PGROUNDUP :: "nat \<Rightarrow> nat" where
  "PGROUNDUP sz = (sz + PGSIZE - 1) div PGSIZE * PGSIZE"

definition kfree :: "nat \<Rightarrow> kmem \<Rightarrow> fault + kmem" where
  "kfree v k =
     (if v mod PGSIZE \<noteq> 0 \<or> v < k_end k \<or> v2p v \<ge> PHYSTOP then Inl (Panic ''kfree'')
      else Inr (k\<lparr>k_mem := store_ptr (memset (k_mem k) v 1 PGSIZE) v (freelist k), freelist := v\<rparr>))"

definition kalloc :: "kmem \<Rightarrow> nat \<times> kmem" where
  "kalloc k =
     (let r = freelist k;
          k1 = (if r \<noteq> 0 then k\<lparr>freelist := load_ptr (k_mem k) r\<rparr> else k)
      in (r, k1\<lparr>no_of_alloc := no_of_alloc k1 + 1\<rparr>))"

function freerange_from :: "nat \<Rightarrow> nat \<Rightarrow> kmem \<Rightarrow> fault + kmem" where
  "freerange_from p vend k =
     (if p + PGSIZE \<le> vend
      then case kfree p k of Inl f \<Rightarrow> Inl f | Inr k1 \<Rightarrow> freerange_from (p + PGSIZE) vend k1
      else Inr k)"
  by pat_completeness auto

termination
  by (relation "measure (\<lambda>(p, vend, k). vend - p)") auto

declare freerange_from.simps [simp del]

definition freerange :: "nat \<Rightarrow> nat \<Rightarrow> kmem \<Rightarrow> fault + kmem" where
  "freerange vstart vend k = freerange_from (PGROUNDUP vstart) vend k"

definition kinit1 :: "nat \<Rightarrow> nat \<Rightarrow> kmem \<Rightarrow> fault + kmem" where
  "kinit1 vstart vend k = freerange vstart vend (k\<lparr>use_lock := 0\<rparr>)"

definition kinit2 :: "nat \<Rightarrow> nat \<Rightarrow> kmem \<Rightarrow> fault + kmem" where
  "kinit2 vstart vend k = map_sum id (\<lambda>k. k\<lparr>use_lock := 1\<rparr>) (freerange vstart vend k)"

section \<open>The contract of a page allocator\<close>

text \<open>
  \<open>rep s ps\<close>: the state holds exactly the free pages \<open>ps\<close>. A client may free a page that is
  valid and not free.
\<close>

datatype page_op = AllocPage | FreePage nat

fun run_pages :: "('s \<Rightarrow> nat \<times> 's) \<Rightarrow> (nat \<Rightarrow> 's \<Rightarrow> fault + 's) \<Rightarrow> page_op list \<Rightarrow> 's \<Rightarrow> nat list
    \<Rightarrow> ('s \<times> nat list) option" where
  "run_pages alloc free [] s owned = Some (s, owned)"
| "run_pages alloc free (AllocPage # ops) s owned =
     (let (r, s1) = alloc s in run_pages alloc free ops s1 (if r = 0 then owned else r # owned))"
| "run_pages alloc free (FreePage v # ops) s owned =
     (if v \<in> set owned
      then case free v s of Inl f \<Rightarrow> None | Inr s1 \<Rightarrow> run_pages alloc free ops s1 (remove1 v owned)
      else run_pages alloc free ops s owned)"

locale page_allocator =
  fixes rep :: "'s \<Rightarrow> nat list \<Rightarrow> bool"
    and valid :: "nat \<Rightarrow> bool"
    and alloc :: "'s \<Rightarrow> nat \<times> 's"
    and free :: "nat \<Rightarrow> 's \<Rightarrow> fault + 's"
  assumes valid_nonzero: "valid v \<Longrightarrow> v \<noteq> 0"
    and rep_valid: "rep s ps \<Longrightarrow> distinct ps \<and> (\<forall>p \<in> set ps. valid p)"
    and alloc_none: "rep s [] \<Longrightarrow> fst (alloc s) = 0 \<and> rep (snd (alloc s)) []"
    and alloc_some: "rep s (p # ps) \<Longrightarrow> fst (alloc s) = p \<and> rep (snd (alloc s)) ps"
    and free_rep: "rep s ps \<Longrightarrow> valid v \<Longrightarrow> v \<notin> set ps \<Longrightarrow> \<exists>s'. free v s = Inr s' \<and> rep s' (v # ps)"
begin

text \<open>
  Whatever the clients do, a page is free or owned once: no page is handed out twice, none is
  lost, and freeing an owned page succeeds.
\<close>

lemma ownership:
  assumes "rep s ps" "distinct owned" "\<forall>p \<in> set owned. valid p" "set owned \<inter> set ps = {}"
  shows "\<exists>s' owned' ps'. run_pages alloc free ops s owned = Some (s', owned') \<and> rep s' ps'
    \<and> distinct owned' \<and> set owned' \<inter> set ps' = {} \<and> set owned' \<union> set ps' = set owned \<union> set ps"
  using assms
proof (induction ops arbitrary: s owned ps)
  case (Cons op ops)
  show ?case
  proof (cases op)
    case AllocPage
    obtain r s1 where a: "alloc s = (r, s1)" by fastforce
    show ?thesis
    proof (cases ps)
      case Nil
      with alloc_none Cons.prems(1) a have "r = 0" "rep s1 []" by fastforce+
      with Cons.IH [of s1 "[]" owned] Cons.prems Nil a AllocPage show ?thesis by simp
    next
      case (Cons p qs)
      have p: "r = p" "rep s1 qs" using alloc_some [of s p qs] Cons.prems(1) Cons a by simp_all
      have v: "valid p" "p \<notin> set qs" using rep_valid [OF Cons.prems(1)] Cons by simp_all
      have "\<exists>s' owned' ps'. run_pages alloc free ops s1 (p # owned) = Some (s', owned') \<and> rep s' ps'
          \<and> distinct owned' \<and> set owned' \<inter> set ps' = {} \<and> set owned' \<union> set ps' = set (p # owned) \<union> set qs"
        using Cons.prems v p Cons by (intro Cons.IH) auto
      moreover have "p \<noteq> 0" using v(1) valid_nonzero by blast
      ultimately show ?thesis using a p AllocPage Cons by simp
    qed
  next
    case (FreePage v)
    show ?thesis
    proof (cases "v \<in> set owned")
      case True
      then have "valid v" "v \<notin> set ps" using Cons.prems by auto
      from free_rep [OF Cons.prems(1) this] obtain s1 where s1: "free v s = Inr s1" "rep s1 (v # ps)" by blast
      have "\<exists>s' owned' ps'. run_pages alloc free ops s1 (remove1 v owned) = Some (s', owned') \<and> rep s' ps'
          \<and> distinct owned' \<and> set owned' \<inter> set ps' = {}
          \<and> set owned' \<union> set ps' = set (remove1 v owned) \<union> set (v # ps)"
        using Cons.prems s1 by (intro Cons.IH) (auto dest: notin_set_remove1)
      moreover have "set (remove1 v owned) \<union> set (v # ps) = set owned \<union> set ps"
        using Cons.prems(2) True by auto
      ultimately show ?thesis using s1 True FreePage by simp
    next
      case False
      with Cons FreePage show ?thesis by simp
    qed
  qed
qed auto

end

section \<open>The free list\<close>

primrec chain :: "mem \<Rightarrow> nat \<Rightarrow> nat list \<Rightarrow> bool" where
  "chain m p [] = (p = 0)"
| "chain m p (q # qs) = (p = q \<and> chain m (load_ptr m q) qs)"

definition page_ok :: "nat \<Rightarrow> nat \<Rightarrow> bool" where
  "page_ok e v \<longleftrightarrow> v mod PGSIZE = 0 \<and> e \<le> v \<and> v2p v < PHYSTOP"

text \<open>The state of the allocator with the free pages \<open>ps\<close>, for a kernel that ends at \<open>e\<close>.\<close>

definition kmem_rep :: "nat \<Rightarrow> kmem \<Rightarrow> nat list \<Rightarrow> bool" where
  "kmem_rep e k ps \<longleftrightarrow> k_end k = e \<and> KERNBASE < e \<and> distinct ps \<and> list_all (page_ok e) ps
     \<and> chain (k_mem k) (freelist k) ps"

definition page_bytes :: "nat \<Rightarrow> nat set" where
  "page_bytes v = {v..<v + PGSIZE}"

lemma page_okD: "page_ok e v \<Longrightarrow> KERNBASE < e \<Longrightarrow> v \<noteq> 0 \<and> v + PGSIZE \<le> 2 ^ 32"
  by (auto simp: page_ok_def v2p_def)

lemma pages_apart:
  assumes "v mod PGSIZE = 0" "w mod PGSIZE = 0" "v \<noteq> w"
  shows "v + PGSIZE \<le> w \<or> w + PGSIZE \<le> v"
proof -
  obtain a b where "v = PGSIZE * a" "w = PGSIZE * b" using assms(1,2) by (auto elim!: dvdE simp: mod_eq_0_iff_dvd)
  with assms(3) show ?thesis by (cases "a < b") auto
qed

text \<open>\<^verbatim>\<open>kfree\<close> writes only the page it frees.\<close>

lemma kfree_frame:
  assumes "kfree v k = Inr k'" "a \<notin> page_bytes v"
  shows "k_mem k' a = k_mem k a"
  using assms by (auto simp: kfree_def page_bytes_def memset_apply store_ptr_other split: if_splits)

lemma chain_cong:
  "(\<And>q. q \<in> set ps \<Longrightarrow> load_ptr m' q = load_ptr m q) \<Longrightarrow> chain m' p ps = chain m p ps"
  by (induction ps arbitrary: p) auto

lemma chain_head: "chain m p ps \<Longrightarrow> p = (case ps of [] \<Rightarrow> 0 | q # qs \<Rightarrow> q)"
  by (cases ps) auto

lemma kfree_rep:
  assumes "kmem_rep e k ps" "page_ok e v" "v \<notin> set ps"
  shows "\<exists>k'. kfree v k = Inr k' \<and> kmem_rep e k' (v # ps)"
proof -
  let ?m = "store_ptr (memset (k_mem k) v 1 PGSIZE) v (freelist k)"
  have e: "k_end k = e" "KERNBASE < e" and ps: "distinct ps" "list_all (page_ok e) ps"
      "chain (k_mem k) (freelist k) ps"
    using assms(1) by (simp_all add: kmem_rep_def)
  have "freelist k < 2 ^ 32"
    using chain_head [OF ps(3)] ps(2) page_okD [OF _ e(2)] by (cases ps) fastforce+
  moreover have "load_ptr ?m q = load_ptr (k_mem k) q" if "q \<in> set ps" for q
  proof -
    have "page_ok e q" using ps(2) that by (simp add: list_all_iff)
    then have "v + PGSIZE \<le> q \<or> q + PGSIZE \<le> v"
      using assms(2,3) that by (intro pages_apart) (auto simp: page_ok_def)
    then have "?m (q + i) = k_mem k (q + i)" if "i < 4" for i
      using that by (auto simp: store_ptr_other memset_apply)
    from this [of 0] this [of 1] this [of 2] this [of 3] show ?thesis by (simp add: load_ptr_def)
  qed
  ultimately have "chain ?m v (v # ps)" using ps(3) chain_cong [of ps ?m "k_mem k"] by simp
  moreover have "kfree v k = Inr (k\<lparr>k_mem := ?m, freelist := v\<rparr>)"
    using assms(2) e by (simp add: kfree_def page_ok_def)
  ultimately show ?thesis using assms(2,3) e ps by (simp add: kmem_rep_def)
qed

lemma kalloc_rep:
  "kmem_rep e k [] \<Longrightarrow> fst (kalloc k) = 0 \<and> kmem_rep e (snd (kalloc k)) []"
  "kmem_rep e k (p # ps) \<Longrightarrow> fst (kalloc k) = p \<and> kmem_rep e (snd (kalloc k)) ps"
  using page_okD [of e p] by (auto simp: kmem_rep_def kalloc_def)

interpretation ka: page_allocator "kmem_rep e" "\<lambda>v. page_ok e v \<and> KERNBASE < e" kalloc kfree for e
proof
  show "v \<noteq> 0" if "page_ok e v \<and> KERNBASE < e" for v using that page_okD by blast
  show "distinct ps \<and> (\<forall>p \<in> set ps. page_ok e p \<and> KERNBASE < e)" if "kmem_rep e k ps" for k ps
    using that by (simp add: kmem_rep_def list_all_iff)
qed (use kalloc_rep kfree_rep in auto)

subsection \<open>Initialisation\<close>

text \<open>The whole pages of a range, the last one first.\<close>

function pages_from :: "nat \<Rightarrow> nat \<Rightarrow> nat list" where
  "pages_from p vend = (if p + PGSIZE \<le> vend then pages_from (p + PGSIZE) vend @ [p] else [])"
  by pat_completeness auto

termination
  by (relation "measure (\<lambda>(p, vend). vend - p)") auto

declare pages_from.simps [simp del]

lemma pages_from_above: "q \<in> set (pages_from p vend) \<Longrightarrow> p \<le> q \<and> q + PGSIZE \<le> vend"
proof (induction p vend rule: pages_from.induct)
  case (1 p vend)
  then show ?case by (subst (asm) (2) pages_from.simps) (auto split: if_splits)
qed

lemma freerange_from_rep:
  assumes "kmem_rep e k ps" "p mod PGSIZE = 0" "e \<le> p" "vend \<le> KERNBASE + PHYSTOP" "\<forall>q \<in> set ps. q < p"
  shows "\<exists>k'. freerange_from p vend k = Inr k' \<and> kmem_rep e k' (pages_from p vend @ ps)"
  using assms
proof (induction p vend k arbitrary: ps rule: freerange_from.induct)
  case (1 p vend k)
  show ?case
  proof (cases "p + PGSIZE \<le> vend")
    case True
    have "page_ok e p" using "1.prems"(2-4) True by (simp add: page_ok_def v2p_def)
    moreover have "p \<notin> set ps" using "1.prems"(5) by auto
    ultimately obtain k1 where k1: "kfree p k = Inr k1" "kmem_rep e k1 (p # ps)"
      using kfree_rep "1.prems"(1) by blast
    have "\<exists>k'. freerange_from (p + PGSIZE) vend k1 = Inr k'
        \<and> kmem_rep e k' (pages_from (p + PGSIZE) vend @ p # ps)"
      using "1.prems" True k1 by (intro "1.IH") (auto simp: mod_add_self2 less_Suc_eq intro: less_trans)
    with k1 True show ?thesis
      by (simp add: freerange_from.simps [of p] pages_from.simps [of p])
  next
    case False
    with "1.prems"(1) show ?thesis by (simp add: freerange_from.simps [of p] pages_from.simps [of p])
  qed
qed

lemma PGROUNDUP_props: "PGROUNDUP a mod PGSIZE = 0" "a \<le> PGROUNDUP a"
proof -
  show "PGROUNDUP a mod PGSIZE = 0" by (simp add: PGROUNDUP_def)
  have "a + PGSIZE - 1 < (a + PGSIZE - 1) div PGSIZE * PGSIZE + PGSIZE"
    using mod_less_divisor [of PGSIZE "a + PGSIZE - 1"] div_mult_mod_eq [of "a + PGSIZE - 1" PGSIZE] by linarith
  then show "a \<le> PGROUNDUP a" by (simp add: PGROUNDUP_def)
qed

lemma PGROUNDUP_bound: "PGROUNDUP a < a + PGSIZE"
proof -
  have "(a + PGSIZE - 1) div PGSIZE * PGSIZE \<le> a + PGSIZE - 1" by (rule div_times_less_eq_dividend)
  then show ?thesis by (simp add: PGROUNDUP_def)
qed

lemma pages_from_set:
  "p mod PGSIZE = 0 \<Longrightarrow>
     q \<in> set (pages_from p vend) \<longleftrightarrow> q mod PGSIZE = 0 \<and> p \<le> q \<and> q + PGSIZE \<le> vend"
proof (induction p vend rule: pages_from.induct)
  case (1 p vend)
  have *: "q mod PGSIZE = 0 \<and> p \<le> q \<longleftrightarrow> q = p \<or> q mod PGSIZE = 0 \<and> p + PGSIZE \<le> q"
    using pages_apart [of p q] "1.prems" by auto
  show ?case
  proof (cases "p + PGSIZE \<le> vend")
    case True
    have "q \<in> set (pages_from p vend) \<longleftrightarrow> q = p \<or> q \<in> set (pages_from (p + PGSIZE) vend)"
      using True by (subst pages_from.simps) auto
    with "1.IH" [OF True] "1.prems" True * show ?thesis by auto
  next
    case False
    then show ?thesis using * by (subst pages_from.simps) auto
  qed
qed

lemma PGROUNDUP_least:
  assumes "q mod PGSIZE = 0"
  shows "a \<le> q \<longleftrightarrow> PGROUNDUP a \<le> q"
proof
  assume "a \<le> q"
  then have "PGROUNDUP a < q + PGSIZE" using PGROUNDUP_bound [of a] by linarith
  with pages_apart [OF assms PGROUNDUP_props(1) [of a]] show "PGROUNDUP a \<le> q" by linarith
next
  assume "PGROUNDUP a \<le> q"
  then show "a \<le> q" using PGROUNDUP_props(2) [of a] by linarith
qed

lemma pages_from_iff:
  "q \<in> set (pages_from (PGROUNDUP a) vend) \<longleftrightarrow> q mod PGSIZE = 0 \<and> a \<le> q \<and> q + PGSIZE \<le> vend"
  using pages_from_set [OF PGROUNDUP_props(1), of q a vend] PGROUNDUP_least [of q a] by (cases "q mod PGSIZE = 0") simp_all

section \<open>Properties\<close>

text \<open>The allocator before \<^verbatim>\<open>kinit1\<close>, in a kernel that ends at \<open>e\<close>.\<close>

definition boot_kmem :: "nat \<Rightarrow> kmem" where
  "boot_kmem e = \<lparr>k_mem = (\<lambda>_. NUL), use_lock = 0, freelist = 0, no_of_alloc = 0, k_end = e\<rparr>"

lemma boot_kmem_rep: "KERNBASE < e \<Longrightarrow> kmem_rep e (boot_kmem e) []"
  by (simp add: kmem_rep_def boot_kmem_def)

text \<open>
  C7. Pages have one owner: for every sequence of \<^verbatim>\<open>kalloc\<close> calls and of \<^verbatim>\<open>kfree\<close> calls on owned pages,
  \<^verbatim>\<open>kfree\<close> never panics, every page is at any time either on the free list or owned by exactly one
  client, no page is handed out twice and none is lost.
\<close>

theorem kalloc_ownership:
  assumes "kmem_rep e k ps" "distinct owned" "\<forall>p \<in> set owned. page_ok e p" "set owned \<inter> set ps = {}"
  shows "\<exists>k' owned' ps'. run_pages kalloc kfree ops k owned = Some (k', owned') \<and> kmem_rep e k' ps'
    \<and> distinct owned' \<and> set owned' \<inter> set ps' = {} \<and> set owned' \<union> set ps' = set owned \<union> set ps"
proof -
  have "KERNBASE < e" using assms(1) by (simp add: kmem_rep_def)
  with assms show ?thesis by (intro ka.ownership) auto
qed

theorem kalloc_ownership_witness:
  "\<exists>k' owned' ps'. run_pages kalloc kfree [FreePage 0x80200000, AllocPage, AllocPage] (boot_kmem 0x80100000)
       [0x80200000] = Some (k', owned') \<and> kmem_rep 0x80100000 k' ps' \<and> distinct owned'"
proof -
  have r: "kmem_rep 0x80100000 (boot_kmem 0x80100000) []" by (rule boot_kmem_rep) simp
  have p: "\<forall>p \<in> set [0x80200000]. page_ok 0x80100000 p" by (simp add: page_ok_def v2p_def)
  from kalloc_ownership [OF r _ p, of "[FreePage 0x80200000, AllocPage, AllocPage]"] show ?thesis by auto
qed

text \<open>
  C25. \<^verbatim>\<open>kinit1\<close> puts exactly the whole pages between \<^verbatim>\<open>vstart\<close> and \<^verbatim>\<open>vend\<close> on the free list, each once,
  without a panic, for any range between the end of the kernel and the top of memory.
\<close>

theorem kinit1_frees_range:
  assumes "kmem_rep e k []" "e \<le> vstart" "vend \<le> KERNBASE + PHYSTOP"
  shows "\<exists>k'. kinit1 vstart vend k = Inr k' \<and> kmem_rep e k' (pages_from (PGROUNDUP vstart) vend)
    \<and> (\<forall>q. q \<in> set (pages_from (PGROUNDUP vstart) vend) \<longleftrightarrow>
        q mod PGSIZE = 0 \<and> vstart \<le> q \<and> q + PGSIZE \<le> vend)"
proof -
  have "kmem_rep e (k\<lparr>use_lock := 0\<rparr>) []" using assms(1) by (simp add: kmem_rep_def)
  moreover have "e \<le> PGROUNDUP vstart" using PGROUNDUP_props(2) [of vstart] assms(2) by simp
  ultimately obtain k' where "freerange_from (PGROUNDUP vstart) vend (k\<lparr>use_lock := 0\<rparr>) = Inr k'"
      "kmem_rep e k' (pages_from (PGROUNDUP vstart) vend)"
    using freerange_from_rep [of e _ "[]" "PGROUNDUP vstart" vend] assms(3) PGROUNDUP_props(1) by auto
  then show ?thesis by (auto simp: kinit1_def freerange_def pages_from_iff)
qed

theorem kinit1_frees_range_witness:
  "\<exists>k'. kinit1 0x80100800 0x80103000 (boot_kmem 0x80100000) = Inr k'
     \<and> kmem_rep 0x80100000 k' (pages_from (PGROUNDUP 0x80100800) 0x80103000)"
proof -
  have "kmem_rep 0x80100000 (boot_kmem 0x80100000) []" by (rule boot_kmem_rep) simp
  from kinit1_frees_range [OF this, of "0x80100800" "0x80103000"] show ?thesis
    by simp blast
qed

end
