(* ===== verification/Spinlock.thy ===== *)
theory Spinlock
  imports Prelude
begin

text \<open>
  \<^verbatim>\<open>spinlock.c\<close>: spin locks, and the nested disabling of interrupts that goes with them. \<^verbatim>\<open>acquire\<close> and
  \<^verbatim>\<open>release\<close> are cut at their atomic exchanges, so that the steps of several processors can be
  interleaved.
\<close>

section \<open>Interrupts\<close>

text \<open>The fields of \<^verbatim>\<open>struct cpu\<close> that the locks use, and the interrupt flag of \<^verbatim>\<open>eflags\<close>.\<close>

record cpu =
  ncli :: int
  intena :: bool
  fl_if :: bool

definition pushcli :: "cpu \<Rightarrow> cpu" where
  "pushcli c =
     (let eflags = fl_if c;
          c1 = c\<lparr>fl_if := False\<rparr>;
          c2 = (if ncli c1 = 0 then c1\<lparr>intena := eflags\<rparr> else c1)
      in c2\<lparr>ncli := ncli c1 + 1\<rparr>)"

definition popcli :: "cpu \<Rightarrow> fault + cpu" where
  "popcli c =
     (if fl_if c then Inl (Panic ''popcli - interruptible'')
      else let c1 = c\<lparr>ncli := ncli c - 1\<rparr>
        in if ncli c1 < 0 then Inl (Panic ''popcli'')
           else Inr (if ncli c1 = 0 \<and> intena c1 then c1\<lparr>fl_if := True\<rparr> else c1))"

section \<open>Locks\<close>

record spinlock =
  locked :: uint
  lk_name :: string
  lk_cpu :: "nat option"
  pcs :: "nat list"

definition initlock :: "string \<Rightarrow> spinlock \<Rightarrow> spinlock" where
  "initlock name lk = lk\<lparr>lk_name := name, locked := 0, lk_cpu := None\<rparr>"

definition holding :: "nat \<Rightarrow> spinlock \<Rightarrow> bool" where
  "holding cpu lk \<longleftrightarrow> locked lk \<noteq> 0 \<and> lk_cpu lk = Some cpu"

text \<open>The atomic exchange on \<^verbatim>\<open>lk->locked\<close>: the old value and the lock.\<close>

definition xchg :: "uint \<Rightarrow> spinlock \<Rightarrow> uint \<times> spinlock" where
  "xchg new lk = (locked lk, lk\<lparr>locked := new\<rparr>)"

text \<open>
  The walk along the saved frame pointers: \<open>mem\<close> gives the word at an address, a frame holds the
  caller's frame pointer and above it the return address.
\<close>

primrec callerpcs_from :: "(nat \<Rightarrow> nat) \<Rightarrow> nat \<Rightarrow> nat \<Rightarrow> nat list" where
  "callerpcs_from mem ebp 0 = []"
| "callerpcs_from mem ebp (Suc n) =
     (if ebp = 0 \<or> ebp < 0x80000000 \<or> ebp = 0xffffffff then replicate (Suc n) 0
      else mem (ebp + 4) # callerpcs_from mem (mem ebp) n)"

definition getcallerpcs :: "(nat \<Rightarrow> nat) \<Rightarrow> nat \<Rightarrow> nat list" where
  "getcallerpcs mem v = callerpcs_from mem (v - 8) 10"

section \<open>Processors that take locks\<close>

text \<open>Where a processor stands in \<^verbatim>\<open>acquire\<close> or \<^verbatim>\<open>release\<close>.\<close>

datatype pc = Outside | Spinning nat | Got nat | Releasing nat

record machine =
  cpus :: "nat \<Rightarrow> cpu"
  locks :: "nat \<Rightarrow> spinlock"
  at :: "nat \<Rightarrow> pc"

definition set_cpu :: "nat \<Rightarrow> cpu \<Rightarrow> machine \<Rightarrow> machine" where
  "set_cpu i c m = m\<lparr>cpus := (cpus m)(i := c)\<rparr>"

definition set_lock :: "nat \<Rightarrow> spinlock \<Rightarrow> machine \<Rightarrow> machine" where
  "set_lock l lk m = m\<lparr>locks := (locks m)(l := lk)\<rparr>"

definition goto :: "nat \<Rightarrow> pc \<Rightarrow> machine \<Rightarrow> machine" where
  "goto i p m = m\<lparr>at := (at m)(i := p)\<rparr>"

text \<open>\<^verbatim>\<open>acquire\<close>: up to the loop, one round of the loop, and after the loop.\<close>

definition acquire_enter :: "nat \<Rightarrow> nat \<Rightarrow> machine \<Rightarrow> fault + machine" where
  "acquire_enter i l m =
     (let m1 = set_cpu i (pushcli (cpus m i)) m
      in if holding i (locks m1 l) then Inl (Panic ''acquire'') else Inr (goto i (Spinning l) m1))"

definition acquire_spin :: "nat \<Rightarrow> nat \<Rightarrow> machine \<Rightarrow> machine" where
  "acquire_spin i l m =
     (let (old, lk) = xchg 1 (locks m l); m1 = set_lock l lk m
      in if old \<noteq> 0 then m1 else goto i (Got l) m1)"

definition acquire_done :: "nat list \<Rightarrow> nat \<Rightarrow> nat \<Rightarrow> machine \<Rightarrow> machine" where
  "acquire_done trace i l m =
     goto i Outside (set_lock l ((locks m l)\<lparr>lk_cpu := Some i, pcs := trace\<rparr>) m)"

text \<open>\<^verbatim>\<open>release\<close>: up to the exchange, and from it on.\<close>

definition release_enter :: "nat \<Rightarrow> nat \<Rightarrow> machine \<Rightarrow> fault + machine" where
  "release_enter i l m =
     (if \<not> holding i (locks m l) then Inl (Panic ''release'')
      else Inr (goto i (Releasing l)
        (set_lock l ((locks m l)\<lparr>pcs := (pcs (locks m l))[0 := 0], lk_cpu := None\<rparr>) m)))"

definition release_exit :: "nat \<Rightarrow> nat \<Rightarrow> machine \<Rightarrow> fault + machine" where
  "release_exit i l m =
     (let m1 = set_lock l (snd (xchg 0 (locks m l))) m
      in map_sum id (\<lambda>c. goto i Outside (set_cpu i c m1)) (popcli (cpus m1 i)))"

text \<open>The steps of the machine. A processor outside may call \<^verbatim>\<open>acquire\<close> or \<^verbatim>\<open>release\<close> on any lock.\<close>

inductive lock_step :: "machine \<Rightarrow> machine \<Rightarrow> bool" where
  enter: "at m i = Outside \<Longrightarrow> acquire_enter i l m = Inr m' \<Longrightarrow> lock_step m m'"
| spin: "at m i = Spinning l \<Longrightarrow> lock_step m (acquire_spin i l m)"
| got: "at m i = Got l \<Longrightarrow> lock_step m (acquire_done trace i l m)"
| leave: "at m i = Outside \<Longrightarrow> release_enter i l m = Inr m' \<Longrightarrow> lock_step m m'"
| exit: "at m i = Releasing l \<Longrightarrow> release_exit i l m = Inr m' \<Longrightarrow> lock_step m m'"

section \<open>The invariant\<close>

text \<open>The processor is in the critical section of the lock.\<close>

definition owns :: "machine \<Rightarrow> nat \<Rightarrow> nat \<Rightarrow> bool" where
  "owns m i l \<longleftrightarrow> at m i = Got l \<or> at m i = Releasing l \<or> holding i (locks m l)"

definition spins :: "machine \<Rightarrow> nat \<Rightarrow> nat" where
  "spins m i = (case at m i of Spinning l \<Rightarrow> 1 | _ \<Rightarrow> 0)"

text \<open>
  A lock that is not taken has no owner, nobody has two entries for a lock, two owners are the same
  processor, and every processor has disabled interrupts once for each lock it owns or waits for.
\<close>

definition lock_inv :: "machine \<Rightarrow> bool" where
  "lock_inv m \<longleftrightarrow>
     (\<forall>i l. owns m i l \<longrightarrow> locked (locks m l) \<noteq> 0)
   \<and> (\<forall>i j l. owns m i l \<longrightarrow> owns m j l \<longrightarrow> i = j)
   \<and> (\<forall>i l. at m i = Got l \<or> at m i = Releasing l \<longrightarrow> lk_cpu (locks m l) = None)
   \<and> (\<forall>l. locked (locks m l) = 0 \<longrightarrow> lk_cpu (locks m l) = None)
   \<and> (\<forall>i. finite {l. owns m i l} \<and> ncli (cpus m i) = int (card {l. owns m i l}) + int (spins m i))
   \<and> (\<forall>i. ncli (cpus m i) > 0 \<longrightarrow> \<not> fl_if (cpus m i))"

lemmas machine_defs = set_cpu_def set_lock_def goto_def

lemma pushcli_simps [simp]: "ncli (pushcli c) = ncli c + 1" "\<not> fl_if (pushcli c)"
  by (simp_all add: pushcli_def Let_def)

lemma lock_invI:
  assumes "\<And>i l. owns m i l \<Longrightarrow> locked (locks m l) \<noteq> 0"
    "\<And>i j l. owns m i l \<Longrightarrow> owns m j l \<Longrightarrow> i = j"
    "\<And>i l. at m i = Got l \<or> at m i = Releasing l \<Longrightarrow> lk_cpu (locks m l) = None"
    "\<And>l. locked (locks m l) = 0 \<Longrightarrow> lk_cpu (locks m l) = None"
    "\<And>i. finite {l. owns m i l}"
    "\<And>i. ncli (cpus m i) = int (card {l. owns m i l}) + int (spins m i)"
    "\<And>i. ncli (cpus m i) > 0 \<Longrightarrow> \<not> fl_if (cpus m i)"
  shows "lock_inv m"
  using assms unfolding lock_inv_def by blast

lemma lock_invD:
  assumes "lock_inv m"
  shows "owns m i l \<Longrightarrow> locked (locks m l) \<noteq> 0"
    "owns m i l \<Longrightarrow> owns m j l \<Longrightarrow> i = j"
    "at m i = Got l \<or> at m i = Releasing l \<Longrightarrow> lk_cpu (locks m l) = None"
    "locked (locks m l) = 0 \<Longrightarrow> lk_cpu (locks m l) = None"
    "finite {l. owns m i l}"
    "ncli (cpus m i) = int (card {l. owns m i l}) + int (spins m i)"
    "ncli (cpus m i) > 0 \<Longrightarrow> \<not> fl_if (cpus m i)"
  using assms unfolding lock_inv_def by blast+

text \<open>
  Steps that change neither the owners nor whether a lock is taken: only the position of one
  processor, its interrupt state and the note of the lock's processor.
\<close>

lemma lock_inv_same_owners:
  assumes inv: "lock_inv m"
    and own: "\<And>j k. owns m' j k = owns m j k"
    and lk: "\<And>k. locked (locks m' k) = 0 \<longleftrightarrow> locked (locks m k) = 0"
    and note_got: "\<And>j k. at m' j = Got k \<or> at m' j = Releasing k \<Longrightarrow> lk_cpu (locks m' k) = None"
    and note_free: "\<And>k. locked (locks m' k) = 0 \<Longrightarrow> lk_cpu (locks m' k) = None"
    and nest: "\<And>j. ncli (cpus m' j) - int (spins m' j) = ncli (cpus m j) - int (spins m j)"
    and off: "\<And>j. ncli (cpus m' j) > 0 \<Longrightarrow> \<not> fl_if (cpus m' j)"
  shows "lock_inv m'"
proof (rule lock_invI)
  fix i j l
  show "locked (locks m' l) \<noteq> 0" if "owns m' i l" using that own lk lock_invD(1) [OF inv] by simp
  show "i = j" if "owns m' i l" "owns m' j l" using that own lock_invD(2) [OF inv] by blast
  show "finite {l. owns m' i l}" using own lock_invD(5) [OF inv] by simp
  show "ncli (cpus m' i) = int (card {l. owns m' i l}) + int (spins m' i)"
    using own nest [of i] lock_invD(6) [OF inv, of i] by simp
qed (use note_got note_free off in auto)

lemma acquire_enter_inv:
  assumes "lock_inv m" "at m i = Outside" "acquire_enter i l m = Inr m'"
  shows "lock_inv m'"
proof -
  have m': "m' = goto i (Spinning l) (set_cpu i (pushcli (cpus m i)) m)"
    using assms(3) by (auto simp: acquire_enter_def Let_def split: if_splits)
  have l: "locks m' = locks m" "at m' = (at m)(i := Spinning l)"
      "cpus m' = (cpus m)(i := pushcli (cpus m i))"
    by (simp_all add: m' machine_defs)
  show ?thesis
  proof (rule lock_inv_same_owners [OF assms(1)])
    show "owns m' j k = owns m j k" for j k using assms(2) by (auto simp: owns_def l)
    show "ncli (cpus m' j) - int (spins m' j) = ncli (cpus m j) - int (spins m j)" for j
      using assms(2) by (simp add: l spins_def)
    show "\<not> fl_if (cpus m' j)" if "ncli (cpus m' j) > 0" for j
      using that lock_invD(7) [OF assms(1), of j] by (auto simp: l split: if_splits)
    show "lk_cpu (locks m' k) = None" if "at m' j = Got k \<or> at m' j = Releasing k" for j k
      using that lock_invD(3) [OF assms(1), of j k] by (auto simp: l split: if_splits)
  qed (use lock_invD(4) [OF assms(1)] in \<open>auto simp: l\<close>)
qed

lemma acquire_spin_inv:
  assumes inv: "lock_inv m" and at: "at m i = Spinning l"
  shows "lock_inv (acquire_spin i l m)"
proof (cases "locked (locks m l) = 0")
  case False
  let ?m = "set_lock l ((locks m l)\<lparr>locked := 1\<rparr>) m"
  have m': "acquire_spin i l m = ?m" using False by (simp add: acquire_spin_def xchg_def)
  show ?thesis unfolding m'
  proof (rule lock_inv_same_owners [OF inv])
    show "owns ?m j k = owns m j k" for j k using False by (auto simp: owns_def holding_def machine_defs)
    show "lk_cpu (locks ?m k) = None" if "at ?m j = Got k \<or> at ?m j = Releasing k" for j k
      using that lock_invD(3) [OF inv, of j k] by (auto simp: machine_defs)
    show "lk_cpu (locks ?m k) = None" if "locked (locks ?m k) = 0" for k
      using that lock_invD(4) [OF inv, of k] by (auto simp: machine_defs split: if_splits)
  qed (use False lock_invD(7) [OF inv] in \<open>auto simp: machine_defs spins_def\<close>)
next
  case True
  let ?m = "goto i (Got l) (set_lock l ((locks m l)\<lparr>locked := 1\<rparr>) m)"
  have m': "acquire_spin i l m = ?m" using True by (simp add: acquire_spin_def xchg_def)
  have none: "\<not> owns m j l" for j using True lock_invD(1) [OF inv] by blast
  have note_l: "lk_cpu (locks m l) = None" using True lock_invD(4) [OF inv] by blast
  have own: "owns ?m j k \<longleftrightarrow> owns m j k \<or> j = i \<and> k = l" for j k
    using at note_l none [of j] by (auto simp: owns_def holding_def machine_defs)
  have set: "{k. owns ?m j k} = (if j = i then insert l {k. owns m j k} else {k. owns m j k})" for j
    using own by auto
  show ?thesis unfolding m'
  proof (rule lock_invI)
    fix j k h
    show "locked (locks ?m k) \<noteq> 0" if "owns ?m j k"
      using that own lock_invD(1) [OF inv, of j k] by (auto simp: machine_defs)
    show "j = h" if "owns ?m j k" "owns ?m h k"
      using that own none lock_invD(2) [OF inv, of j k h] by auto
    show "lk_cpu (locks ?m k) = None" if "at ?m j = Got k \<or> at ?m j = Releasing k"
      using that note_l lock_invD(3) [OF inv, of j k] by (auto simp: machine_defs split: if_splits)
    show "lk_cpu (locks ?m k) = None" if "locked (locks ?m k) = 0"
      using that note_l lock_invD(4) [OF inv, of k] by (auto simp: machine_defs split: if_splits)
    show "finite {k. owns ?m j k}" unfolding set using lock_invD(5) [OF inv] by simp
    have "card {k. owns ?m j k} = card {k. owns m j k} + (if j = i then 1 else 0)"
      unfolding set using none lock_invD(5) [OF inv] by simp
    moreover have "spins ?m j + (if j = i then 1 else 0) = spins m j" "cpus ?m = cpus m"
      using at by (simp_all add: machine_defs spins_def)
    ultimately show "ncli (cpus ?m j) = int (card {k. owns ?m j k}) + int (spins ?m j)"
      using lock_invD(6) [OF inv, of j] by simp
    show "\<not> fl_if (cpus ?m j)" if "ncli (cpus ?m j) > 0"
      using that lock_invD(7) [OF inv, of j] by (simp add: machine_defs)
  qed
qed

lemma acquire_done_inv:
  assumes inv: "lock_inv m" and at: "at m i = Got l"
  shows "lock_inv (acquire_done trace i l m)"
proof -
  let ?m = "acquire_done trace i l m"
  have own_l: "owns m i l" using at by (simp add: owns_def)
  have lk: "locked (locks m l) \<noteq> 0" using lock_invD(1) [OF inv own_l] .
  have other: "\<not> owns m j l" if "j \<noteq> i" for j using that lock_invD(2) [OF inv own_l] by blast
  show ?thesis
  proof (rule lock_inv_same_owners [OF inv])
    show "owns ?m j k = owns m j k" for j k
      using at lk other [of j] own_l lock_invD(3) [OF inv, of i l]
      by (auto simp: owns_def holding_def acquire_done_def machine_defs)
    show "lk_cpu (locks ?m k) = None" if "at ?m j = Got k \<or> at ?m j = Releasing k" for j k
      using that lock_invD(3) [OF inv, of j k] other [of j]
      by (auto simp: acquire_done_def machine_defs owns_def split: if_splits)
    show "lk_cpu (locks ?m k) = None" if "locked (locks ?m k) = 0" for k
      using that lk lock_invD(4) [OF inv, of k] by (auto simp: acquire_done_def machine_defs split: if_splits)
  qed (use lock_invD(7) [OF inv] at in \<open>auto simp: acquire_done_def machine_defs spins_def\<close>)
qed

lemma release_enter_inv:
  assumes inv: "lock_inv m" and at: "at m i = Outside" and r: "release_enter i l m = Inr m'"
  shows "lock_inv m'"
proof -
  have h: "holding i (locks m l)" and m': "m' = goto i (Releasing l)
      (set_lock l ((locks m l)\<lparr>pcs := (pcs (locks m l))[0 := 0], lk_cpu := None\<rparr>) m)"
    using r by (auto simp: release_enter_def split: if_splits)
  have own_l: "owns m i l" using h by (simp add: owns_def)
  have other: "\<not> owns m j l" if "j \<noteq> i" for j using that lock_invD(2) [OF inv own_l] by blast
  show ?thesis
  proof (rule lock_inv_same_owners [OF inv])
    show "owns m' j k = owns m j k" for j k
      using at h other [of j] by (auto simp: owns_def holding_def m' machine_defs)
    show "lk_cpu (locks m' k) = None" if "at m' j = Got k \<or> at m' j = Releasing k" for j k
      using that lock_invD(3) [OF inv, of j k] by (auto simp: m' machine_defs split: if_splits)
    show "lk_cpu (locks m' k) = None" if "locked (locks m' k) = 0" for k
      using that lock_invD(4) [OF inv, of k] by (auto simp: m' machine_defs split: if_splits)
  qed (use lock_invD(7) [OF inv] at in \<open>auto simp: m' machine_defs spins_def\<close>)
qed

lemma release_exit_inv:
  assumes inv: "lock_inv m" and at: "at m i = Releasing l" and r: "release_exit i l m = Inr m'"
  shows "lock_inv m'"
proof -
  obtain c where c: "popcli (cpus m i) = Inr c"
      and m': "m' = goto i Outside (set_cpu i c (set_lock l ((locks m l)\<lparr>locked := 0\<rparr>) m))"
    using r by (cases "popcli (cpus m i)") (simp_all add: release_exit_def xchg_def Let_def machine_defs)
  have pop: "ncli c = ncli (cpus m i) - 1" "ncli c > 0 \<Longrightarrow> \<not> fl_if c"
    using c by (auto simp: popcli_def Let_def split: if_splits)
  have own_l: "owns m i l" using at by (simp add: owns_def)
  have note_l: "lk_cpu (locks m l) = None" using lock_invD(3) [OF inv] at by blast
  have other: "\<not> owns m j l" if "j \<noteq> i" for j using that lock_invD(2) [OF inv own_l] by blast
  have at': "at m' = (at m)(i := Outside)" and locks': "locks m' = (locks m)(l := (locks m l)\<lparr>locked := 0\<rparr>)"
    by (simp_all add: m' machine_defs)
  have own: "owns m' j k \<longleftrightarrow> owns m j k \<and> \<not> (j = i \<and> k = l)" for j k
  proof (cases "k = l")
    case True
    then show ?thesis using other [of j] by (auto simp: owns_def holding_def at' locks')
  next
    case False
    then show ?thesis using at by (simp add: owns_def holding_def at' locks')
  qed
  have set: "{k. owns m' j k} = (if j = i then {k. owns m j k} - {l} else {k. owns m j k})" for j
    using own by auto
  show ?thesis
  proof (rule lock_invI)
    fix j k h
    show "locked (locks m' k) \<noteq> 0" if "owns m' j k"
      using that own lock_invD(1) [OF inv, of j k] lock_invD(2) [OF inv own_l, of j]
      by (auto simp: m' machine_defs)
    show "j = h" if "owns m' j k" "owns m' h k" using that own lock_invD(2) [OF inv, of j k h] by auto
    show "lk_cpu (locks m' k) = None" if "at m' j = Got k \<or> at m' j = Releasing k"
      using that lock_invD(3) [OF inv, of j k] by (auto simp: m' machine_defs split: if_splits)
    show "lk_cpu (locks m' k) = None" if "locked (locks m' k) = 0"
      using that note_l lock_invD(4) [OF inv, of k] by (auto simp: m' machine_defs split: if_splits)
    show "finite {k. owns m' j k}" unfolding set using lock_invD(5) [OF inv] by simp
    have "card {k. owns m j k} = card {k. owns m' j k} + (if j = i then 1 else 0)"
      unfolding set using own_l lock_invD(5) [OF inv, of i] card.remove [of "{k. owns m i k}" l] by simp
    moreover have "spins m' j = spins m j" "ncli (cpus m' j) = ncli (cpus m j) - (if j = i then 1 else 0)"
      using at pop(1) by (simp_all add: m' machine_defs spins_def)
    ultimately show "ncli (cpus m' j) = int (card {k. owns m' j k}) + int (spins m' j)"
      using lock_invD(6) [OF inv, of j] by simp
    show "\<not> fl_if (cpus m' j)" if "ncli (cpus m' j) > 0"
      using that pop lock_invD(7) [OF inv, of j] by (auto simp: m' machine_defs split: if_splits)
  qed
qed

lemma lock_step_inv: "lock_step m m' \<Longrightarrow> lock_inv m \<Longrightarrow> lock_inv m'"
  by (induction rule: lock_step.induct)
    (auto intro: acquire_enter_inv acquire_spin_inv acquire_done_inv release_enter_inv release_exit_inv)

section \<open>Properties\<close>

text \<open>All processors outside, with interrupts on, and all locks free.\<close>

definition boot_machine :: machine where
  "boot_machine =
     \<lparr>cpus = (\<lambda>_. \<lparr>ncli = 0, intena = False, fl_if = True\<rparr>),
      locks = (\<lambda>_. initlock ''lock'' \<lparr>locked = 1, lk_name = [], lk_cpu = None, pcs = replicate 10 0\<rparr>),
      at = (\<lambda>_. Outside)\<rparr>"

lemma boot_machine_inv: "lock_inv boot_machine"
  by (rule lock_invI) (auto simp: boot_machine_def owns_def holding_def spins_def initlock_def)

text \<open>
  C4. Mutual exclusion: in every reachable state of any number of processors taking any locks in any
  interleaving, at most one processor is in the critical section of a lock, and it has interrupts
  disabled as long as it is.
\<close>

theorem mutual_exclusion:
  assumes "lock_step\<^sup>*\<^sup>* boot_machine m" "owns m i l"
  shows "(\<forall>j. owns m j l \<longrightarrow> j = i) \<and> ncli (cpus m i) > 0 \<and> \<not> fl_if (cpus m i)"
proof -
  have inv: "lock_inv m" using assms(1) by induction (auto intro: boot_machine_inv lock_step_inv)
  have "0 < card {l. owns m i l}" using assms(2) lock_invD(5) [OF inv] by (auto simp: card_gt_0_iff)
  then have "ncli (cpus m i) > 0" using lock_invD(6) [OF inv, of i] by simp
  with lock_invD(2) [OF inv assms(2)] lock_invD(7) [OF inv] show ?thesis by blast
qed

theorem mutual_exclusion_witness:
  "\<exists>m. lock_step\<^sup>*\<^sup>* boot_machine m \<and> owns m 0 7 \<and> (\<forall>j. owns m j 7 \<longrightarrow> j = 0)"
proof -
  obtain m1 where m1: "acquire_enter 0 7 boot_machine = Inr m1" "at m1 0 = Spinning 7" "locked (locks m1 7) = 0"
    by (auto simp: acquire_enter_def boot_machine_def holding_def initlock_def machine_defs)
  let ?m = "acquire_spin 0 7 m1"
  have "lock_step boot_machine m1" using m1(1) by (intro lock_step.enter) (simp_all add: boot_machine_def)
  moreover have "lock_step m1 ?m" using m1(2) by (rule lock_step.spin)
  ultimately have r: "lock_step\<^sup>*\<^sup>* boot_machine ?m" by auto
  have o: "owns ?m 0 7" using m1(2,3) by (simp add: acquire_spin_def xchg_def owns_def machine_defs)
  from mutual_exclusion [OF r o] r o show ?thesis by blast
qed

text \<open>\<open>n\<close> calls of \<^verbatim>\<open>pushcli\<close> and \<open>n\<close> calls of \<^verbatim>\<open>popcli\<close>.\<close>

primrec pushes :: "nat \<Rightarrow> cpu \<Rightarrow> cpu" where
  "pushes 0 c = c"
| "pushes (Suc n) c = pushes n (pushcli c)"

primrec pops :: "nat \<Rightarrow> cpu \<Rightarrow> fault + cpu" where
  "pops 0 c = Inr c"
| "pops (Suc n) c = (case popcli c of Inl f \<Rightarrow> Inl f | Inr c1 \<Rightarrow> pops n c1)"

lemma pushes_simps:
  "ncli (pushes n c) = ncli c + int n" "n > 0 \<Longrightarrow> \<not> fl_if (pushes n c)"
  "n > 0 \<Longrightarrow> ncli c \<ge> 0 \<Longrightarrow> intena (pushes n c) = (if ncli c = 0 then fl_if c else intena c)"
proof (induction n arbitrary: c)
  case (Suc n)
  { case 1 show ?case using Suc.IH(1) by simp
  next case 2 show ?case by (cases n) (use Suc.IH(2) in auto)
  next case 3 then show ?case
      using Suc.IH(3) [of "pushcli c"] by (cases n) (auto simp: pushcli_def Let_def) }
qed simp_all

lemma pops_down:
  "\<not> fl_if c \<Longrightarrow> ncli c = int n + k \<Longrightarrow> 0 \<le> k \<Longrightarrow> 0 < n \<Longrightarrow>
     pops n c = Inr (c\<lparr>ncli := k, fl_if := (k = 0 \<and> intena c)\<rparr>)"
proof (induction n arbitrary: c)
  case (Suc n)
  let ?c = "c\<lparr>ncli := int n + k\<rparr>"
  have p: "popcli c = Inr (if int n + k = 0 \<and> intena c then ?c\<lparr>fl_if := True\<rparr> else ?c)"
    using Suc.prems by (simp add: popcli_def Let_def)
  show ?case
  proof (cases n)
    case 0
    with p Suc.prems show ?thesis by auto
  next
    case (Suc n')
    with p Suc.IH [of ?c] Suc.prems show ?thesis by simp
  qed
qed simp

text \<open>
  C38. Nesting: however deep, matching \<^verbatim>\<open>pushcli\<close> and \<^verbatim>\<open>popcli\<close> calls never panic and leave the interrupt
  flag and the nesting depth as they were; if interrupts were off they stay off.
\<close>

theorem pushcli_popcli_restore:
  assumes "0 \<le> ncli c" "ncli c > 0 \<longrightarrow> \<not> fl_if c"
  shows "\<exists>c'. pops n (pushes n c) = Inr c' \<and> fl_if c' = fl_if c \<and> ncli c' = ncli c"
proof (cases "n = 0")
  case False
  with pops_down [of "pushes n c" n "ncli c"] pushes_simps [of n c] assms show ?thesis by auto
qed simp

theorem pushcli_popcli_witness:
  "\<exists>c'. pops 3 (pushes 3 \<lparr>ncli = 0, intena = False, fl_if = True\<rparr>) = Inr c' \<and> fl_if c' \<and> ncli c' = 0"
  using pushcli_popcli_restore [of "\<lparr>ncli = 0, intena = False, fl_if = True\<rparr>" 3] by auto

end
