(* ===== verification/Bio.thy ===== *)
theory Bio
  imports Prelude
begin

text \<open>
  \<^verbatim>\<open>bio.c\<close>, the buffer cache, over the memory disk of \<^verbatim>\<open>memide.c\<close>. The buffers are linked by \<^verbatim>\<open>prev\<close> and
  \<^verbatim>\<open>next\<close> in a ring through \<^verbatim>\<open>bcache.head\<close>. The three bits of \<^verbatim>\<open>flags\<close> are three Boolean fields. An
  operation is the critical section that \<^verbatim>\<open>bcache.lock\<close> protects.
\<close>

section \<open>Buffers and the disk\<close>

abbreviation (input) NBUF :: nat where
  "NBUF \<equiv> 10"

text \<open>The node \<^verbatim>\<open>bcache.head\<close>, next to the buffers 0 to 9.\<close>

abbreviation (input) HEAD :: nat where
  "HEAD \<equiv> 10"

record buf =
  busy :: bool
  valid :: bool
  dirty :: bool
  dev :: uint
  sector :: nat
  bdata :: string

record bcache =
  bufs :: "nat \<Rightarrow> buf"
  nxt :: "nat \<Rightarrow> nat"
  prv :: "nat \<Rightarrow> nat"

record memdisk =
  blocks :: "nat \<Rightarrow> string"
  disksize :: nat

definition set_buf :: "nat \<Rightarrow> buf \<Rightarrow> bcache \<Rightarrow> bcache" where
  "set_buf b x c = c\<lparr>bufs := (bufs c)(b := x)\<rparr>"

definition iderw :: "nat \<Rightarrow> bcache \<times> memdisk \<Rightarrow> fault + (bcache \<times> memdisk)" where
  "iderw b = (\<lambda>(c, d).
     let x = bufs c b in
     if \<not> busy x then Inl (Panic ''iderw: buf not busy'')
     else if valid x \<and> \<not> dirty x then Inl (Panic ''iderw: nothing to do'')
     else if dev x \<noteq> 1 then Inl (Panic ''iderw: request not for disk 1'')
     else if sector x \<ge> disksize d then Inl (Panic ''iderw: sector out of range'')
     else if dirty x
     then Inr (set_buf b (x\<lparr>dirty := False, valid := True\<rparr>) c,
               d\<lparr>blocks := (blocks d)(sector x := bdata x)\<rparr>)
     else Inr (set_buf b (x\<lparr>bdata := blocks d (sector x), valid := True\<rparr>) c, d))"

section \<open>The cache\<close>

text \<open>The body of the loop of \<^verbatim>\<open>binit\<close>, and the list insertion that \<^verbatim>\<open>brelse\<close> shares with it.\<close>

definition link_front :: "nat \<Rightarrow> bcache \<Rightarrow> bcache" where
  "link_front b c =
     (let c1 = c\<lparr>nxt := (nxt c)(b := nxt c HEAD)\<rparr>;
          c2 = c1\<lparr>prv := (prv c1)(b := HEAD)\<rparr>;
          c3 = c2\<lparr>prv := (prv c2)(nxt c2 HEAD := b)\<rparr>
      in c3\<lparr>nxt := (nxt c3)(HEAD := b)\<rparr>)"

definition binit_buf :: "nat \<Rightarrow> bcache \<Rightarrow> bcache" where
  "binit_buf b c = link_front b (set_buf b ((bufs c b)\<lparr>dev := - 1\<rparr>) c)"

definition binit :: "bcache \<Rightarrow> bcache" where
  "binit c =
     foldl (\<lambda>c b. binit_buf b c) (c\<lparr>prv := (prv c)(HEAD := HEAD), nxt := (nxt c)(HEAD := HEAD)\<rparr>) [0..<NBUF]"

text \<open>
  The loops of \<^verbatim>\<open>bget\<close>: follow the links until the head. The ring has ten buffers, so eleven rounds
  are enough.
\<close>

fun search :: "(nat \<Rightarrow> nat) \<Rightarrow> (nat \<Rightarrow> bool) \<Rightarrow> nat \<Rightarrow> nat \<Rightarrow> nat option" where
  "search f P 0 b = None"
| "search f P (Suc n) b = (if b = HEAD then None else if P b then Some b else search f P n (f b))"

text \<open>A buffer, or the buffer that the caller has to sleep on before it tries again.\<close>

datatype got = Buf nat | Wait nat

definition bget :: "uint \<Rightarrow> nat \<Rightarrow> bcache \<Rightarrow> fault + (got \<times> bcache)" where
  "bget dv sec c =
     (case search (nxt c) (\<lambda>b. dev (bufs c b) = dv \<and> sector (bufs c b) = sec) (NBUF + 1) (nxt c HEAD) of
        Some b \<Rightarrow>
          if \<not> busy (bufs c b) then Inr (Buf b, set_buf b ((bufs c b)\<lparr>busy := True\<rparr>) c)
          else Inr (Wait b, c)
      | None \<Rightarrow>
          (case search (prv c) (\<lambda>b. \<not> busy (bufs c b) \<and> \<not> dirty (bufs c b)) (NBUF + 1) (prv c HEAD) of
             Some b \<Rightarrow>
               Inr (Buf b, set_buf b ((bufs c b)\<lparr>dev := dv, sector := sec, busy := True,
                 valid := False, dirty := False\<rparr>) c)
           | None \<Rightarrow> Inl (Panic ''bget: no buffers'')))"

definition bread :: "uint \<Rightarrow> nat \<Rightarrow> bcache \<times> memdisk \<Rightarrow> fault + (got \<times> bcache \<times> memdisk)" where
  "bread dv sec = (\<lambda>(c, d).
     case bget dv sec c of
       Inl f \<Rightarrow> Inl f
     | Inr (Wait b, c1) \<Rightarrow> Inr (Wait b, c1, d)
     | Inr (Buf b, c1) \<Rightarrow>
         if \<not> valid (bufs c1 b) then map_sum id (\<lambda>(c2, d2). (Buf b, c2, d2)) (iderw b (c1, d))
         else Inr (Buf b, c1, d))"

definition bwrite :: "nat \<Rightarrow> bcache \<times> memdisk \<Rightarrow> fault + (bcache \<times> memdisk)" where
  "bwrite b = (\<lambda>(c, d).
     if \<not> busy (bufs c b) then Inl (Panic ''bwrite'')
     else iderw b (set_buf b ((bufs c b)\<lparr>dirty := True\<rparr>) c, d))"

definition unlink_buf :: "nat \<Rightarrow> bcache \<Rightarrow> bcache" where
  "unlink_buf b c =
     (let c1 = c\<lparr>prv := (prv c)(nxt c b := prv c b)\<rparr>
      in c1\<lparr>nxt := (nxt c1)(prv c1 b := nxt c1 b)\<rparr>)"

definition brelse :: "nat \<Rightarrow> bcache \<Rightarrow> fault + bcache" where
  "brelse b c =
     (if \<not> busy (bufs c b) then Inl (Panic ''brelse'')
      else let c1 = link_front b (unlink_buf b c)
        in Inr (set_buf b ((bufs c1 b)\<lparr>busy := False\<rparr>) c1))"

section \<open>The ring of buffers\<close>

text \<open>The nodes \<open>xs\<close> lie on the way from \<open>a\<close> to \<open>b\<close>.\<close>

primrec links :: "(nat \<Rightarrow> nat) \<Rightarrow> nat \<Rightarrow> nat list \<Rightarrow> nat \<Rightarrow> bool" where
  "links f a [] b \<longleftrightarrow> f a = b"
| "links f a (x # xs) b \<longleftrightarrow> f a = x \<and> links f x xs b"

definition ring :: "bcache \<Rightarrow> nat list \<Rightarrow> bool" where
  "ring c xs \<longleftrightarrow> links (nxt c) HEAD xs HEAD \<and> links (prv c) HEAD (rev xs) HEAD \<and> distinct (HEAD # xs)"

lemma links_append: "links f a (xs @ y # ys) b \<longleftrightarrow> links f a xs y \<and> links f y ys b"
  by (induction xs arbitrary: a) auto

lemma links_frame: "z \<notin> set (a # xs) \<Longrightarrow> links (f(z := v)) a xs b = links f a xs b"
  by (induction xs arbitrary: a) auto

lemma links_redirect:
  "links f a xs b \<Longrightarrow> distinct (a # xs) \<Longrightarrow> links (f(last (a # xs) := c)) a xs c"
proof (induction xs arbitrary: a)
  case (Cons x xs)
  then show ?case by (cases xs) auto
qed simp

lemma links_first: "links f a xs b \<Longrightarrow> f a = hd (xs @ [b])"
  by (cases xs) auto

lemma links_join:
  assumes "links f a p y" "links f y q b" "distinct (a # p @ q)"
  shows "links (f(last (a # p) := f y)) a (p @ q) b"
proof (cases q)
  case Nil
  with assms links_redirect show ?thesis by auto
next
  case (Cons x q')
  have "links (f(last (a # p) := x)) a p x" using assms Cons by (intro links_redirect) auto
  moreover have "last (a # p) \<notin> set (x # q')" using assms(3) Cons by (cases p rule: rev_cases) auto
  then have "links (f(last (a # p) := x)) x q' b" using assms(2) Cons by (simp add: links_frame)
  ultimately show ?thesis using assms(2) Cons by (simp add: links_append)
qed

lemma ring_unlink:
  assumes "ring c (p @ b # q)"
  shows "ring (unlink_buf b c) (p @ q)"
proof -
  have n: "links (nxt c) HEAD p b" "links (nxt c) b q HEAD"
    and r: "links (prv c) HEAD (rev q) b" "links (prv c) b (rev p) HEAD"
    and d: "distinct (HEAD # p @ b # q)"
    using assms by (simp_all add: ring_def links_append)
  have "prv c b = last (HEAD # p)" using links_first [OF r(2)] by (cases p rule: rev_cases) auto
  moreover have "nxt c b = last (HEAD # rev q)" using links_first [OF n(2)] by (cases q) auto
  moreover have "nxt c b \<noteq> b" using links_first [OF n(2)] d by (cases q) auto
  ultimately have "unlink_buf b c = c\<lparr>prv := (prv c)(last (HEAD # rev q) := prv c b),
      nxt := (nxt c)(last (HEAD # p) := nxt c b)\<rparr>"
    by (simp add: unlink_buf_def Let_def)
  moreover have "links ((nxt c)(last (HEAD # p) := nxt c b)) HEAD (p @ q) HEAD"
    using d by (intro links_join [OF n]) auto
  moreover have "links ((prv c)(last (HEAD # rev q) := prv c b)) HEAD (rev q @ rev p) HEAD"
    using d by (intro links_join [OF r]) auto
  ultimately show ?thesis using d by (auto simp add: ring_def simp del: last.simps)
qed

lemma ring_link_front:
  assumes "ring c xs" "b \<notin> set (HEAD # xs)"
  shows "ring (link_front b c) (b # xs)"
proof -
  have n: "links (nxt c) HEAD xs HEAD" and r: "links (prv c) HEAD (rev xs) HEAD"
    and d: "distinct (HEAD # xs)" using assms(1) by (simp_all add: ring_def)
  have first: "nxt c HEAD = last (HEAD # rev xs)" using links_first [OF n] by (cases xs) auto
  have b: "b \<noteq> HEAD" "b \<notin> set xs" using assms(2) by auto
  let ?n = "(nxt c)(b := nxt c HEAD, HEAD := b)"
  let ?p = "(prv c)(b := HEAD, nxt c HEAD := b)"
  have "link_front b c = c\<lparr>nxt := ?n, prv := ?p\<rparr>" using b by (simp add: link_front_def Let_def)
  moreover have "links ?n HEAD (b # xs) HEAD"
  proof (cases xs)
    case Nil
    with n b show ?thesis by simp
  next
    case (Cons x ys)
    have "HEAD \<notin> set (x # ys)" "b \<notin> set (x # ys)" using d b Cons by auto
    then have "links ?n x ys HEAD = links (nxt c) x ys HEAD" by (simp only: links_frame not_False_eq_True)
    with n b Cons show ?thesis by simp
  qed
  moreover have "links ?p HEAD (rev xs @ [b]) HEAD"
  proof -
    have "links ((prv c)(b := HEAD)) HEAD (rev xs) HEAD" using r b by (subst links_frame) auto
    then have "links ?p HEAD (rev xs) b" unfolding first using d by (intro links_redirect) auto
    moreover have "nxt c HEAD \<noteq> b" using first b by (cases xs) auto
    ultimately show ?thesis by (simp add: links_append)
  qed
  ultimately show ?thesis using d b by (simp add: ring_def)
qed

lemma search_find:
  assumes "links f a xs HEAD" "HEAD \<notin> set xs" "length xs < n"
  shows "search f P n (f a) = find P xs"
  using assms
proof (induction xs arbitrary: a n)
  case Nil
  then show ?case by (cases n) auto
next
  case (Cons x xs)
  then obtain k where k: "n = Suc k" "length xs < k" by (cases n) auto
  have "f a = x" "links f x xs HEAD" using Cons.prems(1) by simp_all
  with Cons.IH [of x k] Cons.prems(2) k show ?case by auto
qed

lemma ring_search:
  assumes "ring c xs" "length xs = NBUF"
  shows "search (nxt c) P (NBUF + 1) (nxt c HEAD) = find P xs"
    and "search (prv c) P (NBUF + 1) (prv c HEAD) = find P (rev xs)"
  using assms by (auto simp: ring_def intro!: search_find simp del: search.simps)

section \<open>The invariant of the cache\<close>

text \<open>
  The ring holds the ten buffers; no block is cached twice; a valid buffer caches a block of disk 1 and
  has the contents of the disk unless it is dirty; and a buffer that is dirty or held is valid. \<open>xs\<close> is the ring, the most
  recently released buffer first.
\<close>

definition coherent :: "memdisk \<Rightarrow> buf \<Rightarrow> bool" where
  "coherent d x \<longleftrightarrow> (valid x \<and> \<not> dirty x \<longrightarrow> bdata x = blocks d (sector x)) \<and> (dirty x \<or> busy x \<longrightarrow> valid x) \<and>
     (valid x \<longrightarrow> dev x = 1 \<and> sector x < disksize d)"

definition no_alias :: "bcache \<Rightarrow> bool" where
  "no_alias c \<longleftrightarrow> (\<forall>i < NBUF. \<forall>j < NBUF. dev (bufs c i) = dev (bufs c j) \<and>
     sector (bufs c i) = sector (bufs c j) \<and> dev (bufs c i) \<noteq> - 1 \<longrightarrow> i = j)"

definition cache_inv :: "bcache \<Rightarrow> memdisk \<Rightarrow> nat list \<Rightarrow> bool" where
  "cache_inv c d xs \<longleftrightarrow> ring c xs \<and> set xs = {..<NBUF} \<and> no_alias c \<and> (\<forall>b < NBUF. coherent d (bufs c b))"

text \<open>What the file system sees as the contents of a block of disk 1: the cached copy if there is one.\<close>

definition block_view :: "bcache \<Rightarrow> memdisk \<Rightarrow> nat \<Rightarrow> string" where
  "block_view c d s =
     (case find (\<lambda>b. dev (bufs c b) = 1 \<and> sector (bufs c b) = s \<and> valid (bufs c b)) [0..<NBUF] of
        Some b \<Rightarrow> bdata (bufs c b)
      | None \<Rightarrow> blocks d s)"

lemma ring_set_buf [simp]: "ring (set_buf b x c) xs = ring c xs"
  by (simp add: ring_def set_buf_def)

lemma bufs_set_buf [simp]: "bufs (set_buf b x c) = (bufs c)(b := x)"
  by (simp add: set_buf_def)

lemma set_buf_set_buf [simp]: "set_buf b x (set_buf b y c) = set_buf b x c"
  by (simp add: set_buf_def)

lemma links_set_buf [simp]: "nxt (set_buf b x c) = nxt c" "prv (set_buf b x c) = prv c"
  by (simp_all add: set_buf_def)

lemma bufs_link_front [simp]: "bufs (link_front b c) = bufs c"
  by (simp add: link_front_def Let_def)

lemma bufs_unlink [simp]: "bufs (unlink_buf b c) = bufs c"
  by (simp add: unlink_buf_def Let_def)

lemma cache_inv_length: "cache_inv c d xs \<Longrightarrow> length xs = NBUF"
  by (auto simp: cache_inv_def ring_def dest!: distinct_card)

lemmas cache_search = ring_search [OF _ cache_inv_length]

lemma block_view_cached:
  assumes "no_alias c" "b < NBUF" "dev (bufs c b) = 1" "sector (bufs c b) = s" "valid (bufs c b)"
  shows "block_view c d s = bdata (bufs c b)"
proof -
  let ?P = "\<lambda>b. dev (bufs c b) = 1 \<and> sector (bufs c b) = s \<and> valid (bufs c b)"
  have "find ?P [0..<NBUF] \<noteq> None" using assms by (auto simp: find_None_iff)
  then obtain b' where f: "find ?P [0..<NBUF] = Some b'" by auto
  then have "?P b'" "b' < NBUF" by (auto simp: find_Some_iff)
  with assms have "b' = b" by (auto simp: no_alias_def)
  with f show ?thesis by (simp add: block_view_def)
qed

lemma block_view_uncached:
  assumes "\<And>b. b < NBUF \<Longrightarrow> dev (bufs c b) = 1 \<Longrightarrow> sector (bufs c b) = s \<Longrightarrow> valid (bufs c b) \<Longrightarrow> False"
  shows "block_view c d s = blocks d s"
proof -
  have "find (\<lambda>b. dev (bufs c b) = 1 \<and> sector (bufs c b) = s \<and> valid (bufs c b)) [0..<NBUF] = None"
    using assms by (auto simp: find_None_iff)
  then show ?thesis by (simp add: block_view_def)
qed

lemma block_view_same:
  assumes "\<And>i. dev (bufs c' i) = dev (bufs c i) \<and> sector (bufs c' i) = sector (bufs c i) \<and>
      valid (bufs c' i) = valid (bufs c i) \<and> bdata (bufs c' i) = bdata (bufs c i)"
  shows "block_view c' d s = block_view c d s"
  using assms by (simp add: block_view_def split: option.split)

text \<open>The view changes only through the buffer that changes.\<close>

lemma block_view_upd_other:
  assumes "dev x \<noteq> 1 \<or> sector x \<noteq> s" "dev (bufs c b) = 1 \<Longrightarrow> sector (bufs c b) = s \<Longrightarrow> valid (bufs c b) \<Longrightarrow>
      bdata (bufs c b) = blocks d s"
    and "no_alias c" "blocks d' s = blocks d s" "b < NBUF"
  shows "block_view (set_buf b x c) d' s = block_view c d s"
proof (cases "\<exists>j < NBUF. dev (bufs c j) = 1 \<and> sector (bufs c j) = s \<and> valid (bufs c j)")
  case True
  then obtain j where j: "j < NBUF" "dev (bufs c j) = 1" "sector (bufs c j) = s" "valid (bufs c j)"
    by auto
  have v: "block_view c d s = bdata (bufs c j)" using assms(3) j by (rule block_view_cached)
  show ?thesis
  proof (cases "j = b")
    case True
    have "block_view (set_buf b x c) d' s = blocks d' s"
      using j assms(1,3,5) True by (intro block_view_uncached) (auto simp: no_alias_def split: if_splits)
    with v True j assms(2,4) show ?thesis by simp
  next
    case False
    let ?P = "\<lambda>i. dev (bufs (set_buf b x c) i) = 1 \<and> sector (bufs (set_buf b x c) i) = s \<and>
      valid (bufs (set_buf b x c) i)"
    have "?P j" using j False by simp
    then have "find ?P [0..<NBUF] \<noteq> None" using j(1) by (auto simp: find_None_iff)
    then obtain i where f: "find ?P [0..<NBUF] = Some i" by auto
    then have "?P i" "i < NBUF" by (auto simp: find_Some_iff)
    then have "i = j" using j assms(1,3) by (auto simp: no_alias_def split: if_splits)
    with f v False show ?thesis by (simp add: block_view_def)
  qed
next
  case False
  then have "block_view c d s = blocks d s" by (intro block_view_uncached) auto
  moreover have "block_view (set_buf b x c) d' s = blocks d' s"
    using False assms(1) by (intro block_view_uncached) (auto split: if_splits)
  ultimately show ?thesis using assms(4) by simp
qed

section \<open>The operations keep the invariant\<close>

lemma cache_invD:
  assumes "cache_inv c d xs"
  shows "ring c xs" "set xs = {..<NBUF}" "no_alias c" "\<And>b. b < NBUF \<Longrightarrow> coherent d (bufs c b)"
  using assms by (auto simp: cache_inv_def)

lemma no_aliasD:
  "no_alias c \<Longrightarrow> i < NBUF \<Longrightarrow> j < NBUF \<Longrightarrow> dev (bufs c i) = dev (bufs c j) \<Longrightarrow>
    sector (bufs c i) = sector (bufs c j) \<Longrightarrow> dev (bufs c i) \<noteq> - 1 \<Longrightarrow> i = j"
  unfolding no_alias_def by blast

lemma no_alias_same:
  "(\<And>i. dev (bufs c' i) = dev (bufs c i) \<and> sector (bufs c' i) = sector (bufs c i)) \<Longrightarrow> no_alias c' = no_alias c"
  by (simp add: no_alias_def)

lemma cache_inv_set_buf:
  assumes "cache_inv c d xs" "coherent d x"
    and "\<And>j. j < NBUF \<Longrightarrow> j \<noteq> b \<Longrightarrow> dev x \<noteq> - 1 \<Longrightarrow> \<not> (dev (bufs c j) = dev x \<and> sector (bufs c j) = sector x)"
  shows "cache_inv (set_buf b x c) d xs"
  using assms unfolding cache_inv_def no_alias_def by (auto split: if_splits) metis+

lemma map_sum_Inr_iff: "map_sum id f x = Inr y \<longleftrightarrow> (\<exists>z. x = Inr z \<and> f z = y)"
  by (cases x) auto

text \<open>The two ways in which \<^verbatim>\<open>bget\<close> returns a buffer.\<close>

lemma bget_cases:
  assumes "cache_inv c d xs" "bget dv sec c = Inr (Buf b, c')"
  obtains (cached) "b < NBUF" "dev (bufs c b) = dv" "sector (bufs c b) = sec" "\<not> busy (bufs c b)"
      "c' = set_buf b ((bufs c b)\<lparr>busy := True\<rparr>) c"
    | (recycled) "b < NBUF" "\<not> busy (bufs c b)" "\<not> dirty (bufs c b)"
      "\<And>j. j < NBUF \<Longrightarrow> \<not> (dev (bufs c j) = dv \<and> sector (bufs c j) = sec)"
      "find (\<lambda>b. \<not> busy (bufs c b) \<and> \<not> dirty (bufs c b)) (rev xs) = Some b"
      "c' = set_buf b ((bufs c b)\<lparr>dev := dv, sector := sec, busy := True, valid := False, dirty := False\<rparr>) c"
proof (cases "find (\<lambda>b. dev (bufs c b) = dv \<and> sector (bufs c b) = sec) xs")
  case None
  note find = cache_search [OF cache_invD(1) [OF assms(1)] assms(1), simplified]
  from None have no: "\<And>j. j < NBUF \<Longrightarrow> \<not> (dev (bufs c j) = dv \<and> sector (bufs c j) = sec)"
    using cache_invD(2) [OF assms(1)] by (auto simp: find_None_iff)
  from assms(2) None have b: "find (\<lambda>b. \<not> busy (bufs c b) \<and> \<not> dirty (bufs c b)) (rev xs) = Some b"
    and "c' = set_buf b ((bufs c b)\<lparr>dev := dv, sector := sec, busy := True, valid := False, dirty := False\<rparr>) c"
    by (auto simp: bget_def find simp del: search.simps split: option.splits)
  moreover have "b < NBUF" "\<not> busy (bufs c b)" "\<not> dirty (bufs c b)"
  proof -
    from b obtain i where i: "i < length (rev xs)" "\<not> busy (bufs c (rev xs ! i)) \<and> \<not> dirty (bufs c (rev xs ! i))"
      "b = rev xs ! i" by (auto simp: find_Some_iff)
    then show "\<not> busy (bufs c b)" "\<not> dirty (bufs c b)" by simp_all
    have "b \<in> set (rev xs)" using i by (metis nth_mem)
    then show "b < NBUF" using cache_invD(2) [OF assms(1)] by simp
  qed
  ultimately show thesis using no recycled by blast
next
  case (Some i)
  note find = cache_search [OF cache_invD(1) [OF assms(1)] assms(1), simplified]
  from Some have i: "dev (bufs c i) = dv" "sector (bufs c i) = sec" "i \<in> set xs"
    by (auto simp: find_Some_iff)
  from assms(2) Some have "i = b" "\<not> busy (bufs c b)" "c' = set_buf b ((bufs c b)\<lparr>busy := True\<rparr>) c"
    by (auto simp: bget_def find simp del: search.simps split: if_splits)
  with i cache_invD(2) [OF assms(1)] cached show thesis by auto
qed

lemma bread_cases:
  assumes "cache_inv c d xs" "bread 1 sec (c, d) = Inr (Buf b, c', d')"
  obtains (hit) "b < NBUF" "dev (bufs c b) = 1" "sector (bufs c b) = sec" "\<not> busy (bufs c b)"
      "valid (bufs c b)" "d' = d" "c' = set_buf b ((bufs c b)\<lparr>busy := True\<rparr>) c"
    | (miss) "b < NBUF" "\<not> busy (bufs c b)" "\<not> dirty (bufs c b)"
      "\<And>j. j < NBUF \<Longrightarrow> valid (bufs c j) \<Longrightarrow> sector (bufs c j) \<noteq> sec"
      "\<And>j. j < NBUF \<Longrightarrow> j \<noteq> b \<Longrightarrow> \<not> (dev (bufs c j) = 1 \<and> sector (bufs c j) = sec)"
      "sec < disksize d" "d' = d"
      "c' = set_buf b ((bufs c b)\<lparr>dev := 1, sector := sec, busy := True, valid := True, dirty := False,
        bdata := blocks d sec\<rparr>) c"
proof -
  from assms(2) obtain c1 where g: "bget 1 sec c = Inr (Buf b, c1)"
    by (auto simp: bread_def map_sum_Inr_iff split: sum.splits prod.splits got.splits if_splits)
  from assms(1) g show thesis
  proof (cases rule: bget_cases)
    case cached
    note coh = cache_invD(4) [OF assms(1) cached(1)]
    show thesis
    proof (cases "valid (bufs c b)")
      case True
      with cached g assms(2) hit show thesis by (simp add: bread_def)
    next
      case False
      then have clean: "\<not> dirty (bufs c b)" using coh by (auto simp: coherent_def)
      have other: "\<And>j. j < NBUF \<Longrightarrow> j \<noteq> b \<Longrightarrow> \<not> (dev (bufs c j) = 1 \<and> sector (bufs c j) = sec)"
        using cached cache_invD(3) [OF assms(1)] unfolding no_alias_def by fastforce
      have "\<And>j. j < NBUF \<Longrightarrow> valid (bufs c j) \<Longrightarrow> sector (bufs c j) \<noteq> sec"
        using other False cache_invD(4) [OF assms(1)] unfolding coherent_def by metis
      moreover have "sec < disksize d" "d' = d" "c' = set_buf b ((bufs c b)\<lparr>dev := 1, sector := sec,
          busy := True, valid := True, dirty := False, bdata := blocks d sec\<rparr>) c"
        using g cached False clean assms(2)
        by (auto simp: bread_def iderw_def Let_def intro!: arg_cong2 [of _ _ _ _ "\<lambda>x. set_buf b x"] buf.equality
            split: if_splits)
      ultimately show thesis using miss cached(1,4) clean other by blast
    qed
  next
    case recycled
    have "\<And>j. j < NBUF \<Longrightarrow> valid (bufs c j) \<Longrightarrow> sector (bufs c j) \<noteq> sec"
      using recycled(4) cache_invD(4) [OF assms(1)] unfolding coherent_def by metis
    moreover have "sec < disksize d" "d' = d" "c' = set_buf b ((bufs c b)\<lparr>dev := 1, sector := sec,
        busy := True, valid := True, dirty := False, bdata := blocks d sec\<rparr>) c"
      using g recycled assms(2) by (auto simp: bread_def iderw_def Let_def intro!: arg_cong2 [of _ _ _ _ "\<lambda>x. set_buf b x"] buf.equality
            split: if_splits)
    ultimately show thesis using miss recycled(1-4) by blast
  qed
qed

lemma bread_inv:
  assumes "cache_inv c d xs" "bread 1 sec (c, d) = Inr (Buf b, c', d')"
  shows "cache_inv c' d' xs"
  using assms
proof (cases rule: bread_cases)
  case hit
  then show ?thesis using assms(1) cache_invD(3,4) [OF assms(1)]
    by (auto intro!: cache_inv_set_buf simp: coherent_def no_alias_def)
next
  case miss
  then show ?thesis using assms(1) by (auto intro!: cache_inv_set_buf simp: coherent_def)
qed

lemma bread_view:
  assumes "cache_inv c d xs" "bread 1 sec (c, d) = Inr (Buf b, c', d')"
  shows "block_view c' d' s = block_view c d s"
  using assms
proof (cases rule: bread_cases)
  case hit
  with block_view_same [of c' c d s] show ?thesis by simp
next
  case miss
  note inv = cache_invD [OF assms(1)]
  show ?thesis
  proof (cases "s = sec")
    case True
    have "block_view c' d' s = bdata (bufs c' b)"
      using miss True cache_invD(3) [OF bread_inv [OF assms]] by (intro block_view_cached) auto
    moreover have "block_view c d s = blocks d s" using miss True by (intro block_view_uncached) auto
    ultimately show ?thesis using miss True by simp
  next
    case False
    with miss inv(4) [OF miss(1)] inv(3) show ?thesis
      by (auto intro!: block_view_upd_other simp: coherent_def)
  qed
qed

lemma bread_keeps_waiters:
  assumes "bread dv sec (c, d) = Inr (Wait b, c', d')"
  shows "c' = c \<and> d' = d"
  using assms by (auto simp: bread_def bget_def map_sum_Inr_iff split: sum.splits prod.splits got.splits
      option.splits if_splits)

text \<open>The holder of a buffer changes its contents and writes it, or leaves it dirty for the log.\<close>

definition set_data :: "nat \<Rightarrow> string \<Rightarrow> bcache \<Rightarrow> bcache" where
  "set_data b v c = set_buf b ((bufs c b)\<lparr>bdata := v\<rparr>) c"

definition mark_dirty :: "nat \<Rightarrow> bcache \<Rightarrow> bcache" where
  "mark_dirty b c = set_buf b ((bufs c b)\<lparr>dirty := True\<rparr>) c"

lemma block_view_write:
  assumes "no_alias c'" "c' = set_buf b x c" "no_alias c" "b < NBUF"
    and "valid x" "dev x = 1" "dev (bufs c b) = 1" "sector x = sector (bufs c b)"
    and "\<And>s. s \<noteq> sector x \<Longrightarrow> blocks d' s = blocks d s"
  shows "block_view c' d' s = ((block_view c d)(sector x := bdata x)) s"
proof (cases "s = sector x")
  case True
  with assms block_view_cached [of c' b s d'] show ?thesis by simp
next
  case False
  with assms show ?thesis by (auto intro!: block_view_upd_other)
qed

lemma pin_inv:
  assumes inv: "cache_inv c d xs" and b: "b < NBUF" "busy (bufs c b)"
  shows "cache_inv (mark_dirty b (set_data b v c)) d xs"
    and "block_view (mark_dirty b (set_data b v c)) d = (block_view c d)(sector (bufs c b) := v)"
proof -
  let ?x = "(bufs c b)\<lparr>bdata := v, dirty := True\<rparr>"
  have c': "mark_dirty b (set_data b v c) = set_buf b ?x c"
    by (simp add: mark_dirty_def set_data_def)
  have coh: "coherent d (bufs c b)" by (rule cache_invD(4) [OF inv b(1)])
  have "cache_inv (set_buf b ?x c) d xs"
  proof (rule cache_inv_set_buf [OF inv])
    show "coherent d ?x" using coh b by (auto simp: coherent_def)
    fix j assume "j < NBUF" "j \<noteq> b" "dev ?x \<noteq> - 1"
    then show "\<not> (dev (bufs c j) = dev ?x \<and> sector (bufs c j) = sector ?x)"
      using cache_invD(3) [OF inv] b(1) by (auto simp: no_alias_def)
  qed
  then show "cache_inv (mark_dirty b (set_data b v c)) d xs" by (simp add: c')
  note na = cache_invD(3) [OF this, unfolded c']
  show "block_view (mark_dirty b (set_data b v c)) d = (block_view c d)(sector (bufs c b) := v)"
  proof
    fix s
    show "block_view (mark_dirty b (set_data b v c)) d s = ((block_view c d)(sector (bufs c b) := v)) s"
      unfolding c' using block_view_write [OF na refl cache_invD(3) [OF inv] b(1), of d d s] coh b
      by (auto simp: coherent_def)
  qed
qed

lemma bwrite_ok:
  assumes inv: "cache_inv c d xs" and b: "b < NBUF" "busy (bufs c b)"
  obtains c' d' where "bwrite b (set_data b v c, d) = Inr (c', d')" "cache_inv c' d' xs"
    "block_view c' d' = (block_view c d)(sector (bufs c b) := v)"
    "blocks d' = (blocks d)(sector (bufs c b) := v)" "disksize d' = disksize d"
proof -
  have coh: "coherent d (bufs c b)" by (rule cache_invD(4) [OF inv b(1)])
  define x where "x = (bufs c b)\<lparr>bdata := v, dirty := False\<rparr>"
  define d' where "d' = d\<lparr>blocks := (blocks d)(sector (bufs c b) := v)\<rparr>"
  have eq: "bwrite b (set_data b v c, d) = Inr (set_buf b x c, d')"
    using b coh by (auto simp: bwrite_def set_data_def iderw_def Let_def x_def d'_def coherent_def
        intro!: arg_cong [of _ _ "\<lambda>x. set_buf b x c"] buf.equality)
  have na: "\<not> (dev (bufs c j) = 1 \<and> sector (bufs c j) = sector (bufs c b))" if "j < NBUF" "j \<noteq> b" for j
    using no_aliasD [OF cache_invD(3) [OF inv] that(1) b(1)] that(2) b coh by (auto simp: coherent_def)
  have others: "coherent d' (bufs c j)" if "j < NBUF" "j \<noteq> b" for j
    using na [OF that] cache_invD(4) [OF inv that(1)] by (auto simp: coherent_def d'_def)
  have xs: "coherent d' x" using coh b by (auto simp: coherent_def x_def d'_def)
  have "no_alias (set_buf b x c)" using cache_invD(3) [OF inv] no_alias_same [of "set_buf b x c" c]
    by (simp add: x_def)
  then have inv': "cache_inv (set_buf b x c) d' xs"
    using cache_invD(1,2) [OF inv] others xs by (simp add: cache_inv_def)
  have "block_view (set_buf b x c) d' = (block_view c d)(sector (bufs c b) := v)"
  proof
    fix s
    show "block_view (set_buf b x c) d' s = ((block_view c d)(sector (bufs c b) := v)) s"
      using block_view_write [OF cache_invD(3) [OF inv'] refl cache_invD(3) [OF inv] b(1), of d' d s] coh b
      by (simp add: x_def d'_def coherent_def)
  qed
  with eq inv' that [of "set_buf b x c" d'] show thesis by (simp add: d'_def)
qed

lemma brelse_ok:
  assumes inv: "cache_inv c d xs" and b: "b < NBUF" "busy (bufs c b)"
  obtains c' where "brelse b c = Inr c'" "cache_inv c' d (b # remove1 b xs)" "\<not> busy (bufs c' b)"
    "\<And>s. block_view c' d s = block_view c d s"
proof -
  let ?c1 = "link_front b (unlink_buf b c)"
  define c' where "c' = set_buf b ((bufs ?c1 b)\<lparr>busy := False\<rparr>) ?c1"
  have "brelse b c = Inr c'" using b by (simp add: brelse_def c'_def Let_def)
  have mem: "b \<in> set xs" using cache_invD(2) [OF inv] b by simp
  then obtain p q where pq: "xs = p @ b # q" "b \<notin> set p" using in_set_conv_decomp_first by metis
  have r: "ring c (p @ b # q)" using cache_invD(1) [OF inv] pq by simp
  have "ring ?c1 (b # p @ q)"
    by (rule ring_link_front [OF ring_unlink [OF r]]) (use r in \<open>simp add: ring_def\<close>)
  then have "ring c' (b # remove1 b xs)" using pq by (simp add: c'_def remove1_append)
  moreover have "set (b # remove1 b xs) = {..<NBUF}"
  proof -
    have "set (remove1 b xs) = set xs - {b}"
      using cache_invD(1) [OF inv] by (simp add: ring_def set_remove1_eq)
    with mem cache_invD(2) [OF inv] show ?thesis by auto
  qed
  moreover have "no_alias c'" using cache_invD(3) [OF inv] no_alias_same [of c' c] by (simp add: c'_def)
  ultimately have "cache_inv c' d (b # remove1 b xs)"
    using cache_invD(4) [OF inv] by (auto simp: cache_inv_def c'_def coherent_def)
  moreover have "block_view c' d s = block_view c d s" for s
    unfolding c'_def by (rule block_view_same) simp
  ultimately show thesis using that [of c'] \<open>brelse b c = Inr c'\<close> by (simp add: c'_def)
qed

lemma binit_ok:
  assumes "\<And>b. b < NBUF \<Longrightarrow> \<not> valid (bufs c b) \<and> \<not> dirty (bufs c b) \<and> \<not> busy (bufs c b)"
  shows "cache_inv (binit c) d (rev [0..<NBUF])"
    and "block_view (binit c) d s = blocks d s"
    and "\<And>b. bufs (binit c) b = (if b < NBUF then (bufs c b)\<lparr>dev := - 1\<rparr> else bufs c b)"
proof -
  let ?c0 = "c\<lparr>prv := (prv c)(HEAD := HEAD), nxt := (nxt c)(HEAD := HEAD)\<rparr>"
  have step: "ring (foldl (\<lambda>c b. binit_buf b c) ?c0 [0..<n]) (rev [0..<n]) \<and>
      (\<forall>b. bufs (foldl (\<lambda>c b. binit_buf b c) ?c0 [0..<n]) b =
         (if b < n then (bufs c b)\<lparr>dev := - 1\<rparr> else bufs c b))" if "n \<le> NBUF" for n
    using that
  proof (induction n)
    case 0
    show ?case by (simp add: ring_def)
  next
    case (Suc n)
    then show ?case by (auto simp: binit_buf_def intro!: ring_link_front)
  qed
  have r: "ring (binit c) (rev [0..<NBUF])"
    and f: "\<And>b. bufs (binit c) b = (if b < NBUF then (bufs c b)\<lparr>dev := - 1\<rparr> else bufs c b)"
    unfolding binit_def using step [of NBUF] by blast+
  then show "\<And>b. bufs (binit c) b = (if b < NBUF then (bufs c b)\<lparr>dev := - 1\<rparr> else bufs c b)" by simp
  have "no_alias (binit c)" by (simp add: no_alias_def f)
  with r show "cache_inv (binit c) d (rev [0..<NBUF])"
    using assms by (simp add: cache_inv_def f coherent_def atLeast_upt del: upt_conv_Cons upt_rec_numeral)
  show "block_view (binit c) d s = blocks d s" by (rule block_view_uncached) (simp add: f)
qed

lemma bread_total:
  assumes inv: "cache_inv c d xs" and sec: "sec < disksize d"
    and free: "i < NBUF" "\<not> busy (bufs c i)" "\<not> dirty (bufs c i)"
  shows "(\<exists>b c'. bread 1 sec (c, d) = Inr (Buf b, c', d)) \<or>
    (\<exists>b < NBUF. bread 1 sec (c, d) = Inr (Wait b, c, d) \<and> busy (bufs c b) \<and> dev (bufs c b) = 1 \<and>
       sector (bufs c b) = sec)"
proof -
  note find = cache_search [OF cache_invD(1) [OF inv] inv, simplified]
  show ?thesis
  proof (cases "find (\<lambda>b. dev (bufs c b) = 1 \<and> sector (bufs c b) = sec) xs")
    case None
    have "find (\<lambda>b. \<not> busy (bufs c b) \<and> \<not> dirty (bufs c b)) (rev xs) \<noteq> None"
      using free cache_invD(2) [OF inv] by (auto simp: find_None_iff)
    then obtain b where b: "find (\<lambda>b. \<not> busy (bufs c b) \<and> \<not> dirty (bufs c b)) (rev xs) = Some b" by auto
    from None b sec show ?thesis
      by (simp add: bread_def bget_def find iderw_def Let_def del: search.simps)
  next
    case (Some b)
    then have b: "dev (bufs c b) = 1" "sector (bufs c b) = sec" "b \<in> set xs" by (auto simp: find_Some_iff)
    then have lt: "b < NBUF" using cache_invD(2) [OF inv] by simp
    have coh: "dirty (bufs c b) \<Longrightarrow> valid (bufs c b)"
      using cache_invD(4) [OF inv lt] by (simp add: coherent_def)
    show ?thesis
    proof (cases "busy (bufs c b)")
      case True
      with Some b lt show ?thesis by (auto simp: bread_def bget_def find simp del: search.simps)
    next
      case False
      with Some b sec coh show ?thesis
        by (auto simp: bread_def bget_def find iderw_def Let_def simp del: search.simps)
    qed
  qed
qed

section \<open>The cache in use\<close>

text \<open>
  What the file system does with the cache from boot on: it takes a block, writes the block it holds, or
  changes it and leaves it dirty (what \<^verbatim>\<open>log_write\<close> does), and releases it. \<open>spec\<close> is the plain array of
  blocks that the cache stands for, and \<open>lru\<close> the buffers by their last release, the latest first.
\<close>

inductive bio_reach :: "nat list \<Rightarrow> bcache \<Rightarrow> memdisk \<Rightarrow> (nat \<Rightarrow> string) \<Rightarrow> bool" where
  boot: "\<forall>b < NBUF. \<not> valid (bufs c b) \<and> \<not> dirty (bufs c b) \<and> \<not> busy (bufs c b) \<Longrightarrow>
    bio_reach (rev [0..<NBUF]) (binit c) d (blocks d)"
| get_block: "bio_reach lru c d spec \<Longrightarrow> bread 1 s (c, d) = Inr (r, c', d') \<Longrightarrow> bio_reach lru c' d' spec"
| put_block: "bio_reach lru c d spec \<Longrightarrow> b < NBUF \<Longrightarrow> busy (bufs c b) \<Longrightarrow>
    bwrite b (set_data b v c, d) = Inr (c', d') \<Longrightarrow> bio_reach lru c' d' (spec(sector (bufs c b) := v))"
| pin_block: "bio_reach lru c d spec \<Longrightarrow> b < NBUF \<Longrightarrow> busy (bufs c b) \<Longrightarrow>
    bio_reach lru (mark_dirty b (set_data b v c)) d (spec(sector (bufs c b) := v))"
| release_block: "bio_reach lru c d spec \<Longrightarrow> b < NBUF \<Longrightarrow> brelse b c = Inr c' \<Longrightarrow>
    bio_reach (b # remove1 b lru) c' d spec"

lemma bio_reach_inv:
  "bio_reach lru c d spec \<Longrightarrow> cache_inv c d lru \<and> (\<forall>s. block_view c d s = spec s)"
proof (induction rule: bio_reach.induct)
  case (boot c d)
  then show ?case using binit_ok(1,2) [where c = c and d = d] by blast
next
  case (get_block lru c d spec s r c' d')
  show ?case
  proof (cases r)
    case (Buf b)
    with get_block bread_inv bread_view show ?thesis by metis
  next
    case (Wait b)
    with get_block bread_keeps_waiters show ?thesis by metis
  qed
next
  case (put_block lru c d spec b v c' d')
  from put_block.IH have inv: "cache_inv c d lru" and v: "\<And>s. block_view c d s = spec s" by auto
  from bwrite_ok [OF inv put_block.hyps(2,3), of v] obtain c1 d1 where
    "bwrite b (set_data b v c, d) = Inr (c1, d1)" "cache_inv c1 d1 lru"
    "block_view c1 d1 = (block_view c d)(sector (bufs c b) := v)" by metis
  with put_block.hyps(4) v show ?case by simp
next
  case (pin_block lru c d spec b v)
  then show ?case using pin_inv [of c d lru b v] by simp
next
  case (release_block lru c d spec b c')
  from release_block.IH have inv: "cache_inv c d lru" and v: "\<And>s. block_view c d s = spec s" by auto
  have "busy (bufs c b)" using release_block.hyps(3) by (auto simp: brelse_def split: if_splits)
  from brelse_ok [OF inv release_block.hyps(2) this] release_block.hyps(3) v show ?case by (metis sum.inject(2))
qed

lemma bread_result:
  assumes "cache_inv c d xs" "bread 1 sec (c, d) = Inr (Buf b, c', d')"
  shows "b < NBUF" "\<not> busy (bufs c b)" "busy (bufs c' b)" "valid (bufs c' b)" "dev (bufs c' b) = 1"
    "sector (bufs c' b) = sec" "bdata (bufs c' b) = block_view c d sec"
proof -
  have "b < NBUF \<and> \<not> busy (bufs c b) \<and> busy (bufs c' b) \<and> valid (bufs c' b) \<and> dev (bufs c' b) = 1 \<and>
    sector (bufs c' b) = sec"
    using assms by (cases rule: bread_cases) auto
  then show "b < NBUF" "\<not> busy (bufs c b)" "busy (bufs c' b)" "valid (bufs c' b)" "dev (bufs c' b) = 1"
    "sector (bufs c' b) = sec" by simp_all
  then show "bdata (bufs c' b) = block_view c d sec"
    using block_view_cached [OF cache_invD(3) [OF bread_inv [OF assms]], of b sec d'] bread_view [OF assms]
    by simp
qed

lemma find_append: "find P (xs @ ys) = (case find P xs of None \<Rightarrow> find P ys | Some x \<Rightarrow> Some x)"
  by (induction xs) auto

lemma find_member: "find P xs = Some x \<Longrightarrow> x \<in> set xs \<and> P x"
  by (induction xs) (auto split: if_splits)

section \<open>Properties\<close>

text \<open>
  C5. The cache is transparent and exclusive. After any sequence of reads, writes, delayed writes and
  releases since boot, \<^verbatim>\<open>bread\<close> hands out the buffer of exactly the requested block, holding what was last
  written to that block, and the buffer was not held by anyone before; whatever was recycled in between.
\<close>

theorem bread_returns_latest_block:
  assumes "bio_reach lru c d spec" "bread 1 s (c, d) = Inr (Buf b, c', d')"
  shows "bdata (bufs c' b) = spec s \<and> sector (bufs c' b) = s \<and> valid (bufs c' b) \<and>
    \<not> busy (bufs c b) \<and> busy (bufs c' b) \<and> (\<forall>i < NBUF. i \<noteq> b \<longrightarrow> \<not> (dev (bufs c' i) = 1 \<and> sector (bufs c' i) = s))"
proof -
  from bio_reach_inv [OF assms(1)] have inv: "cache_inv c d lru" and v: "block_view c d s = spec s" by auto
  note r = bread_result [OF inv assms(2)]
  have "\<not> (dev (bufs c' i) = 1 \<and> sector (bufs c' i) = s)" if "i < NBUF" "i \<noteq> b" for i
    using no_aliasD [OF cache_invD(3) [OF bread_inv [OF inv assms(2)]] that(1) r(1)] that(2) r by auto
  with r v show ?thesis by simp
qed

definition zero_cache :: bcache where
  "zero_cache = \<lparr>bufs = \<lambda>_. \<lparr>busy = False, valid = False, dirty = False, dev = 0, sector = 0, bdata = []\<rparr>,
     nxt = \<lambda>_. 0, prv = \<lambda>_. 0\<rparr>"

definition example_disk :: memdisk where
  "example_disk = \<lparr>blocks = (\<lambda>s. if s = 1 then ''super'' else []), disksize = 20\<rparr>"

lemma zero_cache_reach: "bio_reach (rev [0..<NBUF]) (binit zero_cache) example_disk (blocks example_disk)"
  by (rule bio_reach.boot) (simp add: zero_cache_def)

lemma zero_cache_bread: "\<exists>b c'. bread 1 1 (binit zero_cache, example_disk) = Inr (Buf b, c', example_disk)"
proof -
  have clean: "\<And>b. b < NBUF \<Longrightarrow> \<not> valid (bufs zero_cache b) \<and> \<not> dirty (bufs zero_cache b) \<and>
      \<not> busy (bufs zero_cache b)" by (simp add: zero_cache_def)
  have "\<not> busy (bufs (binit zero_cache) b) \<and> \<not> dirty (bufs (binit zero_cache) b)" for b
    using binit_ok(3) [OF clean, of b] by (simp add: zero_cache_def)
  with bread_total [OF binit_ok(1) [OF clean], of 1 example_disk 0] show ?thesis
    by (auto simp: example_disk_def)
qed

theorem bread_returns_latest_witness:
  "\<exists>b c'. bread 1 1 (binit zero_cache, example_disk) = Inr (Buf b, c', example_disk) \<and>
     bdata (bufs c' b) = ''super''"
  using zero_cache_bread bread_returns_latest_block [OF zero_cache_reach, of 1]
  by (fastforce simp: example_disk_def)

text \<open>
  C39. \<^verbatim>\<open>bread\<close> makes progress: in every state of the cache in which some buffer is neither held nor dirty,
  the read of a block of the disk returns its buffer, or tells the caller to sleep on the very buffer in
  which another process holds that block. It cannot panic for lack of buffers.
\<close>

theorem bread_progress:
  assumes "bio_reach lru c d spec" "s < disksize d" "i < NBUF" "\<not> busy (bufs c i)" "\<not> dirty (bufs c i)"
  shows "(\<exists>b c'. bread 1 s (c, d) = Inr (Buf b, c', d)) \<or>
    (\<exists>b < NBUF. bread 1 s (c, d) = Inr (Wait b, c, d) \<and> busy (bufs c b) \<and> dev (bufs c b) = 1 \<and>
       sector (bufs c b) = s)"
  using bread_total [of c d lru s i] bio_reach_inv [OF assms(1)] assms(2-) by blast

theorem bread_progress_witness:
  "\<exists>b c' d'. bread 1 3 (binit zero_cache, example_disk) = Inr (Buf b, c', d') \<or>
    bread 1 3 (binit zero_cache, example_disk) = Inr (Wait b, c', d')"
proof -
  have "\<not> busy (bufs (binit zero_cache) 4)" "\<not> dirty (bufs (binit zero_cache) 4)"
    using binit_ok(3) [of zero_cache 4] by (simp_all add: zero_cache_def)
  with bread_progress [OF zero_cache_reach, of 3 4] show ?thesis by (auto simp: example_disk_def)
qed

text \<open>
  C24. Replacement is least recently used: when the requested block is not cached, \<^verbatim>\<open>bget\<close> recycles a
  buffer \<open>b\<close> that is neither held nor dirty, and every buffer released longer ago than \<open>b\<close> is held or dirty.
\<close>

theorem bget_recycles_lru:
  assumes "bio_reach (p @ b # q) c d spec" "bget 1 s c = Inr (Buf b, c')"
    and "\<forall>i < NBUF. \<not> (dev (bufs c i) = 1 \<and> sector (bufs c i) = s)"
  shows "\<not> busy (bufs c b) \<and> \<not> dirty (bufs c b) \<and> (\<forall>i \<in> set q. busy (bufs c i) \<or> dirty (bufs c i))"
proof -
  have inv: "cache_inv c d (p @ b # q)" using bio_reach_inv [OF assms(1)] by blast
  have dist: "distinct (p @ b # q)" using cache_invD(1) [OF inv] by (simp add: ring_def)
  let ?free = "\<lambda>b. \<not> busy (bufs c b) \<and> \<not> dirty (bufs c b)"
  from inv assms(2) have "find ?free (rev (p @ b # q)) = Some b \<and> ?free b"
    by (cases rule: bget_cases) (use assms(3) in auto)
  then have f: "find ?free (rev q @ b # rev p) = Some b" and b: "?free b" by simp_all
  have "\<not> ?free i" if "i \<in> set q" for i
  proof
    assume "?free i"
    then have "find ?free (rev q) \<noteq> None" using that by (auto simp: find_None_iff)
    then obtain j where j: "find ?free (rev q) = Some j" by auto
    then have "j \<in> set q" using find_member [of ?free "rev q" j] by simp
    moreover have "j = b" using f j by (simp add: find_append)
    ultimately show False using dist by simp
  qed
  with b show ?thesis by blast
qed

text \<open>The cache after the first read of block 1: buffer 0 is held, so block 2 goes to buffer 1.\<close>

definition one_held :: bcache where
  "one_held = set_buf 0 \<lparr>busy = True, valid = True, dirty = False, dev = 1, sector = 1, bdata = ''super''\<rparr>
     (binit zero_cache)"

lemma zero_cache_bufs:
  "bufs (binit zero_cache) b = \<lparr>busy = False, valid = False, dirty = False,
     dev = (if b < NBUF then - 1 else 0), sector = 0, bdata = []\<rparr>"
  using binit_ok(3) [of zero_cache b] by (auto simp: zero_cache_def)

lemma zero_cache_ring: "ring (binit zero_cache) [9, 8, 7, 6, 5, 4, 3, 2, 1, 0]"
proof -
  have "rev [0..<NBUF] = [9, 8, 7, 6, 5, 4, 3, 2, 1, 0]" by code_simp
  with bio_reach_inv [OF zero_cache_reach] cache_invD(1) show ?thesis by fastforce
qed

lemma one_held_reach: "bio_reach [9, 8, 7, 6, 5, 4, 3, 2, 1, 0] one_held example_disk (blocks example_disk)"
proof -
  have "rev [0..<NBUF] = [9, 8, 7, 6, 5, 4, 3, 2, 1, 0]" by code_simp
  moreover have "bread 1 1 (binit zero_cache, example_disk) = Inr (Buf 0, one_held, example_disk)"
    by (simp add: bread_def bget_def ring_search [OF zero_cache_ring, simplified] zero_cache_bufs iderw_def
        example_disk_def one_held_def Let_def del: search.simps)
  ultimately show ?thesis using bio_reach.get_block [OF zero_cache_reach] by metis
qed

lemma one_held_bget: "\<exists>c'. bget 1 2 one_held = Inr (Buf 1, c')"
proof -
  have "ring one_held [9, 8, 7, 6, 5, 4, 3, 2, 1, 0]" using zero_cache_ring by (simp add: one_held_def)
  note find = ring_search [OF this, of "\<lambda>b. dev (bufs one_held b) = 1 \<and> sector (bufs one_held b) = 2"]
    ring_search [OF this, of "\<lambda>b. \<not> busy (bufs one_held b) \<and> \<not> dirty (bufs one_held b)"]
  have "search (nxt one_held) (\<lambda>b. dev (bufs one_held b) = 1 \<and> sector (bufs one_held b) = 2) (NBUF + 1)
      (nxt one_held HEAD) = None"
    by (subst find(1)) (simp_all add: one_held_def zero_cache_bufs)
  moreover have "search (prv one_held) (\<lambda>b. \<not> busy (bufs one_held b) \<and> \<not> dirty (bufs one_held b)) (NBUF + 1)
      (prv one_held HEAD) = Some 1"
    by (subst find(4)) (simp_all add: one_held_def zero_cache_bufs)
  ultimately show ?thesis unfolding bget_def by (simp del: search.simps)
qed

theorem bget_recycles_lru_witness:
  "(\<exists>c'. bget 1 2 one_held = Inr (Buf 1, c')) \<and> \<not> busy (bufs one_held 1) \<and> busy (bufs one_held 0)"
proof -
  obtain c' where g: "bget 1 2 one_held = Inr (Buf 1, c')" using one_held_bget by blast
  moreover have "\<forall>i < NBUF. \<not> (dev (bufs one_held i) = 1 \<and> sector (bufs one_held i) = 2)" "busy (bufs one_held 0)"
    by (simp_all add: one_held_def zero_cache_bufs)
  moreover have "bio_reach ([9, 8, 7, 6, 5, 4, 3, 2] @ 1 # [0]) one_held example_disk (blocks example_disk)"
    using one_held_reach by simp
  ultimately show ?thesis using bget_recycles_lru by blast
qed

end
