(* ===== verification/Disk.thy ===== *)
theory Disk
  imports Bio
begin

text \<open>
  What \<^verbatim>\<open>log.c\<close> and \<^verbatim>\<open>fs.c\<close> share: the sequencing of operations that may fault, the little-endian fields
  of the structures that overlay a disk block, the blocks as the buffer cache of \<^verbatim>\<open>Bio\<close> shows them, and
  the superblock.
\<close>

section \<open>Sequencing\<close>

definition andthen :: "fault + 'a \<Rightarrow> ('a \<Rightarrow> fault + 'b) \<Rightarrow> fault + 'b" where
  "andthen r f = (case r of Inl e \<Rightarrow> Inl e | Inr x \<Rightarrow> f x)"

lemma andthen_simps [simp]: "andthen (Inl e) f = Inl e" "andthen (Inr x) f = f x"
  by (simp_all add: andthen_def)

lemma andthen_Inr_iff: "andthen r f = Inr y \<longleftrightarrow> (\<exists>x. r = Inr x \<and> f x = Inr y)"
  by (cases r) simp_all

lemma andthen_assoc: "andthen (andthen r f) g = andthen r (\<lambda>x. andthen (f x) g)"
  by (cases r) simp_all

section \<open>Little-endian fields\<close>

primrec le_bytes :: "nat \<Rightarrow> nat \<Rightarrow> string" where
  "le_bytes 0 v = []"
| "le_bytes (Suc k) v = char_of (v mod 256) # le_bytes k (v div 256)"

primrec le_val :: "string \<Rightarrow> nat" where
  "le_val [] = 0"
| "le_val (c # cs) = of_char c + 256 * le_val cs"

text \<open>The \<open>k\<close>-byte field at a byte offset of a block.\<close>

definition get_le :: "nat \<Rightarrow> nat \<Rightarrow> string \<Rightarrow> nat" where
  "get_le k off xs = le_val (take k (drop off xs))"

definition put_le :: "nat \<Rightarrow> nat \<Rightarrow> nat \<Rightarrow> string \<Rightarrow> string" where
  "put_le k off v xs = take off xs @ le_bytes k v @ drop (off + k) xs"

lemma length_le_bytes [simp]: "length (le_bytes k v) = k"
  by (induction k arbitrary: v) simp_all

lemma le_val_bytes: "le_val (le_bytes k v) = v mod 256 ^ k"
proof (induction k arbitrary: v)
  case (Suc k)
  have "v mod 256 ^ Suc k = v mod 256 + 256 * (v div 256 mod 256 ^ k)"
    by (simp add: mod_mult2_eq)
  with Suc show ?case by simp
qed simp

lemma le_val_bound: "le_val cs < 256 ^ length cs"
proof (induction cs)
  case (Cons c cs)
  have "(of_char c :: nat) + 256 * le_val cs < 256 * (le_val cs + 1)" by simp
  also have "\<dots> \<le> 256 * 256 ^ length cs" using Cons by (intro mult_left_mono) simp_all
  finally show ?case by simp
qed simp

lemma get_le_bound: "get_le k off xs < 256 ^ k"
proof -
  have "get_le k off xs < 256 ^ length (take k (drop off xs))" unfolding get_le_def by (rule le_val_bound)
  also have "\<dots> \<le> 256 ^ k" by (intro power_increasing) simp_all
  finally show ?thesis .
qed

lemma length_put_le [simp]: "off + k \<le> length xs \<Longrightarrow> length (put_le k off v xs) = length xs"
  by (simp add: put_le_def)

lemma get_put_le: "off + k \<le> length xs \<Longrightarrow> get_le k off (put_le k off v xs) = v mod 256 ^ k"
  by (simp add: get_le_def put_le_def le_val_bytes)

lemma get_put_le_other:
  assumes "off' + k' \<le> off \<or> off + k \<le> off'" "off + k \<le> length xs"
  shows "get_le k' off' (put_le k off v xs) = get_le k' off' xs"
proof -
  have "take k' (drop off' (put_le k off v xs)) = take k' (drop off' xs)"
  proof (rule nth_equalityI)
    show "length (take k' (drop off' (put_le k off v xs))) = length (take k' (drop off' xs))"
      using assms(2) by simp
    fix i assume "i < length (take k' (drop off' (put_le k off v xs)))"
    then have "i < k'" "off' + i < length xs" using assms(2) by auto
    with assms show "take k' (drop off' (put_le k off v xs)) ! i = take k' (drop off' xs) ! i"
      by (auto simp: put_le_def nth_append)
  qed
  then show ?thesis by (simp add: get_le_def)
qed

text \<open>A 32-bit field read as a signed \<^verbatim>\<open>int\<close>.\<close>

definition int32 :: "nat \<Rightarrow> int" where
  "int32 v = (if v < 2 ^ 31 then int v else int v - 2 ^ 32)"

lemma int32_small [simp]: "v < 2 ^ 31 \<Longrightarrow> int32 v = int v"
  by (simp add: int32_def)

section \<open>Blocks through the cache\<close>

text \<open>
  The cache and the disk as their clients see them. \<open>view s\<close> is what \<^verbatim>\<open>bread\<close> finds in block \<open>s\<close>, \<open>platter s\<close>
  what is on the disk, and \<open>trace\<close> the sequence of the writes that reached the disk so far.
\<close>

record store =
  view :: "nat \<Rightarrow> string"
  platter :: "nat \<Rightarrow> string"
  trace :: "(nat \<times> string) list"

text \<open>\<^verbatim>\<open>bread(s)\<close>, a change of the data to \<open>v\<close>, \<^verbatim>\<open>bwrite\<close>, \<^verbatim>\<open>brelse\<close>.\<close>

definition put_block :: "nat \<Rightarrow> string \<Rightarrow> store \<Rightarrow> store" where
  "put_block s v st = st\<lparr>view := (view st)(s := v), platter := (platter st)(s := v), trace := trace st @ [(s, v)]\<rparr>"

text \<open>\<^verbatim>\<open>bread(s)\<close>, a change of the data to \<open>v\<close>, the dirty flag, \<^verbatim>\<open>brelse\<close>: the change stays in the cache.\<close>

definition pin_block :: "nat \<Rightarrow> string \<Rightarrow> store \<Rightarrow> store" where
  "pin_block s v st = st\<lparr>view := (view st)(s := v)\<rparr>"

lemma put_block_simps [simp]:
  "view (put_block s v st) = (view st)(s := v)" "platter (put_block s v st) = (platter st)(s := v)"
  "trace (put_block s v st) = trace st @ [(s, v)]"
  by (simp_all add: put_block_def)

lemma pin_block_simps [simp]:
  "view (pin_block s v st) = (view st)(s := v)" "platter (pin_block s v st) = platter st"
  "trace (pin_block s v st) = trace st"
  by (simp_all add: pin_block_def)

text \<open>The same two sequences of calls on the cache itself.\<close>

definition bio_put :: "nat \<Rightarrow> string \<Rightarrow> bcache \<times> memdisk \<Rightarrow> fault + (bcache \<times> memdisk)" where
  "bio_put s v cd = andthen (bread 1 s cd) (\<lambda>(r, c, d).
     case r of Wait b \<Rightarrow> Inl (Sleeps ''buffer'')
     | Buf b \<Rightarrow> andthen (bwrite b (set_data b v c, d)) (\<lambda>(c1, d1). map_sum id (\<lambda>c2. (c2, d1)) (brelse b c1)))"

definition bio_pin :: "nat \<Rightarrow> string \<Rightarrow> bcache \<times> memdisk \<Rightarrow> fault + (bcache \<times> memdisk)" where
  "bio_pin s v cd = andthen (bread 1 s cd) (\<lambda>(r, c, d).
     case r of Wait b \<Rightarrow> Inl (Sleeps ''buffer'')
     | Buf b \<Rightarrow> map_sum id (\<lambda>c2. (c2, d)) (brelse b (mark_dirty b (set_data b v c))))"

definition store_of :: "bcache \<times> memdisk \<Rightarrow> (nat \<times> string) list \<Rightarrow> store" where
  "store_of cd tr = \<lparr>view = block_view (fst cd) (snd cd), platter = blocks (snd cd), trace = tr\<rparr>"

lemma bio_put_refines:
  assumes "cache_inv c d xs" "bio_put s v (c, d) = Inr cd'"
  shows "store_of cd' (tr @ [(s, v)]) = put_block s v (store_of (c, d) tr) \<and> (\<exists>ys. cache_inv (fst cd') (snd cd') ys)"
proof -
  from assms(2) obtain b c1 d1 c2 d2 c3 where r: "bread 1 s (c, d) = Inr (Buf b, c1, d1)"
    and w: "bwrite b (set_data b v c1, d1) = Inr (c2, d2)" and l: "brelse b c2 = Inr c3" and cd': "cd' = (c3, d2)"
    by (cases "bread 1 s (c, d)"; cases "fst (projr (bread 1 s (c, d)))")
      (auto simp: bio_put_def andthen_Inr_iff map_sum_Inr_iff)
  note res = bread_result [OF assms(1) r] and inv = bread_inv [OF assms(1) r]
  have d1: "d1 = d" using assms(1) r by (cases rule: bread_cases) auto
  from bwrite_ok [OF inv res(1,3), of v] w obtain "cache_inv c2 d2 xs"
    "block_view c2 d2 = (block_view c1 d1)(sector (bufs c1 b) := v)"
    "blocks d2 = (blocks d1)(sector (bufs c1 b) := v)" by (metis sum.inject(2) prod.inject)
  note W = this
  have "busy (bufs c2 b)" using l by (auto simp: brelse_def split: if_splits)
  from brelse_ok [OF W(1) res(1) this] l obtain ys where "cache_inv c3 d2 ys" "\<And>t. block_view c3 d2 t = block_view c2 d2 t"
    by (metis sum.inject(2))
  then show ?thesis using W res bread_view [OF assms(1) r] d1
    by (auto simp: store_of_def put_block_def cd' fun_eq_iff)
qed

lemma bio_pin_refines:
  assumes "cache_inv c d xs" "bio_pin s v (c, d) = Inr cd'"
  shows "store_of cd' tr = pin_block s v (store_of (c, d) tr) \<and> (\<exists>ys. cache_inv (fst cd') (snd cd') ys)"
proof -
  from assms(2) obtain b c1 d1 c3 where r: "bread 1 s (c, d) = Inr (Buf b, c1, d1)"
    and l: "brelse b (mark_dirty b (set_data b v c1)) = Inr c3" and cd': "cd' = (c3, d1)"
    by (cases "bread 1 s (c, d)"; cases "fst (projr (bread 1 s (c, d)))")
      (auto simp: bio_pin_def andthen_Inr_iff map_sum_Inr_iff)
  note res = bread_result [OF assms(1) r] and inv = bread_inv [OF assms(1) r]
  have d1: "d1 = d" using assms(1) r by (cases rule: bread_cases) auto
  note P = pin_inv [OF inv res(1,3), of v]
  have "busy (bufs (mark_dirty b (set_data b v c1)) b)" using l by (auto simp: brelse_def split: if_splits)
  from brelse_ok [OF P(1) res(1) this] l obtain ys where "cache_inv c3 d1 ys"
    "\<And>t. block_view c3 d1 t = block_view (mark_dirty b (set_data b v c1)) d1 t"
    by (metis sum.inject(2))
  then show ?thesis using P res bread_view [OF assms(1) r] d1
    by (auto simp: store_of_def pin_block_def cd' fun_eq_iff)
qed

section \<open>The superblock\<close>

abbreviation (input) BSIZE :: nat where
  "BSIZE \<equiv> 512"

record superblock =
  sb_size :: nat
  sb_nblocks :: nat
  sb_ninodes :: nat
  sb_nlog :: nat

definition readsb :: "store \<Rightarrow> superblock" where
  "readsb st = (let bp = view st 1 in
     \<lparr>sb_size = get_le 4 0 bp, sb_nblocks = get_le 4 4 bp, sb_ninodes = get_le 4 8 bp, sb_nlog = get_le 4 12 bp\<rparr>)"

section \<open>Property\<close>

text \<open>
  C12. The cache implements the plain block store that the log and the file system are written against:
  reading a block, changing it, writing it and releasing it is one update of the visible and of the stored
  block, whatever the cache had to evict for it.
\<close>

theorem cache_implements_store:
  assumes "bio_reach lru c d spec" "bio_put s v (c, d) = Inr cd'"
  shows "store_of cd' (tr @ [(s, v)]) = put_block s v (store_of (c, d) tr)"
  using bio_put_refines assms bio_reach_inv by blast

theorem cache_implements_store_witness:
  "\<exists>cd'. bio_put 3 ''data'' (binit zero_cache, example_disk) = Inr cd' \<and> view (store_of cd' [(3, ''data'')]) 3 = ''data'' \<and>
     view (store_of cd' [(3, ''data'')]) 1 = ''super''"
proof -
  have inv: "cache_inv (binit zero_cache) example_disk (rev [0..<NBUF])" and
    v: "block_view (binit zero_cache) example_disk 1 = ''super''"
    using bio_reach_inv [OF zero_cache_reach] by (auto simp: example_disk_def)
  obtain b c1 where r: "bread 1 3 (binit zero_cache, example_disk) = Inr (Buf b, c1, example_disk)"
    using bread_total [OF inv, of 3 0] by (auto simp: zero_cache_bufs example_disk_def)
  note res = bread_result [OF inv r]
  obtain c2 d2 where w: "bwrite b (set_data b ''data'' c1, example_disk) = Inr (c2, d2)" and i2: "busy (bufs c2 b)"
    using res by (auto simp: bwrite_def iderw_def set_data_def Let_def example_disk_def)
  then obtain c3 where "brelse b c2 = Inr c3" by (simp add: brelse_def Let_def)
  with r w have "bio_put 3 ''data'' (binit zero_cache, example_disk) = Inr (c3, d2)" by (simp add: bio_put_def)
  with cache_implements_store [OF zero_cache_reach this, of "[]"] v show ?thesis
    by (intro exI [of _ "(c3, d2)"]) (simp add: store_of_def put_block_def)
qed

end
