(* ===== verification/Log.thy ===== *)
theory Log
  imports Disk
begin

text \<open>
  \<^verbatim>\<open>log.c\<close>: the write-ahead log that makes the block writes of a system call atomic. The operations run on
  the block store of \<^verbatim>\<open>Disk\<close>, whose \<open>trace\<close> is the sequence of disk writes, so that a crash between any two
  writes is a prefix of the trace. One disk write of a block is atomic.
\<close>

section \<open>The log\<close>

abbreviation (input) LOGSIZE :: nat where
  "LOGSIZE \<equiv> 10"

record log =
  log_start :: nat
  log_size :: int
  log_busy :: bool
  lh_n :: int
  lh_sector :: "nat list"

text \<open>The array access \<^verbatim>\<open>log.lh.sector[i]\<close>.\<close>

definition lh_sector_at :: "log \<Rightarrow> nat \<Rightarrow> fault + nat" where
  "lh_sector_at lg i = (if i < LOGSIZE then Inr (lh_sector lg ! i) else Inl (OutOfBounds ''log.lh.sector''))"

fun install_trans_from :: "nat \<Rightarrow> nat \<Rightarrow> log \<Rightarrow> store \<Rightarrow> fault + store" where
  "install_trans_from 0 tail lg st = Inr st"
| "install_trans_from (Suc k) tail lg st =
     andthen (lh_sector_at lg tail) (\<lambda>dst.
       install_trans_from k (Suc tail) lg (put_block dst (view st (log_start lg + tail + 1)) st))"

definition install_trans :: "log \<Rightarrow> store \<Rightarrow> fault + store" where
  "install_trans lg st = install_trans_from (nat (lh_n lg)) 0 lg st"

fun read_head_from :: "nat \<Rightarrow> nat \<Rightarrow> string \<Rightarrow> log \<Rightarrow> fault + log" where
  "read_head_from 0 i lh lg = Inr lg"
| "read_head_from (Suc k) i lh lg =
     (if i < LOGSIZE
      then read_head_from k (Suc i) lh (lg\<lparr>lh_sector := (lh_sector lg)[i := get_le 4 (4 + 4 * i) lh]\<rparr>)
      else Inl (OutOfBounds ''log.lh.sector''))"

definition read_head :: "log \<Rightarrow> store \<Rightarrow> fault + log" where
  "read_head lg st =
     (let lh = view st (log_start lg); n = int32 (get_le 4 0 lh)
      in read_head_from (nat n) 0 lh (lg\<lparr>lh_n := n\<rparr>))"

fun write_head_from :: "nat \<Rightarrow> nat \<Rightarrow> log \<Rightarrow> string \<Rightarrow> fault + string" where
  "write_head_from 0 i lg hb = Inr hb"
| "write_head_from (Suc k) i lg hb =
     andthen (lh_sector_at lg i) (\<lambda>s. write_head_from k (Suc i) lg (put_le 4 (4 + 4 * i) s hb))"

definition write_head :: "log \<Rightarrow> store \<Rightarrow> fault + store" where
  "write_head lg st =
     andthen (write_head_from (nat (lh_n lg)) 0 lg (put_le 4 0 (nat (lh_n lg mod 2 ^ 32)) (view st (log_start lg))))
       (\<lambda>hb. Inr (put_block (log_start lg) hb st))"

definition recover_from_log :: "log \<Rightarrow> store \<Rightarrow> fault + (log \<times> store)" where
  "recover_from_log lg st =
     andthen (read_head lg st) (\<lambda>lg1.
     andthen (install_trans lg1 st) (\<lambda>st1.
     let lg2 = lg1\<lparr>lh_n := 0\<rparr>
     in andthen (write_head lg2 st1) (\<lambda>st2. Inr (lg2, st2))))"

text \<open>The header has 44 bytes, so \<^verbatim>\<open>initlog\<close>'s test of its size never panics.\<close>

definition initlog :: "log \<Rightarrow> store \<Rightarrow> fault + (log \<times> store)" where
  "initlog lg st =
     (if 4 + 4 * LOGSIZE \<ge> BSIZE then Inl (Panic ''initlog: too big logheader'')
      else let sb = readsb st
        in recover_from_log (lg\<lparr>log_start := (sb_size sb + 2 ^ 32 - sb_nlog sb) mod 2 ^ 32,
             log_size := int32 (sb_nlog sb)\<rparr>) st)"

text \<open>\<open>None\<close>: another transaction is active, the caller sleeps on the log.\<close>

definition begin_trans :: "log \<Rightarrow> log option" where
  "begin_trans lg = (if log_busy lg then None else Some (lg\<lparr>log_busy := True\<rparr>))"

definition commit_trans :: "log \<Rightarrow> store \<Rightarrow> fault + (log \<times> store)" where
  "commit_trans lg st =
     (if lh_n lg > 0
      then andthen (write_head lg st) (\<lambda>st1.
           andthen (install_trans lg st1) (\<lambda>st2.
           let lg1 = lg\<lparr>lh_n := 0\<rparr>
           in andthen (write_head lg1 st2) (\<lambda>st3. Inr (lg1\<lparr>log_busy := False\<rparr>, st3))))
      else Inr (lg\<lparr>log_busy := False\<rparr>, st))"

text \<open>The loop of \<^verbatim>\<open>log_write\<close>: the first slot that already logs the sector, or the next free one.\<close>

fun log_slot :: "nat \<Rightarrow> nat \<Rightarrow> nat \<Rightarrow> nat list \<Rightarrow> nat" where
  "log_slot 0 i s secs = i"
| "log_slot (Suc k) i s secs = (if secs ! i = s then i else log_slot k (Suc i) s secs)"

text \<open>\<^verbatim>\<open>log_write(b)\<close> for the buffer of sector \<open>s\<close> that the caller changed to \<open>v\<close>.\<close>

definition log_write :: "nat \<Rightarrow> string \<Rightarrow> log \<Rightarrow> store \<Rightarrow> fault + (log \<times> store)" where
  "log_write s v lg st =
     (if lh_n lg \<ge> int LOGSIZE \<or> lh_n lg \<ge> log_size lg - 1 then Inl (Panic ''too big a transaction'')
      else if \<not> log_busy lg then Inl (Panic ''write outside of trans'')
      else let i = log_slot (nat (lh_n lg)) 0 s (lh_sector lg);
             lg1 = lg\<lparr>lh_sector := (lh_sector lg)[i := s]\<rparr>;
             st1 = put_block (log_start lg + i + 1) v st;
             lg2 = (if int i = lh_n lg then lg1\<lparr>lh_n := lh_n lg + 1\<rparr> else lg1)
        in Inr (lg2, pin_block s v st1))"

text \<open>The block writes of a system call, and the whole transaction around them.\<close>

fun log_writes :: "(nat \<times> string) list \<Rightarrow> log \<Rightarrow> store \<Rightarrow> fault + (log \<times> store)" where
  "log_writes [] lg st = Inr (lg, st)"
| "log_writes ((s, v) # ws) lg st = andthen (log_write s v lg st) (\<lambda>(lg1, st1). log_writes ws lg1 st1)"

definition transaction :: "(nat \<times> string) list \<Rightarrow> log \<Rightarrow> store \<Rightarrow> fault + (log \<times> store)" where
  "transaction ws lg st =
     (case begin_trans lg of None \<Rightarrow> Inl (Sleeps ''log'')
      | Some lg1 \<Rightarrow> andthen (log_writes ws lg1 st) (\<lambda>(lg2, st2). commit_trans lg2 st2))"

section \<open>Crashes\<close>

definition apply_writes :: "(nat \<times> string) list \<Rightarrow> (nat \<Rightarrow> string) \<Rightarrow> nat \<Rightarrow> string" where
  "apply_writes ws d = foldl (\<lambda>d (s, v). d(s := v)) d ws"

text \<open>The machine after a reboot: the cache is empty, so every block is as it is on the disk.\<close>

definition reboot :: "(nat \<Rightarrow> string) \<Rightarrow> store" where
  "reboot d = \<lparr>view = d, platter = d, trace = []\<rparr>"

lemma apply_writes_simps [simp]:
  "apply_writes [] d = d" "apply_writes (ws @ us) d = apply_writes us (apply_writes ws d)"
  "apply_writes ((s, v) # ws) d = apply_writes ws (d(s := v))"
  by (simp_all add: apply_writes_def)

lemma apply_writes_other: "t \<notin> fst ` set ws \<Longrightarrow> apply_writes ws d t = d t"
  by (induction ws arbitrary: d) auto

section \<open>Each operation as a list of disk writes\<close>

definition put_blocks :: "(nat \<times> string) list \<Rightarrow> store \<Rightarrow> store" where
  "put_blocks ws st = st\<lparr>view := apply_writes ws (view st), platter := apply_writes ws (platter st),
     trace := trace st @ ws\<rparr>"

lemma put_blocks_simps [simp]:
  "view (put_blocks ws st) = apply_writes ws (view st)"
  "platter (put_blocks ws st) = apply_writes ws (platter st)"
  "trace (put_blocks ws st) = trace st @ ws"
  by (simp_all add: put_blocks_def)

lemma put_blocks_Nil [simp]: "put_blocks [] st = st"
  by (simp add: put_blocks_def)

lemma put_blocks_Cons: "put_blocks ((s, v) # ws) st = put_blocks ws (put_block s v st)"
  by (simp add: put_blocks_def put_block_def)

text \<open>The header block with \<open>secs\<close> as its list of sectors.\<close>

fun set_sectors :: "nat \<Rightarrow> nat list \<Rightarrow> string \<Rightarrow> string" where
  "set_sectors i [] hb = hb"
| "set_sectors i (s # secs) hb = set_sectors (Suc i) secs (put_le 4 (4 + 4 * i) s hb)"

definition header :: "nat list \<Rightarrow> string \<Rightarrow> string" where
  "header secs hb = set_sectors 0 secs (put_le 4 0 (length secs) hb)"

lemma length_set_sectors [simp]: "4 + 4 * (i + length secs) \<le> length hb \<Longrightarrow> length (set_sectors i secs hb) = length hb"
  by (induction i secs hb rule: set_sectors.induct) auto

lemma get_set_sectors_before:
  "off + k \<le> 4 + 4 * i \<Longrightarrow> 4 + 4 * (i + length secs) \<le> length hb \<Longrightarrow>
    get_le k off (set_sectors i secs hb) = get_le k off hb"
proof (induction i secs hb rule: set_sectors.induct)
  case (2 i s secs hb)
  then have "get_le k off (set_sectors (Suc i) secs (put_le 4 (4 + 4 * i) s hb)) = get_le k off (put_le 4 (4 + 4 * i) s hb)"
    by simp
  also have "\<dots> = get_le k off hb" using 2(2,3) by (intro get_put_le_other) simp_all
  finally show ?case by simp
qed simp

lemma get_set_sectors:
  "j < length secs \<Longrightarrow> \<forall>s \<in> set secs. s < 2 ^ 32 \<Longrightarrow> 4 + 4 * (i + length secs) \<le> length hb \<Longrightarrow>
    get_le 4 (4 + 4 * (i + j)) (set_sectors i secs hb) = secs ! j"
proof (induction i secs hb arbitrary: j rule: set_sectors.induct)
  case (2 i s secs hb)
  show ?case
  proof (cases j)
    case 0
    with 2 show ?thesis by (simp add: get_set_sectors_before get_put_le)
  next
    case (Suc j')
    with 2 show ?thesis by simp
  qed
qed simp

lemma write_head_from_eq:
  assumes "i + k \<le> LOGSIZE" "LOGSIZE \<le> length (lh_sector lg)"
  shows "write_head_from k i lg hb = Inr (set_sectors i (take k (drop i (lh_sector lg))) hb)"
  using assms
proof (induction k arbitrary: i hb)
  case (Suc k)
  then have "drop i (lh_sector lg) = lh_sector lg ! i # drop (Suc i) (lh_sector lg)"
    by (simp add: Cons_nth_drop_Suc)
  with Suc show ?case by (simp add: lh_sector_at_def)
qed simp

text \<open>A well-formed in-memory header: the sectors it lists.\<close>

definition logged :: "log \<Rightarrow> nat list" where
  "logged lg = take (nat (lh_n lg)) (lh_sector lg)"

definition log_wf :: "log \<Rightarrow> bool" where
  "log_wf lg \<longleftrightarrow> length (lh_sector lg) = LOGSIZE \<and> 0 \<le> lh_n lg \<and> lh_n lg \<le> int LOGSIZE"

lemma length_logged [simp]: "log_wf lg \<Longrightarrow> length (logged lg) = nat (lh_n lg)"
  by (auto simp: log_wf_def logged_def)

lemma write_head_eq:
  assumes "log_wf lg"
  shows "write_head lg st = Inr (put_block (log_start lg) (header (logged lg) (view st (log_start lg))) st)"
proof -
  have "lh_n lg mod 2 ^ 32 = lh_n lg" using assms by (simp add: log_wf_def)
  moreover have "length (logged lg) = nat (lh_n lg)" using assms by simp
  ultimately show ?thesis
    using write_head_from_eq [of 0 "nat (lh_n lg)" lg] assms
    by (simp add: write_head_def header_def log_wf_def nat_le_iff) (simp add: logged_def)
qed

text \<open>The installation copies the log blocks, from block \<open>a\<close> on, to the homes of the sectors.\<close>

fun copies :: "nat \<Rightarrow> nat list \<Rightarrow> (nat \<Rightarrow> string) \<Rightarrow> (nat \<times> string) list" where
  "copies a [] d = []"
| "copies a (s # secs) d = (s, d a) # copies (Suc a) secs d"

lemma copies_cong: "(\<And>t. t \<ge> a \<Longrightarrow> d t = d' t) \<Longrightarrow> copies a secs d = copies a secs d'"
  by (induction secs arbitrary: a) auto

lemma copies_sectors [simp]: "map fst (copies a secs d) = secs"
  by (induction secs arbitrary: a) auto

lemma install_from_eq:
  assumes "tail + k \<le> LOGSIZE" "LOGSIZE \<le> length (lh_sector lg)"
    and "\<forall>s \<in> set (take k (drop tail (lh_sector lg))). s \<le> log_start lg"
  shows "install_trans_from k tail lg st =
    Inr (put_blocks (copies (log_start lg + tail + 1) (take k (drop tail (lh_sector lg))) (view st)) st)"
  using assms
proof (induction k arbitrary: tail st)
  case (Suc k)
  have hd_eq: "drop tail (lh_sector lg) = lh_sector lg ! tail # drop (Suc tail) (lh_sector lg)"
    using Suc.prems by (simp add: Cons_nth_drop_Suc)
  then have le: "lh_sector lg ! tail \<le> log_start lg" using Suc.prems(3) by simp
  let ?st = "put_block (lh_sector lg ! tail) (view st (log_start lg + tail + 1)) st"
  let ?secs = "take k (drop (Suc tail) (lh_sector lg))"
  have "install_trans_from k (Suc tail) lg ?st =
    Inr (put_blocks (copies (log_start lg + Suc tail + 1) ?secs (view ?st)) ?st)"
    using Suc.prems hd_eq by (intro Suc.IH) auto
  moreover have "copies (log_start lg + Suc tail + 1) ?secs (view ?st) =
      copies (log_start lg + Suc tail + 1) ?secs (view st)"
    using le by (intro copies_cong) auto
  ultimately show ?case using Suc.prems(1)
    by (simp add: lh_sector_at_def put_blocks_Cons hd_eq del: put_block_simps)
qed simp

lemma install_trans_eq:
  assumes "log_wf lg" "\<forall>s \<in> set (logged lg). s \<le> log_start lg"
  shows "install_trans lg st = Inr (put_blocks (copies (log_start lg + 1) (logged lg) (view st)) st)"
  using install_from_eq [of 0 "nat (lh_n lg)" lg st] assms
  by (simp add: install_trans_def log_wf_def logged_def nat_le_iff)

lemma take_copies: "take j (copies a secs d) = copies a (take j secs) d"
  by (induction secs arbitrary: a j) (auto simp: take_Cons split: nat.splits)

lemma apply_copies_in:
  "distinct secs \<Longrightarrow> i < length secs \<Longrightarrow> apply_writes (copies a secs d) e (secs ! i) = d (a + i)"
proof (induction secs arbitrary: a i e)
  case (Cons s secs)
  show ?case
  proof (cases i)
    case 0
    have "apply_writes (copies (Suc a) secs d) (e(s := d a)) s = (e(s := d a)) s"
      using Cons.prems(1) by (intro apply_writes_other) (simp flip: set_map)
    with 0 show ?thesis by simp
  next
    case (Suc j)
    with Cons show ?thesis by simp
  qed
qed simp

lemma apply_copies_out: "t \<notin> set secs \<Longrightarrow> apply_writes (copies a secs d) e t = e t"
  by (intro apply_writes_other) (simp flip: set_map)

section \<open>Recovery\<close>

text \<open>The header block of a disk lists the sectors \<open>secs\<close>.\<close>

definition head_is :: "string \<Rightarrow> nat list \<Rightarrow> bool" where
  "head_is hb secs \<longleftrightarrow> length secs \<le> LOGSIZE \<and> length hb = BSIZE \<and> get_le 4 0 hb = length secs \<and>
     (\<forall>i < length secs. get_le 4 (4 + 4 * i) hb = secs ! i)"

lemma head_is_header:
  assumes "length secs \<le> LOGSIZE" "length hb = BSIZE" "\<forall>s \<in> set secs. s < 2 ^ 32"
  shows "head_is (header secs hb) secs"
proof -
  have "get_le 4 (4 + 4 * i) (header secs hb) = secs ! i" if "i < length secs" for i
    using get_set_sectors [of i secs 0 "put_le 4 0 (length secs) hb"] assms that by (simp add: header_def)
  moreover have "get_le 4 0 (header secs hb) = length secs"
    using assms by (simp add: header_def get_set_sectors_before get_put_le)
  moreover have "length (header secs hb) = BSIZE" using assms by (simp add: header_def)
  ultimately show ?thesis using assms(1) by (simp add: head_is_def)
qed

lemma head_is_cleared: "length hb = BSIZE \<Longrightarrow> head_is (header [] hb) []"
  by (simp add: head_is_header)

lemma read_head_from_eq:
  assumes "i + k \<le> LOGSIZE" "length (lh_sector lg) = LOGSIZE"
  shows "\<exists>secs. read_head_from k i lh lg = Inr (lg\<lparr>lh_sector := secs\<rparr>) \<and> length secs = LOGSIZE \<and>
    (\<forall>j < LOGSIZE. secs ! j = (if i \<le> j \<and> j < i + k then get_le 4 (4 + 4 * j) lh else lh_sector lg ! j))"
  using assms
proof (induction k arbitrary: i lg)
  case 0
  then show ?case by (intro exI [of _ "lh_sector lg"]) simp
next
  case (Suc k)
  let ?lg = "lg\<lparr>lh_sector := (lh_sector lg)[i := get_le 4 (4 + 4 * i) lh]\<rparr>"
  have "Suc i + k \<le> LOGSIZE" "length (lh_sector ?lg) = LOGSIZE" using Suc.prems by simp_all
  from Suc.IH [OF this] obtain secs where r: "read_head_from k (Suc i) lh ?lg = Inr (?lg\<lparr>lh_sector := secs\<rparr>)"
    and l: "length secs = LOGSIZE" and nth: "\<And>j. j < LOGSIZE \<Longrightarrow> secs ! j =
      (if Suc i \<le> j \<and> j < Suc i + k then get_le 4 (4 + 4 * j) lh else lh_sector ?lg ! j)" by blast
  have "secs ! j = (if i \<le> j \<and> j < i + Suc k then get_le 4 (4 + 4 * j) lh else lh_sector lg ! j)"
    if "j < LOGSIZE" for j
    using nth [OF that] that Suc.prems by (cases "j = i") auto
  with r l Suc.prems(1) show ?case by (intro exI [of _ secs]) simp
qed

lemma read_head_eq:
  assumes "head_is (view st (log_start lg)) secs" "length (lh_sector lg) = LOGSIZE"
  shows "\<exists>lg'. read_head lg st = Inr lg' \<and> log_wf lg' \<and> logged lg' = secs \<and> log_start lg' = log_start lg \<and>
    log_size lg' = log_size lg \<and> log_busy lg' = log_busy lg"
proof -
  let ?hb = "view st (log_start lg)" and ?k = "length secs"
  let ?lg = "lg\<lparr>lh_n := int ?k\<rparr>"
  have k: "?k \<le> LOGSIZE" and n: "get_le 4 0 ?hb = ?k" and g: "\<And>i. i < ?k \<Longrightarrow> get_le 4 (4 + 4 * i) ?hb = secs ! i"
    using assms(1) by (auto simp: head_is_def)
  have n32: "int32 ?k = int ?k" using k by (intro int32_small) simp
  obtain S where r: "read_head_from ?k 0 ?hb ?lg = Inr (?lg\<lparr>lh_sector := S\<rparr>)" and S: "length S = LOGSIZE"
    "\<And>j. j < LOGSIZE \<Longrightarrow> S ! j = (if j < ?k then get_le 4 (4 + 4 * j) ?hb else lh_sector lg ! j)"
    using read_head_from_eq [of 0 ?k ?lg ?hb] k assms(2) by auto
  have "take ?k S = secs" using k S g by (intro nth_equalityI) auto
  moreover have "read_head lg st = Inr (?lg\<lparr>lh_sector := S\<rparr>)" using r n n32 by (simp add: read_head_def Let_def)
  ultimately show ?thesis using k S(1) by (intro exI [of _ "?lg\<lparr>lh_sector := S\<rparr>"]) (simp add: log_wf_def logged_def)
qed

lemma recover_eq:
  assumes "head_is (view st (log_start lg)) secs" "length (lh_sector lg) = LOGSIZE"
    and "\<forall>s \<in> set secs. s < log_start lg"
  shows "\<exists>lg'. recover_from_log lg st = Inr (lg', put_blocks (copies (log_start lg + 1) secs (view st) @
      [(log_start lg, header [] (view st (log_start lg)))]) st) \<and>
    log_wf lg' \<and> lh_n lg' = 0 \<and> log_start lg' = log_start lg \<and> log_size lg' = log_size lg \<and> log_busy lg' = log_busy lg"
proof -
  from read_head_eq [OF assms(1,2)] obtain lg1 where r: "read_head lg st = Inr lg1" and wf: "log_wf lg1"
    and S: "logged lg1 = secs" and same: "log_start lg1 = log_start lg" "log_size lg1 = log_size lg"
      "log_busy lg1 = log_busy lg" by blast
  let ?ws = "copies (log_start lg + 1) secs (view st)"
  have i: "install_trans lg1 st = Inr (put_blocks ?ws st)"
  proof -
    have "\<forall>s \<in> set (logged lg1). s \<le> log_start lg1" using S assms(3) same by (simp add: less_imp_le)
    from install_trans_eq [OF wf this, of st] show ?thesis using S same by simp
  qed
  have wf2: "log_wf (lg1\<lparr>lh_n := 0\<rparr>)" using wf by (simp add: log_wf_def)
  have "log_start lg \<notin> set secs" using assms(3) by auto
  then have h: "view (put_blocks ?ws st) (log_start lg) = view st (log_start lg)"
    by (simp add: apply_copies_out)
  have w: "write_head (lg1\<lparr>lh_n := 0\<rparr>) (put_blocks ?ws st) =
      Inr (put_block (log_start lg) (header [] (view st (log_start lg))) (put_blocks ?ws st))"
    using write_head_eq [OF wf2, of "put_blocks ?ws st"] same h by (simp add: logged_def del: put_blocks_simps)
  have "put_block t v (put_blocks ?ws st) = put_blocks (?ws @ [(t, v)]) st" for t v
    by (simp add: put_blocks_def put_block_def)
  with r i w wf2 same show ?thesis by (intro exI [of _ "lg1\<lparr>lh_n := 0\<rparr>"]) (simp add: recover_from_log_def)
qed

text \<open>The home blocks after recovery: the listed ones come from the log, the others stay.\<close>

lemma recover_home:
  assumes "head_is (d (log_start lg)) secs" "length (lh_sector lg) = LOGSIZE"
    and "\<forall>s \<in> set secs. s < log_start lg" "distinct secs"
  obtains lg' st' where "recover_from_log lg (reboot d) = Inr (lg', st')"
    "\<And>i. i < length secs \<Longrightarrow> platter st' (secs ! i) = d (log_start lg + 1 + i)"
    "\<And>t. t < log_start lg \<Longrightarrow> t \<notin> set secs \<Longrightarrow> platter st' t = d t"
    "trace st' = copies (log_start lg + 1) secs d @ [(log_start lg, header [] (d (log_start lg)))]"
    "platter st' = apply_writes (trace st') d"
    "log_wf lg'" "lh_n lg' = 0" "log_start lg' = log_start lg" "view st' = platter st'"
proof -
  let ?ws = "copies (log_start lg + 1) secs d @ [(log_start lg, header [] (d (log_start lg)))]"
  have hd: "head_is (view (reboot d) (log_start lg)) secs" using assms(1) by (simp add: reboot_def)
  from recover_eq [OF hd assms(2,3)] obtain lg' where
    r: "recover_from_log lg (reboot d) = Inr (lg', put_blocks ?ws (reboot d))"
    and l: "log_wf lg'" "lh_n lg' = 0" "log_start lg' = log_start lg" by (auto simp: reboot_def)
  have "platter (put_blocks ?ws (reboot d)) (secs ! i) = d (log_start lg + 1 + i)" if "i < length secs" for i
  proof -
    have "secs ! i < log_start lg" using assms(3) that nth_mem by blast
    with apply_copies_in [OF assms(4) that, of "log_start lg + 1" d d] show ?thesis by (simp add: reboot_def)
  qed
  moreover have "platter (put_blocks ?ws (reboot d)) t = d t" if "t < log_start lg" "t \<notin> set secs" for t
    using that by (simp add: reboot_def apply_copies_out)
  ultimately show thesis using r l by (intro that [OF r]) (auto simp: reboot_def)
qed

section \<open>The logging phase\<close>

lemma log_slot_spec:
  "i + k \<le> length secs \<Longrightarrow> i \<le> log_slot k i s secs \<and> log_slot k i s secs \<le> i + k \<and>
    (log_slot k i s secs < i + k \<longrightarrow> secs ! log_slot k i s secs = s) \<and>
    (\<forall>j. i \<le> j \<longrightarrow> j < log_slot k i s secs \<longrightarrow> secs ! j \<noteq> s)"
proof (induction k i s secs rule: log_slot.induct)
  case (2 k i s secs)
  show ?case
  proof (cases "secs ! i = s")
    case False
    with 2 have "Suc i \<le> log_slot k (Suc i) s secs \<and> log_slot k (Suc i) s secs \<le> Suc i + k \<and>
      (log_slot k (Suc i) s secs < Suc i + k \<longrightarrow> secs ! log_slot k (Suc i) s secs = s) \<and>
      (\<forall>j. Suc i \<le> j \<longrightarrow> j < log_slot k (Suc i) s secs \<longrightarrow> secs ! j \<noteq> s)" by simp
    note IH = this
    have "secs ! j \<noteq> s" if "i \<le> j" "j < log_slot k (Suc i) s secs" for j
      using that False IH by (cases "j = i") auto
    with False IH show ?thesis by auto
  qed simp
qed simp

lemma log_slot_cases:
  assumes "log_wf lg"
  obtains (absorbed) i where "i < length (logged lg)" "logged lg ! i = s"
      "log_slot (nat (lh_n lg)) 0 s (lh_sector lg) = i"
    | (appended) "s \<notin> set (logged lg)" "log_slot (nat (lh_n lg)) 0 s (lh_sector lg) = length (logged lg)"
proof -
  let ?j = "log_slot (nat (lh_n lg)) 0 s (lh_sector lg)"
  have len: "length (logged lg) = nat (lh_n lg)" using assms by simp
  have "0 + nat (lh_n lg) \<le> length (lh_sector lg)" using assms by (simp add: log_wf_def nat_le_iff)
  from log_slot_spec [OF this, of s] have j: "?j \<le> nat (lh_n lg)"
    and hit: "?j < nat (lh_n lg) \<Longrightarrow> lh_sector lg ! ?j = s" and miss: "\<And>i. i < ?j \<Longrightarrow> lh_sector lg ! i \<noteq> s" by auto
  show thesis
  proof (cases "?j < nat (lh_n lg)")
    case True
    with hit len absorbed show thesis by (simp add: logged_def)
  next
    case False
    with j have e: "?j = nat (lh_n lg)" by simp
    have "s \<notin> set (logged lg)"
    proof
      assume "s \<in> set (logged lg)"
      then obtain i where "i < length (logged lg)" "logged lg ! i = s" by (auto simp: in_set_conv_nth)
      with miss [of i] len e show False by (simp add: logged_def)
    qed
    with e len appended show thesis by simp
  qed
qed

text \<open>
  Between \<^verbatim>\<open>begin_trans\<close> and \<^verbatim>\<open>commit_trans\<close>, after the updates \<open>ups\<close> of the blocks \<open>d\<close>: the header and the
  home blocks on the disk are untouched, and log block \<open>i\<close> holds the new contents of the \<open>i\<close>th logged sector.
\<close>

definition trans_inv :: "(nat \<Rightarrow> string) \<Rightarrow> (nat \<times> string) list \<Rightarrow> log \<Rightarrow> store \<Rightarrow> bool" where
  "trans_inv d ups lg st \<longleftrightarrow> log_wf lg \<and> log_busy lg \<and> distinct (logged lg) \<and>
     set (logged lg) = fst ` set ups \<and> (\<forall>s \<in> set (logged lg). s < log_start lg) \<and>
     (\<forall>i < length (logged lg). platter st (log_start lg + 1 + i) = view st (logged lg ! i)) \<and>
     (\<forall>t > log_start lg. view st t = platter st t) \<and>
     (\<forall>t \<le> log_start lg. view st t = apply_writes ups d t) \<and>
     platter st = apply_writes (trace st) d \<and> (\<forall>w \<in> set (trace st). log_start lg < fst w)"

lemma trans_invD:
  assumes "trans_inv d ups lg st"
  shows "log_wf lg" "log_busy lg" "distinct (logged lg)" "set (logged lg) = fst ` set ups"
    "\<And>s. s \<in> set (logged lg) \<Longrightarrow> s < log_start lg"
    "\<And>i. i < length (logged lg) \<Longrightarrow> platter st (log_start lg + 1 + i) = view st (logged lg ! i)"
    "\<And>t. t > log_start lg \<Longrightarrow> view st t = platter st t"
    "\<And>t. t \<le> log_start lg \<Longrightarrow> view st t = apply_writes ups d t"
    "platter st = apply_writes (trace st) d" "\<And>w. w \<in> set (trace st) \<Longrightarrow> log_start lg < fst w"
  using assms unfolding trans_inv_def by blast+

lemma log_write_eq:
  assumes wf: "log_wf lg" and busy: "log_busy lg" and room: "lh_n lg < int LOGSIZE" "lh_n lg < log_size lg - 1"
  obtains i lg' where "log_write s v lg st = Inr (lg', pin_block s v (put_block (log_start lg + i + 1) v st))"
    "log_wf lg'" "log_busy lg'" "log_start lg' = log_start lg" "log_size lg' = log_size lg"
    "lh_n lg' \<le> lh_n lg + 1" "logged lg' = (if s \<in> set (logged lg) then logged lg else logged lg @ [s])"
    "i < length (logged lg')" "logged lg' ! i = s"
proof -
  define i where "i = log_slot (nat (lh_n lg)) 0 s (lh_sector lg)"
  define lg1 where "lg1 = lg\<lparr>lh_sector := (lh_sector lg)[i := s]\<rparr>"
  define lg' where "lg' = (if int i = lh_n lg then lg1\<lparr>lh_n := lh_n lg + 1\<rparr> else lg1)"
  have eq: "log_write s v lg st = Inr (lg', pin_block s v (put_block (log_start lg + i + 1) v st))"
    using room busy by (simp add: log_write_def Let_def i_def lg'_def lg1_def)
  have len: "int (length (logged lg)) = lh_n lg" using wf by (simp add: log_wf_def)
  have wf': "log_wf lg'" using wf room by (auto simp: log_wf_def lg'_def lg1_def)
  have same: "log_busy lg'" "log_start lg' = log_start lg" "log_size lg' = log_size lg" "lh_n lg' \<le> lh_n lg + 1"
    using busy by (auto simp: lg'_def lg1_def)
  from wf have "logged lg' = (if s \<in> set (logged lg) then logged lg else logged lg @ [s]) \<and>
      i < length (logged lg') \<and> logged lg' ! i = s"
  proof (cases rule: log_slot_cases [where s = s])
    case (absorbed j)
    then have "s \<in> set (logged lg)" "int i \<noteq> lh_n lg" using len by (auto simp: i_def)
    moreover have "(lh_sector lg)[i := s] = lh_sector lg" using absorbed by (auto simp: logged_def i_def)
    ultimately have "logged lg' = logged lg" by (simp add: logged_def lg'_def lg1_def)
    with absorbed show ?thesis by (auto simp: i_def)
  next
    case appended
    then have i: "int i = lh_n lg" "i < length (lh_sector lg)" using len wf room by (auto simp: log_wf_def i_def)
    then have n: "nat (lh_n lg + 1) = Suc i" "nat (lh_n lg) = i" by linarith+
    have "logged lg' = logged lg @ [s]"
      using i n by (simp add: logged_def lg'_def lg1_def take_Suc_conv_app_nth)
    moreover have "length (logged lg) = i" using i(1) len by simp
    ultimately show ?thesis using appended by (simp add: nth_append)
  qed
  with eq wf' same show thesis by (intro that) auto
qed

lemma trans_inv_step:
  assumes inv: "trans_inv d ups lg st" and s: "s < log_start lg"
    and room: "lh_n lg < int LOGSIZE" "lh_n lg < log_size lg - 1"
  shows "\<exists>lg' st'. log_write s v lg st = Inr (lg', st') \<and> trans_inv d (ups @ [(s, v)]) lg' st' \<and>
    log_start lg' = log_start lg \<and> log_size lg' = log_size lg \<and> lh_n lg' \<le> lh_n lg + 1"
proof -
  note I = trans_invD [OF inv]
  obtain i lg' where w: "log_write s v lg st = Inr (lg', pin_block s v (put_block (log_start lg + i + 1) v st))"
    and l: "log_wf lg'" "log_busy lg'" "log_start lg' = log_start lg" "log_size lg' = log_size lg"
      "lh_n lg' \<le> lh_n lg + 1" and S: "logged lg' = (if s \<in> set (logged lg) then logged lg else logged lg @ [s])"
    and i: "i < length (logged lg')" "logged lg' ! i = s"
    using log_write_eq [OF I(1,2) room, of s v st] by metis
  define st' where "st' = pin_block s v (put_block (log_start lg + i + 1) v st)"
  have view': "view st' = (view st)(log_start lg + i + 1 := v, s := v)"
    and platter': "platter st' = (platter st)(log_start lg + i + 1 := v)"
    and trace': "trace st' = trace st @ [(log_start lg + i + 1, v)]" by (simp_all add: st'_def)
  have dist: "distinct (logged lg')" using I(3) S by auto
  have blocks: "platter st' (log_start lg + 1 + j) = view st' (logged lg' ! j)" if j: "j < length (logged lg')" for j
  proof (cases "j = i")
    case True
    with i s show ?thesis by (simp add: view' platter')
  next
    case False
    then have ne: "logged lg' ! j \<noteq> s" using nth_eq_iff_index_eq [OF dist j i(1)] i(2) by simp
    then have old: "j < length (logged lg)" "logged lg' ! j = logged lg ! j"
      using j S by (auto simp: nth_append less_Suc_eq split: if_splits)
    then have "logged lg ! j < log_start lg" using I(5) by simp
    with I(6) [OF old(1)] old ne False show ?thesis by (simp add: view' platter')
  qed
  have "trans_inv d (ups @ [(s, v)]) lg' st'"
    unfolding trans_inv_def
  proof (intro conjI allI impI ballI)
    show "set (logged lg') = fst ` set (ups @ [(s, v)])" using I(4) S by auto
    show "t < log_start lg'" if "t \<in> set (logged lg')" for t using that I(5) S s l(3) by (auto split: if_splits)
    show "platter st' (log_start lg' + 1 + j) = view st' (logged lg' ! j)" if "j < length (logged lg')" for j
      using blocks [OF that] l(3) by simp
    show "view st' t = platter st' t" if "log_start lg' < t" for t
      using that s I(7) l(3) by (simp add: view' platter')
    show "view st' t = apply_writes (ups @ [(s, v)]) d t" if "t \<le> log_start lg'" for t
      using that I(8) l(3) by (simp add: view')
    show "platter st' = apply_writes (trace st') d" using I(9) by (simp add: platter' trace')
    show "log_start lg' < fst w" if "w \<in> set (trace st')" for w using that I(10) [of w] l(3) by (auto simp: trace')
  qed (use l dist in auto)
  with w l show ?thesis unfolding st'_def by blast
qed

lemma log_writes_inv:
  assumes "trans_inv d ups lg st" "\<forall>w \<in> set ws. fst w < log_start lg" "log_writes ws lg st = Inr (lg', st')"
  shows "trans_inv d (ups @ ws) lg' st' \<and> log_start lg' = log_start lg"
  using assms
proof (induction ws arbitrary: ups lg st)
  case (Cons w ws)
  obtain s v where w: "w = (s, v)" by (cases w)
  from Cons.prems(3) w obtain lg1 st1 where e: "log_write s v lg st = Inr (lg1, st1)"
    and r: "log_writes ws lg1 st1 = Inr (lg', st')" by (auto simp: andthen_Inr_iff)
  then have room: "lh_n lg < int LOGSIZE" "lh_n lg < log_size lg - 1"
    by (auto simp: log_write_def split: if_splits)
  have "s < log_start lg" using Cons.prems(2) w by simp
  from trans_inv_step [OF Cons.prems(1) this room, of v] e have
    i: "trans_inv d (ups @ [(s, v)]) lg1 st1" "log_start lg1 = log_start lg" by auto
  moreover have "\<forall>w \<in> set ws. fst w < log_start lg1" using Cons.prems(2) i(2) by simp
  ultimately show ?case using Cons.IH [OF i(1) _ r] w by simp
qed simp

lemma log_writes_total:
  assumes "trans_inv d ups lg st" "\<forall>w \<in> set ws. fst w < log_start lg"
    and "lh_n lg + int (length ws) \<le> int LOGSIZE" "lh_n lg + int (length ws) \<le> log_size lg - 1"
  shows "\<exists>lg' st'. log_writes ws lg st = Inr (lg', st')"
  using assms
proof (induction ws arbitrary: ups lg st)
  case (Cons w ws)
  obtain s v where w: "w = (s, v)" by (cases w)
  have "s < log_start lg" "lh_n lg < int LOGSIZE" "lh_n lg < log_size lg - 1" using Cons.prems w by auto
  from trans_inv_step [OF Cons.prems(1) this, of v] obtain lg1 st1 where
    e: "log_write s v lg st = Inr (lg1, st1)" and i: "trans_inv d (ups @ [(s, v)]) lg1 st1"
      "log_start lg1 = log_start lg" "log_size lg1 = log_size lg" "lh_n lg1 \<le> lh_n lg + 1" by blast
  have "\<exists>lg' st'. log_writes ws lg1 st1 = Inr (lg', st')"
    using Cons.prems i by (intro Cons.IH [OF i(1)]) auto
  with e w show ?case by simp
qed simp

section \<open>Commit\<close>

text \<open>The writes of \<^verbatim>\<open>commit_trans\<close>: the header, the home blocks, the cleared header.\<close>

definition commit_writes :: "log \<Rightarrow> store \<Rightarrow> (nat \<times> string) list" where
  "commit_writes lg st =
     (let hb = header (logged lg) (view st (log_start lg))
      in (log_start lg, hb) # copies (log_start lg + 1) (logged lg) (view st) @ [(log_start lg, header [] hb)])"

lemma commit_trans_eq:
  assumes inv: "trans_inv d ups lg st" and ne: "ups \<noteq> []"
  obtains lg' where "commit_trans lg st = Inr (lg', put_blocks (commit_writes lg st) st)"
    "log_wf lg'" "lh_n lg' = 0" "\<not> log_busy lg'" "log_start lg' = log_start lg" "log_size lg' = log_size lg"
proof -
  note I = trans_invD [OF inv]
  let ?a = "log_start lg"
  define hb where "hb = header (logged lg) (view st ?a)"
  define st1 where "st1 = put_block ?a hb st"
  define ws where "ws = copies (?a + 1) (logged lg) (view st)"
  have "logged lg \<noteq> []" using I(4) ne by (metis image_is_empty set_empty)
  then have pos: "lh_n lg > 0" using I(1) by (auto simp: logged_def)
  have w1: "write_head lg st = Inr st1" using write_head_eq [OF I(1), of st] by (simp add: st1_def hb_def)
  have "copies (?a + 1) (logged lg) (view st1) = ws" unfolding ws_def by (rule copies_cong) (simp add: st1_def)
  then have i: "install_trans lg st1 = Inr (put_blocks ws st1)"
    using install_trans_eq [OF I(1), of st1] I(5) by (simp add: less_imp_le)
  have wf2: "log_wf (lg\<lparr>lh_n := 0\<rparr>)" using I(1) by (simp add: log_wf_def)
  have "?a \<notin> set (logged lg)" using I(5) by auto
  then have "view (put_blocks ws st1) ?a = hb" by (simp add: ws_def apply_copies_out st1_def)
  then have w2: "write_head (lg\<lparr>lh_n := 0\<rparr>) (put_blocks ws st1) = Inr (put_block ?a (header [] hb) (put_blocks ws st1))"
    using write_head_eq [OF wf2, of "put_blocks ws st1"] by (simp add: logged_def del: put_blocks_simps)
  have "put_block ?a (header [] hb) (put_blocks ws st1) = put_blocks (commit_writes lg st) st"
    by (simp add: commit_writes_def Let_def hb_def ws_def st1_def put_blocks_def put_block_def)
  with pos w1 i w2 have "commit_trans lg st = Inr (lg\<lparr>lh_n := 0, log_busy := False\<rparr>, put_blocks (commit_writes lg st) st)"
    by (simp add: commit_trans_def Let_def)
  then show thesis by (rule that) (use wf2 in \<open>auto simp: log_wf_def\<close>)
qed

text \<open>A disk on which the header lists \<open>secs\<close> and the log blocks hold the blocks \<open>e\<close>.\<close>

lemma recover_committed:
  assumes "head_is (d (log_start lg)) secs" "length (lh_sector lg) = LOGSIZE"
    and "\<forall>s \<in> set secs. s < log_start lg" "distinct secs"
    and "\<And>i. i < length secs \<Longrightarrow> d (log_start lg + 1 + i) = e (secs ! i)"
    and "\<And>t. t < log_start lg \<Longrightarrow> t \<notin> set secs \<Longrightarrow> d t = e t"
  shows "\<exists>lg' st'. recover_from_log lg (reboot d) = Inr (lg', st') \<and> (\<forall>t < log_start lg. platter st' t = e t)"
proof -
  obtain lg' st' where r: "recover_from_log lg (reboot d) = Inr (lg', st')"
    and inn: "\<And>i. i < length secs \<Longrightarrow> platter st' (secs ! i) = d (log_start lg + 1 + i)"
    and out: "\<And>t. t < log_start lg \<Longrightarrow> t \<notin> set secs \<Longrightarrow> platter st' t = d t"
    using recover_home [where d = d, OF assms(1-4)] by metis
  have "platter st' t = e t" if "t < log_start lg" for t
  proof (cases "t \<in> set secs")
    case True
    then obtain i where "i < length secs" "t = secs ! i" by (auto simp: in_set_conv_nth)
    with inn assms(5) show ?thesis by simp
  next
    case False
    with out assms(6) that show ?thesis by simp
  qed
  with r show ?thesis by blast
qed

lemma take_append_cases:
  obtains "take k (xs @ ys) = take k xs" | j where "take k (xs @ ys) = xs @ take j ys" "j > 0"
proof (cases "k \<le> length xs")
  case False
  then have "take k (xs @ ys) = xs @ take (k - length xs) ys" "k - length xs > 0" by simp_all
  then show thesis by (rule that(2))
qed (use that(1) in simp)

text \<open>A crash at any point of a transaction, in terms of the logging phase and the commit.\<close>

lemma crash_in_logging:
  assumes inv: "trans_inv d ups lg st" and clean: "head_is (d (log_start lg)) []"
    and fresh: "length (lh_sector lg0) = LOGSIZE" "log_start lg0 = log_start lg"
  shows "\<exists>lg' st'. recover_from_log lg0 (reboot (apply_writes (take k (trace st)) d)) = Inr (lg', st') \<and>
    (\<forall>t < log_start lg. platter st' t = d t)"
proof -
  have keep: "apply_writes (take k (trace st)) d t = d t" if "t \<le> log_start lg" for t
  proof (rule apply_writes_other)
    show "t \<notin> fst ` set (take k (trace st))"
      using trans_invD(10) [OF inv] that by (auto dest!: in_set_takeD) fastforce
  qed
  have h: "head_is (apply_writes (take k (trace st)) d (log_start lg0)) []" using keep clean fresh by simp
  have "\<exists>lg' st'. recover_from_log lg0 (reboot (apply_writes (take k (trace st)) d)) = Inr (lg', st') \<and>
    (\<forall>t < log_start lg0. platter st' t = d t)"
    by (rule recover_committed [where d = "apply_writes (take k (trace st)) d", OF h fresh(1)]) (use keep fresh in auto)
  with fresh show ?thesis by simp
qed

lemma crash_in_commit:
  assumes inv: "trans_inv d ups lg st" and hb: "length (d (log_start lg)) = BSIZE" and bound: "log_start lg < 2 ^ 32"
    and fresh: "length (lh_sector lg0) = LOGSIZE" "log_start lg0 = log_start lg" and j: "j > 0"
  shows "\<exists>lg' st'. recover_from_log lg0 (reboot (apply_writes (take j (commit_writes lg st)) (platter st))) = Inr (lg', st') \<and>
    (\<forall>t < log_start lg. platter st' t = apply_writes ups d t)"
proof -
  note I = trans_invD [OF inv]
  let ?a = "log_start lg" and ?S = "logged lg"
  define H where "H = header ?S (view st ?a)"
  define d1 where "d1 = (platter st)(?a := H)"
  define ws where "ws = copies (?a + 1) ?S (view st)"
  have cw: "commit_writes lg st = (?a, H) # ws @ [(?a, header [] H)]" by (simp add: commit_writes_def Let_def H_def ws_def)
  have notin: "?a \<notin> fst ` set ups" using I(4,5) by auto
  have va: "view st ?a = d ?a" using I(8) [of ?a] notin by (simp add: apply_writes_other)
  have hd: "head_is H ?S"
    unfolding H_def va using I(1,5) bound hb by (intro head_is_header) (fastforce simp: log_wf_def nat_le_iff)+
  have home: "platter st t = d t" if "t < ?a" for t
    unfolding I(9) by (rule apply_writes_other) (use I(10) that in fastforce)
  have other: "d t = apply_writes ups d t" if "t \<notin> set ?S" for t
    using that I(4) by (simp add: apply_writes_other)
  have blk: "view st (?a + 1 + i) = apply_writes ups d (?S ! i)" if "i < length ?S" for i
  proof -
    have "view st (?a + 1 + i) = view st (?S ! i)" using I(6) [OF that] I(7) [of "?a + 1 + i"] by simp
    also have "\<dots> = apply_writes ups d (?S ! i)" using I(8) I(5) [OF nth_mem [OF that]] by simp
    finally show ?thesis .
  qed
  obtain m where "take j (commit_writes lg st) = (?a, H) # take m ws \<or>
      take j (commit_writes lg st) = (?a, H) # ws @ [(?a, header [] H)]"
    using j by (cases j; cases "j \<le> Suc (length ws)") (auto simp: cw)
  then show ?thesis
  proof
    assume e: "take j (commit_writes lg st) = (?a, H) # take m ws"
    let ?d = "apply_writes (take j (commit_writes lg st)) (platter st)"
    have d: "?d = apply_writes (copies (?a + 1) (take m ?S) (view st)) d1"
      by (simp add: e d1_def ws_def take_copies)
    have keep: "?d t = d1 t" if "t \<notin> set ?S" for t
      using that unfolding d by (intro apply_copies_out) (auto dest: in_set_takeD)
    have "\<exists>lg' st'. recover_from_log lg0 (reboot ?d) = Inr (lg', st') \<and>
      (\<forall>t < log_start lg0. platter st' t = apply_writes ups d t)"
    proof (rule recover_committed [where d = ?d and secs = ?S, OF _ fresh(1) _ I(3)])
      have "?a \<notin> set ?S" using I(5) by auto
      with keep show "head_is (?d (log_start lg0)) ?S" using hd fresh(2) by (simp add: d1_def)
      show "\<forall>s \<in> set ?S. s < log_start lg0" using I(5) fresh(2) by simp
      show "?d (log_start lg0 + 1 + i) = apply_writes ups d (?S ! i)" if "i < length ?S" for i
      proof -
        have "?a + 1 + i \<notin> set ?S" using I(5) by fastforce
        with keep have "?d (log_start lg0 + 1 + i) = d1 (?a + 1 + i)" using fresh(2) by simp
        also have "\<dots> = view st (?a + 1 + i)" using I(7) [of "?a + 1 + i"] by (simp add: d1_def)
        finally show ?thesis using blk [OF that] by simp
      qed
      show "?d t = apply_writes ups d t" if "t < log_start lg0" "t \<notin> set ?S" for t
        using keep [OF that(2)] home other [OF that(2)] that(1) fresh(2) by (simp add: d1_def)
    qed
    with fresh(2) show ?thesis by simp
  next
    assume e: "take j (commit_writes lg st) = (?a, H) # ws @ [(?a, header [] H)]"
    let ?d = "apply_writes (take j (commit_writes lg st)) (platter st)"
    have d: "?d = (apply_writes ws d1)(?a := header [] H)" by (simp add: e d1_def)
    have "?d t = apply_writes ups d t" if "t < ?a" for t
    proof (cases "t \<in> set ?S")
      case True
      then obtain i where i: "i < length ?S" "t = ?S ! i" by (auto simp: in_set_conv_nth)
      with apply_copies_in [OF I(3) i(1), of "?a + 1" "view st" d1] blk that show ?thesis
        by (simp add: d ws_def)
    next
      case False
      with home other that show ?thesis by (simp add: d ws_def apply_copies_out d1_def)
    qed
    moreover have "head_is (?d ?a) []" using hd by (simp add: d head_is_cleared head_is_def [of H])
    ultimately have "\<exists>lg' st'. recover_from_log lg0 (reboot ?d) = Inr (lg', st') \<and>
        (\<forall>t < log_start lg0. platter st' t = apply_writes ups d t)"
      using fresh by (intro recover_committed [where d = ?d and secs = "[]"]) auto
    with fresh(2) show ?thesis by simp
  qed
qed

section \<open>Transactions\<close>

text \<open>The log between transactions, and a disk whose log is empty.\<close>

definition log_idle :: "log \<Rightarrow> bool" where
  "log_idle lg \<longleftrightarrow> length (lh_sector lg) = LOGSIZE \<and> lh_n lg = 0 \<and> \<not> log_busy lg \<and> log_start lg < 2 ^ 32"

lemma trans_inv_begin:
  assumes "log_idle lg"
  shows "trans_inv d [] (lg\<lparr>log_busy := True\<rparr>) (reboot d)"
  using assms by (simp add: trans_inv_def log_idle_def log_wf_def logged_def reboot_def)

lemma transaction_cases:
  assumes idle: "log_idle lg" and home: "\<forall>w \<in> set ws. fst w < log_start lg"
    and run: "transaction ws lg (reboot d) = Inr (lg', st')"
  obtains (empty) "ws = []" "st' = reboot d" "lg' = lg"
    | (commit) lg1 st1 where "trans_inv d ws lg1 st1" "log_start lg1 = log_start lg" "ws \<noteq> []"
        "st' = put_blocks (commit_writes lg1 st1) st1" "log_wf lg'" "lh_n lg' = 0" "\<not> log_busy lg'"
        "log_start lg' = log_start lg"
proof (cases "ws = []")
  case True
  have b: "begin_trans lg = Some (lg\<lparr>log_busy := True\<rparr>)" using idle by (simp add: log_idle_def begin_trans_def)
  have "lg\<lparr>log_busy := False\<rparr> = lg" using idle by (cases lg) (simp add: log_idle_def)
  moreover have "transaction ws lg (reboot d) = Inr (lg\<lparr>log_busy := False\<rparr>, reboot d)"
    using True b idle by (simp add: transaction_def commit_trans_def log_idle_def)
  ultimately show thesis using True run empty by simp
next
  case False
  have "begin_trans lg = Some (lg\<lparr>log_busy := True\<rparr>)" using idle by (simp add: log_idle_def begin_trans_def)
  with run obtain lg1 st1 where r: "log_writes ws (lg\<lparr>log_busy := True\<rparr>) (reboot d) = Inr (lg1, st1)"
    and c: "commit_trans lg1 st1 = Inr (lg', st')"
    by (auto simp: transaction_def andthen_Inr_iff)
  from log_writes_inv [OF trans_inv_begin [OF idle, of d] _ r] home have
    i: "trans_inv d ws lg1 st1" "log_start lg1 = log_start lg" by auto
  obtain lg2 where "commit_trans lg1 st1 = Inr (lg2, put_blocks (commit_writes lg1 st1) st1)" "log_wf lg2"
    "lh_n lg2 = 0" "\<not> log_busy lg2" "log_start lg2 = log_start lg1"
    using commit_trans_eq [OF i(1) False] by metis
  with c i False commit show thesis by auto
qed

lemma commit_sectors: "fst ` set (commit_writes lg st) = insert (log_start lg) (set (logged lg))"
proof -
  have "fst ` set (copies a secs d) = set secs" for a secs d
    using copies_sectors [of a secs d] by (metis set_map)
  then show ?thesis by (auto simp: commit_writes_def Let_def image_Un)
qed

lemma crash_recovery:
  assumes idle: "log_idle lg" and home: "\<forall>w \<in> set ws. fst w < log_start lg"
    and clean: "head_is (d (log_start lg)) []" and run: "transaction ws lg (reboot d) = Inr (lg', st')"
    and fresh: "length (lh_sector lg0) = LOGSIZE" "log_start lg0 = log_start lg"
  shows "\<exists>lgr str. recover_from_log lg0 (reboot (apply_writes (take k (trace st')) d)) = Inr (lgr, str) \<and>
    ((\<forall>t < log_start lg. platter str t = d t) \<or> (\<forall>t < log_start lg. platter str t = apply_writes ws d t))"
  using idle home run
proof (cases rule: transaction_cases)
  case empty
  with recover_committed [where d = d and lg = lg0 and secs = "[]" and e = d] clean fresh show ?thesis
    by (simp add: reboot_def [of d])
next
  case (commit lg1 st1)
  have tr: "trace st' = trace st1 @ commit_writes lg1 st1" using commit(4) by simp
  show ?thesis
  proof (cases rule: take_append_cases [of k "trace st1" "commit_writes lg1 st1"])
    case 1
    with crash_in_logging [OF commit(1) _ fresh(1), of k] clean fresh(2) commit(2) tr show ?thesis by auto
  next
    case (2 j)
    have "length (d (log_start lg1)) = BSIZE" "log_start lg1 < 2 ^ 32"
      using clean idle commit(2) by (simp_all add: head_is_def log_idle_def)
    with crash_in_commit [OF commit(1) _ _ fresh(1), of j] fresh(2) 2 commit(2) tr trans_invD(9) [OF commit(1)]
    show ?thesis by auto
  qed
qed

lemma trace_sectors:
  assumes "log_idle lg" "\<forall>w \<in> set ws. fst w < log_start lg" "transaction ws lg (reboot d) = Inr (lg', st')"
  shows "\<forall>w \<in> set (trace st'). log_start lg \<le> fst w \<or> fst w \<in> fst ` set ws"
  using assms
proof (cases rule: transaction_cases)
  case empty
  then show ?thesis by (simp add: reboot_def)
next
  case (commit lg1 st1)
  have "log_start lg \<le> fst w \<or> fst w \<in> fst ` set ws" if "w \<in> set (commit_writes lg1 st1)" for w
  proof -
    have "fst w \<in> fst ` set (commit_writes lg1 st1)" using that by blast
    then show ?thesis unfolding commit_sectors using trans_invD(4) [OF commit(1)] commit(2) by auto
  qed
  moreover have "log_start lg \<le> fst w" if "w \<in> set (trace st1)" for w
    using trans_invD(10) [OF commit(1) that] commit(2) by simp
  ultimately show ?thesis unfolding commit(4) by auto
qed

text \<open>Where \<^verbatim>\<open>initlog\<close> finds the log.\<close>

definition log_area :: "(nat \<Rightarrow> string) \<Rightarrow> nat" where
  "log_area d = (let sb = readsb (reboot d) in (sb_size sb + 2 ^ 32 - sb_nlog sb) mod 2 ^ 32)"

lemma log_area_cong: "d 1 = d' 1 \<Longrightarrow> log_area d = log_area d'"
  by (simp add: log_area_def readsb_def reboot_def)

lemma initlog_eq:
  "initlog lg (reboot d) = recover_from_log (lg\<lparr>log_start := log_area d,
     log_size := int32 (sb_nlog (readsb (reboot d)))\<rparr>) (reboot d)"
  by (simp add: initlog_def log_area_def Let_def)

text \<open>What a finished commit leaves on the disk and in the cache.\<close>

lemma commit_result:
  assumes inv: "trans_inv d ups lg st" and t: "t < log_start lg"
  shows "platter (put_blocks (commit_writes lg st) st) t = apply_writes ups d t"
    and "view (put_blocks (commit_writes lg st) st) t = apply_writes ups d t"
proof -
  note I = trans_invD [OF inv]
  let ?a = "log_start lg" and ?S = "logged lg"
  have app: "apply_writes (commit_writes lg st) e t = apply_writes (copies (?a + 1) ?S (view st)) (e(?a := H)) t"
    if "H = header ?S (view st ?a)" for e H
    using t that by (simp add: commit_writes_def Let_def)
  have "apply_writes (commit_writes lg st) e t = apply_writes ups d t" if e: "t \<notin> set ?S \<Longrightarrow> e t = d t" for e
  proof (cases "t \<in> set ?S")
    case True
    then obtain i where i: "i < length ?S" "t = ?S ! i" by (auto simp: in_set_conv_nth)
    have "apply_writes (commit_writes lg st) e t = view st (?a + 1 + i)"
      unfolding app [OF refl] unfolding i(2) by (rule apply_copies_in [OF I(3) i(1)])
    also have "\<dots> = view st t" using I(6) [OF i(1)] I(7) [of "?a + 1 + i"] i(2) by simp
    finally show ?thesis using I(8) t by simp
  next
    case False
    with e I(4) t show ?thesis by (simp add: app [OF refl] apply_copies_out apply_writes_other)
  qed
  moreover have "platter st t = d t"
    unfolding I(9) by (rule apply_writes_other) (use I(10) t in fastforce)
  moreover have "view st t = d t" if "t \<notin> set ?S" using that I(4,8) t by (simp add: apply_writes_other)
  ultimately show "platter (put_blocks (commit_writes lg st) st) t = apply_writes ups d t"
    "view (put_blocks (commit_writes lg st) st) t = apply_writes ups d t" by simp_all
qed

lemma commit_clears:
  assumes inv: "trans_inv d ups lg st" and hb: "length (d (log_start lg)) = BSIZE"
  shows "head_is (platter (put_blocks (commit_writes lg st) st) (log_start lg)) []"
proof -
  note I = trans_invD [OF inv]
  have "log_start lg \<notin> fst ` set ups" using I(4,5) by auto
  then have "view st (log_start lg) = d (log_start lg)" using I(8) [of "log_start lg"] by (simp add: apply_writes_other)
  moreover have "length (logged lg) \<le> LOGSIZE" using I(1) by (simp add: log_wf_def nat_le_iff)
  ultimately have "length (header (logged lg) (view st (log_start lg))) = BSIZE" using hb by (simp add: header_def)
  then show ?thesis by (simp add: commit_writes_def Let_def head_is_cleared)
qed

section \<open>Properties\<close>

text \<open>
  C1. Transactions are atomic under crashes. The machine may stop after any number \<open>k\<close> of the disk writes of a
  transaction. When it boots again, \<^verbatim>\<open>initlog\<close> finds the log, does not fault, and leaves every home block as it
  was before the transaction, or every home block as the complete transaction makes it; never a mixture.
\<close>

theorem crash_is_all_or_nothing:
  assumes "log_idle lg" "head_is (d (log_start lg)) []" "log_start lg = log_area d" "1 < log_start lg"
    and "\<forall>w \<in> set ws. fst w < log_start lg \<and> fst w \<noteq> 1"
    and "transaction ws lg (reboot d) = Inr (lg', st')" "length (lh_sector lg0) = LOGSIZE"
  shows "\<exists>lgr str. initlog lg0 (reboot (apply_writes (take k (trace st')) d)) = Inr (lgr, str) \<and>
    ((\<forall>t < log_start lg. platter str t = d t) \<or> (\<forall>t < log_start lg. platter str t = apply_writes ws d t))"
proof -
  let ?d = "apply_writes (take k (trace st')) d"
  have home: "\<forall>w \<in> set ws. fst w < log_start lg" using assms(5) by blast
  have "?d 1 = d 1"
  proof (rule apply_writes_other)
    show "1 \<notin> fst ` set (take k (trace st'))"
      using trace_sectors [OF assms(1) home assms(6)] assms(4,5) by (fastforce dest: in_set_takeD)
  qed
  then have "log_area ?d = log_start lg" using log_area_cong assms(3) by metis
  then show ?thesis unfolding initlog_eq
    using assms by (intro crash_recovery [OF assms(1) home assms(2,6)]) simp_all
qed

text \<open>An empty log in blocks 15 to 19 of a disk of 20 blocks.\<close>

definition zero_block :: string where
  "zero_block = replicate BSIZE NUL"

definition log_disk :: "nat \<Rightarrow> string" where
  "log_disk = (\<lambda>_. zero_block)(1 := put_le 4 12 5 (put_le 4 0 20 zero_block))"

definition log_example :: log where
  "log_example = \<lparr>log_start = 15, log_size = 5, log_busy = False, lh_n = 0, lh_sector = replicate LOGSIZE 0\<rparr>"

lemma le_val_zeros: "le_val (replicate n NUL) = 0"
  by (induction n) simp_all

lemma log_example_ok:
  "log_idle log_example" "head_is (log_disk 15) []" "log_area log_disk = 15" "log_start log_example = 15"
  "length (lh_sector log_example) = LOGSIZE"
proof -
  show "log_idle log_example" "log_start log_example = 15" "length (lh_sector log_example) = LOGSIZE"
    by (simp_all add: log_idle_def log_example_def)
  have "get_le 4 0 zero_block = 0" by (simp add: get_le_def zero_block_def le_val_zeros)
  then show "head_is (log_disk 15) []" by (simp add: head_is_def log_disk_def zero_block_def)
  have "length zero_block = BSIZE" by (simp add: zero_block_def)
  then show "log_area log_disk = 15"
    by (simp add: log_area_def readsb_def reboot_def log_disk_def Let_def get_put_le get_put_le_other)
qed

lemma log_example_runs:
  "\<exists>lg' st'. transaction [(3, ''new''), (4, ''also new'')] log_example (reboot log_disk) = Inr (lg', st')"
  by (simp add: transaction_def begin_trans_def log_example_def log_write_def Let_def commit_trans_def
      write_head_def install_trans_def lh_sector_at_def numeral_2_eq_2)

theorem crash_witness:
  "\<exists>lg' st'. transaction [(3, ''new''), (4, ''also new'')] log_example (reboot log_disk) = Inr (lg', st') \<and>
    (\<exists>lgr str. initlog log_example (reboot (apply_writes (take 4 (trace st')) log_disk)) = Inr (lgr, str) \<and>
      (platter str 3, platter str 4) \<in> {(zero_block, zero_block), (''new'', ''also new'')})"
proof -
  obtain lg' st' where r: "transaction [(3, ''new''), (4, ''also new'')] log_example (reboot log_disk) = Inr (lg', st')"
    using log_example_runs by blast
  have "\<exists>lgr str. initlog log_example (reboot (apply_writes (take 4 (trace st')) log_disk)) = Inr (lgr, str) \<and>
    ((\<forall>t < log_start log_example. platter str t = log_disk t) \<or>
     (\<forall>t < log_start log_example. platter str t = apply_writes [(3, ''new''), (4, ''also new'')] log_disk t))"
    by (rule crash_is_all_or_nothing [OF log_example_ok(1) _ _ _ _ r]) (simp_all add: log_example_ok)
  moreover have "log_disk 3 = zero_block" "log_disk 4 = zero_block" by (simp_all add: log_disk_def)
  ultimately show ?thesis using r by (auto simp: log_example_ok)
qed



text \<open>
  C15. Recovery is itself crash safe: if the machine stops after any number \<open>k\<close> of the writes of a recovery and
  recovers again, every home block ends as after the uninterrupted recovery.
\<close>

theorem recovery_is_idempotent:
  assumes "head_is (d (log_start lg)) secs" "length (lh_sector lg) = LOGSIZE"
    and "\<forall>s \<in> set secs. s < log_start lg" "distinct secs"
    and "recover_from_log lg (reboot d) = Inr (lg', st')"
  shows "\<exists>lg2 st2. recover_from_log lg (reboot (apply_writes (take k (trace st')) d)) = Inr (lg2, st2) \<and>
    (\<forall>t < log_start lg. platter st2 t = platter st' t)"
proof -
  let ?a = "log_start lg" and ?d = "apply_writes (take k (trace st')) d"
  have inn: "\<And>i. i < length secs \<Longrightarrow> platter st' (secs ! i) = d (?a + 1 + i)"
    and out: "\<And>t. t < ?a \<Longrightarrow> t \<notin> set secs \<Longrightarrow> platter st' t = d t"
    and tr: "trace st' = copies (?a + 1) secs d @ [(?a, header [] (d ?a))]"
    and full: "platter st' = apply_writes (trace st') d"
    using recover_home [where d = d, OF assms(1-4)] assms(5) by (metis sum.inject(2) prod.inject)+
  show ?thesis
  proof (cases "k \<le> length secs")
    case True
    moreover have "length (copies (?a + 1) secs d) = length secs" using copies_sectors length_map by metis
    ultimately have d: "?d = apply_writes (copies (?a + 1) (take k secs) d) d" by (simp add: tr take_copies)
    have keep: "?d t = d t" if "t \<notin> set secs" for t
      using that unfolding d by (intro apply_copies_out) (auto dest: in_set_takeD)
    show ?thesis
    proof (rule recover_committed [where d = ?d, OF _ assms(2-4)])
      show "head_is (?d ?a) secs" using keep [of ?a] assms(1,3) by auto
      show "?d (?a + 1 + i) = platter st' (secs ! i)" if "i < length secs" for i
        using inn [OF that] keep [of "?a + 1 + i"] assms(3) by fastforce
      show "?d t = platter st' t" if "t < ?a" "t \<notin> set secs" for t using keep out that by simp
    qed
  next
    case False
    moreover have "length (copies (?a + 1) secs d) = length secs" using copies_sectors length_map by metis
    ultimately have d: "?d = platter st'" by (simp add: tr full)
    have "platter st' ?a = header [] (d ?a)" unfolding full tr by simp
    then have "head_is (?d ?a) []" using assms(1) unfolding d by (simp add: head_is_cleared head_is_def [of _ secs])
    then show ?thesis using assms(2) by (intro recover_committed [where d = ?d and secs = "[]"]) (simp_all add: d)
  qed
qed

theorem recovery_witness:
  "\<exists>lg' st'. recover_from_log log_example (reboot (log_disk(15 := header [7] zero_block, 16 := ''saved''))) = Inr (lg', st') \<and>
    (\<exists>lg2 st2. recover_from_log log_example
        (reboot (apply_writes (take 1 (trace st')) (log_disk(15 := header [7] zero_block, 16 := ''saved'')))) = Inr (lg2, st2) \<and>
      platter st2 7 = platter st' 7)"
proof -
  let ?d = "log_disk(15 := header [7] zero_block, 16 := ''saved'')"
  have h: "head_is (?d (log_start log_example)) [7]"
    using head_is_header [of "[7]" zero_block] by (simp add: log_example_ok zero_block_def)
  obtain lg' st' where r: "recover_from_log log_example (reboot ?d) = Inr (lg', st')"
    by (rule recover_home [where d = ?d, OF h log_example_ok(5)]) (simp_all add: log_example_ok)
  with recovery_is_idempotent [where d = ?d, OF h log_example_ok(5) _ _ r, of 1] show ?thesis
    by (auto simp: log_example_ok)
qed

end
