(* ===== verification/Fs_Blocks.thy ===== *)
theory Fs_Blocks
  imports Log
begin

text \<open>
  The block layer of \<^verbatim>\<open>fs.c\<close>: zeroing, allocating and freeing disk blocks in the free bitmap. The file system
  runs one system call at a time on the block store, and every change goes through \<^verbatim>\<open>log_write\<close>.
\<close>

section \<open>The state of the file system\<close>

text \<open>The in-memory inodes of \<^verbatim>\<open>file.h\<close>; \<^verbatim>\<open>I_BUSY\<close> and \<^verbatim>\<open>I_VALID\<close> of \<^verbatim>\<open>flags\<close> are two fields.\<close>

record inode =
  idev :: nat
  inum :: nat
  ref :: int
  ibusy :: bool
  ivalid :: bool
  itype :: nat
  imajor :: nat
  iminor :: nat
  nlink :: nat
  isize :: nat
  addrs :: "nat list"

text \<open>
  \<^verbatim>\<open>devsw\<close>: the read function of a device gives its result and the bytes it delivers for a count, the write
  function its result for the bytes.
\<close>

record fs =
  f_store :: store
  f_log :: log
  icache :: "inode list"
  dev_read :: "nat \<Rightarrow> (nat \<Rightarrow> int \<times> string) option"
  dev_write :: "nat \<Rightarrow> (string \<Rightarrow> int) option"

abbreviation block_at :: "fs \<Rightarrow> nat \<Rightarrow> string" where
  "block_at f s \<equiv> view (f_store f) s"

text \<open>\<^verbatim>\<open>log_write\<close> of the buffer of block \<open>s\<close>, changed to \<open>v\<close>.\<close>

definition log_block :: "nat \<Rightarrow> string \<Rightarrow> fs \<Rightarrow> fault + fs" where
  "log_block s v f = map_sum id (\<lambda>(lg, st). f\<lparr>f_log := lg, f_store := st\<rparr>) (log_write s v (f_log f) (f_store f))"

section \<open>The free bitmap\<close>

abbreviation (input) BPB :: nat where
  "BPB \<equiv> 4096"

abbreviation (input) IPB :: nat where
  "IPB \<equiv> 8"

definition BBLOCK :: "nat \<Rightarrow> nat \<Rightarrow> nat" where
  "BBLOCK b ninodes = b div BPB + ninodes div IPB + 3"

definition bzero :: "nat \<Rightarrow> fs \<Rightarrow> fault + fs" where
  "bzero bno f = log_block bno (replicate BSIZE NUL) f"

text \<open>The tests and updates of bit \<open>bi\<close> of a bitmap block; \<^verbatim>\<open>m = 1 << (bi % 8)\<close>.\<close>

definition bit_mask :: "nat \<Rightarrow> int" where
  "bit_mask bi = push_bit (bi mod 8) 1"

definition bit_free :: "string \<Rightarrow> nat \<Rightarrow> bool" where
  "bit_free bp bi \<longleftrightarrow> of_char (bp ! (bi div 8)) AND bit_mask bi = 0"

definition mark_used :: "nat \<Rightarrow> string \<Rightarrow> string" where
  "mark_used bi bp = bp[bi div 8 := char_of (of_char (bp ! (bi div 8)) OR bit_mask bi)]"

definition mark_free :: "nat \<Rightarrow> string \<Rightarrow> string" where
  "mark_free bi bp = bp[bi div 8 := char_of (of_char (bp ! (bi div 8)) AND NOT (bit_mask bi))]"

text \<open>The inner loop of \<^verbatim>\<open>balloc\<close> over the \<open>n\<close> bits that are left.\<close>

fun first_free :: "string \<Rightarrow> nat \<Rightarrow> nat \<Rightarrow> nat option" where
  "first_free bp 0 bi = None"
| "first_free bp (Suc n) bi = (if bit_free bp bi then Some bi else first_free bp n (Suc bi))"

function balloc_from :: "superblock \<Rightarrow> nat \<Rightarrow> fs \<Rightarrow> fault + (nat \<times> fs)" where
  "balloc_from sb b f =
     (if b < sb_size sb
      then let s = BBLOCK b (sb_ninodes sb); bp = block_at f s
        in case first_free bp (min BPB (sb_size sb - b)) 0 of
             Some bi \<Rightarrow>
               andthen (log_block s (mark_used bi bp) f) (\<lambda>f1.
               andthen (bzero (b + bi) f1) (\<lambda>f2. Inr (b + bi, f2)))
           | None \<Rightarrow> balloc_from sb (b + BPB) f
      else Inl (Panic ''balloc: out of blocks''))"
  by pat_completeness auto
termination
  by (relation "measure (\<lambda>(sb, b, f). sb_size sb - b)") auto

declare balloc_from.simps [simp del]

definition balloc :: "fs \<Rightarrow> fault + (nat \<times> fs)" where
  "balloc f = balloc_from (readsb (f_store f)) 0 f"

definition bfree :: "nat \<Rightarrow> fs \<Rightarrow> fault + fs" where
  "bfree b f =
     (let sb = readsb (f_store f); s = BBLOCK b (sb_ninodes sb); bp = block_at f s; bi = b mod BPB
      in if bit_free bp bi then Inl (Panic ''freeing free block'')
        else log_block s (mark_free bi bp) f)"

section \<open>Bits\<close>

lemma bit_mask_bit: "bit (bit_mask bi) k \<longleftrightarrow> k = bi mod 8"
  unfolding bit_mask_def bit_push_bit_iff by (auto simp: bit_1_iff)

lemma bit_free_iff: "bit_free bp bi \<longleftrightarrow> \<not> bit (of_char (bp ! (bi div 8)) :: int) (bi mod 8)"
proof -
  have "(of_char (bp ! (bi div 8)) AND bit_mask bi = (0 :: int)) \<longleftrightarrow>
      (\<forall>k. \<not> (bit (of_char (bp ! (bi div 8)) :: int) k \<and> bit (bit_mask bi) k))"
    by (simp add: bit_eq_iff bit_and_iff)
  then show ?thesis unfolding bit_free_def bit_mask_bit by metis
qed

lemma bit_mod_256: "bit ((n :: int) mod 256) k \<longleftrightarrow> k < 8 \<and> bit n k"
proof -
  have "n mod 256 = take_bit 8 n" by (simp add: take_bit_eq_mod)
  then show ?thesis by (simp add: bit_take_bit_iff)
qed

lemma length_mark [simp]: "length (mark_used bi bp) = length bp" "length (mark_free bi bp) = length bp"
  by (simp_all add: mark_used_def mark_free_def)

lemma div_mod_8_eq: "(i :: nat) div 8 = j div 8 \<Longrightarrow> i mod 8 = j mod 8 \<longleftrightarrow> i = j"
  by (metis div_mult_mod_eq)

lemma bit_free_mark_used:
  assumes "bi div 8 < length bp" "j div 8 < length bp"
  shows "bit_free (mark_used bi bp) j \<longleftrightarrow> bit_free bp j \<and> j \<noteq> bi"
proof (cases "j div 8 = bi div 8")
  case True
  have "j mod 8 < 8" by simp
  with assms True div_mod_8_eq [OF True] show ?thesis
    by (auto simp: bit_free_iff mark_used_def bit_mod_256 bit_or_iff bit_mask_bit)
next
  case False
  then have "j \<noteq> bi" by auto
  with False show ?thesis by (simp add: bit_free_iff mark_used_def)
qed

lemma bit_free_mark_free:
  assumes "bi div 8 < length bp" "j div 8 < length bp"
  shows "bit_free (mark_free bi bp) j \<longleftrightarrow> bit_free bp j \<or> j = bi"
proof (cases "j div 8 = bi div 8")
  case True
  have "j mod 8 < 8" by simp
  with assms True div_mod_8_eq [OF True] show ?thesis
    by (auto simp: bit_free_iff mark_free_def bit_mod_256 bit_and_iff bit_not_iff bit_mask_bit)
next
  case False
  then have "j \<noteq> bi" by auto
  with False show ?thesis by (simp add: bit_free_iff mark_free_def)
qed

lemma first_free_Some:
  "first_free bp n bi = Some j \<Longrightarrow> bi \<le> j \<and> j < bi + n \<and> bit_free bp j \<and> (\<forall>i. bi \<le> i \<longrightarrow> i < j \<longrightarrow> \<not> bit_free bp i)"
proof (induction bp n bi rule: first_free.induct)
  case (2 bp n bi)
  show ?case
  proof (cases "bit_free bp bi")
    case True
    with 2(2) show ?thesis by simp
  next
    case False
    with 2 have IH: "Suc bi \<le> j" "j < Suc bi + n" "bit_free bp j" "\<And>i. Suc bi \<le> i \<Longrightarrow> i < j \<Longrightarrow> \<not> bit_free bp i" by auto
    have "\<not> bit_free bp i" if "bi \<le> i" "i < j" for i using that False IH(4) by (cases "i = bi") auto
    with IH show ?thesis by simp
  qed
qed simp

lemma first_free_None: "first_free bp n bi = None \<Longrightarrow> bi \<le> i \<Longrightarrow> i < bi + n \<Longrightarrow> \<not> bit_free bp i"
proof (induction bp n bi rule: first_free.induct)
  case (2 bp n bi)
  then show ?case by (cases "i = bi") (auto split: if_splits)
qed simp

section \<open>Logged updates\<close>

abbreviation log_base :: "fs \<Rightarrow> nat" where
  "log_base f \<equiv> log_start (f_log f)"

text \<open>An update through the log, as the blocks below the log show it.\<close>

lemma log_block_Inr:
  assumes "log_block s v f = Inr f'"
  shows "\<forall>t \<le> log_base f. block_at f' t = ((block_at f)(s := v)) t"
    and "log_base f' = log_base f" "icache f' = icache f" "dev_read f' = dev_read f" "dev_write f' = dev_write f"
  using assms by (auto simp: log_block_def map_sum_Inr_iff log_write_def Let_def split: if_splits)

section \<open>Room in the log\<close>

text \<open>
  The blocks that the running transaction has logged, and the number of blocks that \<^verbatim>\<open>log_write\<close> accepts: it
  panics as soon as so many are logged.
\<close>

definition in_log :: "fs \<Rightarrow> nat set" where
  "in_log f = set (logged (f_log f))"

definition log_limit :: "fs \<Rightarrow> int" where
  "log_limit f = min (int LOGSIZE) (log_size (f_log f) - 1)"

definition log_on :: "fs \<Rightarrow> bool" where
  "log_on f \<longleftrightarrow> log_wf (f_log f) \<and> log_busy (f_log f) \<and> distinct (logged (f_log f))"

lemma finite_in_log [simp]: "finite (in_log f)"
  by (simp add: in_log_def)

lemma log_block_total:
  assumes "log_on f" "int (card (in_log f)) < log_limit f"
  shows "\<exists>f'. log_block s v f = Inr f' \<and> log_on f' \<and> in_log f' = insert s (in_log f) \<and> log_limit f' = log_limit f"
proof -
  let ?lg = "f_log f"
  have on: "log_wf ?lg" "log_busy ?lg" "distinct (logged ?lg)" using assms(1) by (auto simp: log_on_def)
  have "int (card (in_log f)) = lh_n ?lg"
    using on length_logged [OF on(1)] distinct_card [OF on(3)] by (simp add: in_log_def log_wf_def)
  then have room: "lh_n ?lg < int LOGSIZE" "lh_n ?lg < log_size ?lg - 1" using assms(2) by (simp_all add: log_limit_def)
  obtain i lg' where w: "log_write s v ?lg (f_store f) = Inr (lg', pin_block s v (put_block (log_start ?lg + i + 1) v (f_store f)))"
    and lg': "log_wf lg'" "log_busy lg'" "log_size lg' = log_size ?lg"
      "logged lg' = (if s \<in> set (logged ?lg) then logged ?lg else logged ?lg @ [s])"
    using log_write_eq [OF on(1,2) room, where s = s and v = v and st = "f_store f"] by metis
  let ?f' = "f\<lparr>f_log := lg', f_store := pin_block s v (put_block (log_start ?lg + i + 1) v (f_store f))\<rparr>"
  have "log_block s v f = Inr ?f'" by (simp add: log_block_def w)
  moreover have "log_on ?f'" using lg' on(3) by (simp add: log_on_def)
  moreover have "in_log ?f' = insert s (in_log f)" using lg'(4) by (auto simp: in_log_def)
  moreover have "log_limit ?f' = log_limit f" using lg'(3) by (simp add: log_limit_def)
  ultimately show ?thesis by blast
qed

section \<open>The layout of the disk\<close>

abbreviation sb_of :: "fs \<Rightarrow> superblock" where
  "sb_of f \<equiv> readsb (f_store f)"

text \<open>The first block behind the bitmap.\<close>

definition data_start :: "fs \<Rightarrow> nat" where
  "data_start f = BBLOCK (sb_size (sb_of f) - 1) (sb_ninodes (sb_of f)) + 1"

definition used :: "fs \<Rightarrow> nat \<Rightarrow> bool" where
  "used f b \<longleftrightarrow> \<not> bit_free (block_at f (BBLOCK b (sb_ninodes (sb_of f)))) (b mod BPB)"

text \<open>
  The blocks below the log are full blocks; the log is behind the bitmap and inside the disk; and the boot
  block, the superblock, the inodes and the bitmap are marked as used.
\<close>

definition geometry :: "fs \<Rightarrow> bool" where
  "geometry f \<longleftrightarrow> (\<forall>t < log_base f. length (block_at f t) = BSIZE) \<and> data_start f \<le> log_base f \<and>
     log_base f \<le> sb_size (sb_of f) \<and> (\<forall>b < data_start f. used f b)"

lemma geometryD:
  assumes "geometry f"
  shows "\<And>t. t < log_base f \<Longrightarrow> length (block_at f t) = BSIZE" "data_start f \<le> log_base f"
    "log_base f \<le> sb_size (sb_of f)" "\<And>b. b < data_start f \<Longrightarrow> used f b"
  using assms by (auto simp: geometry_def)

lemma BBLOCK_bounds: "b < sb_size (sb_of f) \<Longrightarrow> 1 < BBLOCK b n" "b < sb_size (sb_of f) \<Longrightarrow>
    BBLOCK b (sb_ninodes (sb_of f)) < data_start f"
  by (auto simp: BBLOCK_def data_start_def less_Suc_eq_le intro!: div_le_mono)

lemma sb_frame: "block_at f' 1 = block_at f 1 \<Longrightarrow> sb_of f' = sb_of f"
  by (simp add: readsb_def)

lemma BBLOCK_same: "b div BPB = c div BPB \<longleftrightarrow> BBLOCK b n = BBLOCK c n"
  by (simp add: BBLOCK_def)

lemma div_mod_BPB_eq: "(i :: nat) div 4096 = j div 4096 \<Longrightarrow> i mod 4096 = j mod 4096 \<longleftrightarrow> i = j"
  by (metis div_mult_mod_eq)

text \<open>Which blocks are in use after a bit of the bitmap changed.\<close>

lemma used_upd:
  assumes g: "geometry f" and b: "b < sb_size (sb_of f)" and c: "c < sb_size (sb_of f)"
    and f': "\<forall>t \<le> log_base f. block_at f' t = ((block_at f)(BBLOCK b (sb_ninodes (sb_of f)) := bp)) t"
    and bp: "\<And>j. j < BPB \<Longrightarrow> \<not> bit_free bp j \<longleftrightarrow> P j (bit_free (block_at f (BBLOCK b (sb_ninodes (sb_of f)))) j)"
    and P: "\<And>j x. j \<noteq> b mod BPB \<Longrightarrow> P j x = (\<not> x)"
  shows "used f' c \<longleftrightarrow> (if c = b then P (b mod BPB) (\<not> used f b) else used f c)"
proof -
  let ?n = "sb_ninodes (sb_of f)"
  have lt: "BBLOCK b ?n < log_base f" "BBLOCK c ?n < log_base f"
    using BBLOCK_bounds(2) [OF b] BBLOCK_bounds(2) [OF c] geometryD(2) [OF g] by linarith+
  have "1 \<noteq> BBLOCK b ?n" using BBLOCK_bounds(1) [OF b, of ?n] by linarith
  then have sb: "sb_of f' = sb_of f" using f' lt(1) by (intro sb_frame) (simp add: BBLOCK_def)
  have at: "block_at f' (BBLOCK c ?n) = (if c div BPB = b div BPB then bp else block_at f (BBLOCK c ?n))"
    using f' lt(2) BBLOCK_same [of c b ?n] by simp
  show ?thesis
  proof (cases "c div BPB = b div BPB")
    case True
    then have same: "BBLOCK c ?n = BBLOCK b ?n" using BBLOCK_same by blast
    have "c mod BPB < BPB" by simp
    with bp [of "c mod BPB"] P [of "c mod BPB"] True at sb div_mod_BPB_eq [OF True] same show ?thesis
      by (auto simp: used_def)
  next
    case False
    then have "c \<noteq> b" by auto
    with False at sb show ?thesis by (simp add: used_def)
  qed
qed

section \<open>Allocation\<close>

lemma balloc_from_Inr:
  assumes "balloc_from (sb_of f) b0 f = Inr (b, f')" "b0 mod BPB = 0"
  shows "b0 \<le> b \<and> b < sb_size (sb_of f) \<and> \<not> used f b \<and> (\<forall>c. b0 \<le> c \<longrightarrow> c < b \<longrightarrow> used f c) \<and>
    (let s = BBLOCK b (sb_ninodes (sb_of f))
     in andthen (log_block s (mark_used (b mod BPB) (block_at f s)) f) (bzero b) = Inr f')"
  using assms
proof (induction "sb_of f" b0 f rule: balloc_from.induct)
  case (1 b0 f)
  let ?sb = "sb_of f" and ?s = "BBLOCK b0 (sb_ninodes (sb_of f))"
  have in_row: "(b0 + i) mod BPB = i" "BBLOCK (b0 + i) n = BBLOCK b0 n" if "i < BPB" for i n
  proof -
    obtain q where "b0 = BPB * q" using 1(3) by (auto simp: mod_eq_0_iff_dvd)
    with that show "(b0 + i) mod BPB = i" "BBLOCK (b0 + i) n = BBLOCK b0 n" by (simp_all add: BBLOCK_def)
  qed
  have size: "b0 < sb_size ?sb" using 1(2) by (subst (asm) balloc_from.simps) (auto split: if_splits)
  show ?case
  proof (cases "first_free (block_at f ?s) (min BPB (sb_size ?sb - b0)) 0")
    case None
    have "balloc_from ?sb (b0 + BPB) f = Inr (b, f')"
      using 1(2) size None by (subst (asm) balloc_from.simps) (simp add: Let_def)
    moreover have "(b0 + BPB) mod BPB = 0" using 1(3) by simp
    ultimately have IH: "b0 + BPB \<le> b" "b < sb_size ?sb" "\<not> used f b" "\<And>c. b0 + BPB \<le> c \<Longrightarrow> c < b \<Longrightarrow> used f c"
      and eq: "let s = BBLOCK b (sb_ninodes (sb_of f))
        in andthen (log_block s (mark_used (b mod BPB) (block_at f s)) f) (bzero b) = Inr f'"
      using 1(1) [OF size refl refl None] by auto
    have "used f c" if "b0 \<le> c" "c < b0 + BPB" "c < sb_size ?sb" for c
    proof -
      have "c - b0 < BPB" "c = b0 + (c - b0)" using that by auto
      moreover have "\<not> bit_free (block_at f ?s) (c - b0)" using that by (intro first_free_None [OF None]) auto
      ultimately show ?thesis using in_row by (metis used_def)
    qed
    with IH eq show ?thesis by (auto simp: not_le [symmetric])
  next
    case (Some bi)
    note ff = first_free_Some [OF Some]
    then have bi: "bi < BPB" "b0 + bi < sb_size ?sb" by auto
    have "andthen (log_block ?s (mark_used bi (block_at f ?s)) f) (\<lambda>f1. andthen (bzero (b0 + bi) f1)
        (\<lambda>f2. Inr (b0 + bi, f2))) = Inr (b, f')"
      using 1(2) size Some by (subst (asm) balloc_from.simps) (simp add: Let_def)
    then have b: "b = b0 + bi" and f': "andthen (log_block ?s (mark_used bi (block_at f ?s)) f) (bzero b) = Inr f'"
      by (auto simp: andthen_Inr_iff)
    have "used f c" if "b0 \<le> c" "c < b" for c
    proof -
      have "c - b0 < BPB" "c = b0 + (c - b0)" "c - b0 < bi" using that b bi by auto
      with ff in_row show ?thesis by (metis le0 used_def)
    qed
    moreover have "\<not> used f b" using ff b bi(1) in_row by (simp add: used_def)
    ultimately show ?thesis using f' b bi in_row by (simp add: Let_def)
  qed
qed

lemma balloc_ok:
  assumes g: "geometry f" and r: "balloc f = Inr (b, f')" and below: "b < log_base f"
  shows "\<not> used f b" "\<forall>c < b. used f c" "data_start f \<le> b"
    "\<And>t. t \<le> log_base f \<Longrightarrow> data_start f \<le> t \<Longrightarrow> block_at f' t = ((block_at f)(b := replicate BSIZE NUL)) t"
    "\<And>t. t < BBLOCK 0 (sb_ninodes (sb_of f)) \<Longrightarrow> block_at f' t = block_at f t"
    "\<And>c. c < sb_size (sb_of f) \<Longrightarrow> used f' c \<longleftrightarrow> used f c \<or> c = b"
    "geometry f'" "sb_of f' = sb_of f" "log_base f' = log_base f" "icache f' = icache f"
    "dev_read f' = dev_read f" "dev_write f' = dev_write f"
proof -
  let ?n = "sb_ninodes (sb_of f)"
  let ?s = "BBLOCK b ?n"
  note G = geometryD [OF g]
  from balloc_from_Inr [of f 0 b f'] r have b: "b < sb_size (sb_of f)" "\<not> used f b" "\<forall>c < b. used f c"
    and eq: "andthen (log_block ?s (mark_used (b mod BPB) (block_at f ?s)) f) (bzero b) = Inr f'"
    by (auto simp: balloc_def Let_def)
  show "\<not> used f b" "\<forall>c < b. used f c" by fact+
  show ds: "data_start f \<le> b" using b G(4) by (meson not_le)
  have s: "?s < data_start f" "?s < log_base f" "1 < ?s" using BBLOCK_bounds [OF b(1)] G(2) by auto
  from eq obtain f1 where l1: "log_block ?s (mark_used (b mod BPB) (block_at f ?s)) f = Inr f1"
    and l2: "log_block b (replicate BSIZE NUL) f1 = Inr f'" by (auto simp: andthen_Inr_iff bzero_def)
  note A = log_block_Inr [OF l1] and B = log_block_Inr [OF l2]
  have at: "block_at f' t = ((block_at f)(?s := mark_used (b mod BPB) (block_at f ?s), b := replicate BSIZE NUL)) t"
    if "t \<le> log_base f" for t
    using A B that by simp
  show base: "log_base f' = log_base f" and "icache f' = icache f" "dev_read f' = dev_read f" "dev_write f' = dev_write f"
    using A B by simp_all
  show "block_at f' t = ((block_at f)(b := replicate BSIZE NUL)) t" if "t \<le> log_base f" "data_start f \<le> t" for t
    using at [OF that(1)] that(2) s by simp
  show "block_at f' t = block_at f t" if "t < BBLOCK 0 ?n" for t
  proof -
    have "BBLOCK 0 ?n \<le> ?s" by (simp add: BBLOCK_def)
    with at [of t] that s ds show ?thesis by simp
  qed
  have "block_at f' 1 = block_at f 1" using at [of 1] s ds by simp
  then show sb: "sb_of f' = sb_of f" by (rule sb_frame)
  have len: "length (block_at f ?s) = BSIZE" using G(1) s by simp
  have u1: "used f1 c \<longleftrightarrow> (if c = b then (if b mod BPB = b mod BPB then True else \<not> (\<not> used f b)) else used f c)"
    if "c < sb_size (sb_of f)" for c
  proof (rule used_upd [OF g b(1) that A(1), where P = "\<lambda>j x. if j = b mod BPB then True else \<not> x"])
    fix j :: nat assume "j < BPB"
    then show "(\<not> bit_free (mark_used (b mod BPB) (block_at f ?s)) j) \<longleftrightarrow>
        (if j = b mod BPB then True else \<not> bit_free (block_at f ?s) j)"
      using len by (subst bit_free_mark_used) auto
  qed auto
  show used': "used f' c \<longleftrightarrow> used f c \<or> c = b" if c: "c < sb_size (sb_of f)" for c
  proof -
    have cs: "BBLOCK c ?n < data_start f" "1 < BBLOCK c ?n" using BBLOCK_bounds [OF c] by auto
    have "block_at f1 1 = block_at f 1" using A(1) s by simp
    then have sb1: "sb_of f1 = sb_of f" by (rule sb_frame)
    have "block_at f' (BBLOCK c ?n) = block_at f1 (BBLOCK c ?n)"
      using B(1) A(2) cs G(2) ds by simp
    then have "used f' c = used f1 c" using sb sb1 by (simp add: used_def)
    with u1 [OF c] show ?thesis by auto
  qed
  have "data_start f' = data_start f" using sb by (simp add: data_start_def)
  moreover have "length (block_at f' t) = BSIZE" if "t < log_base f" for t
    using at [of t] that G(1) len by (auto split: if_splits)
  ultimately show "geometry f'"
    using G used' sb base by (auto simp: geometry_def)
qed

lemma balloc_first:
  assumes "balloc f = Inr (b, f')" "c < sb_size (sb_of f)" "\<not> used f c"
  shows "b \<le> c"
  using balloc_from_Inr [of f 0 b f'] assms by (auto simp: balloc_def not_le [symmetric])

lemma balloc_from_finds:
  assumes "b0 mod BPB = 0" "b0 \<le> c" "c < sb_size (sb_of f)" "\<not> used f c"
  shows "\<exists>b. b0 \<le> b \<and> b \<le> c \<and> balloc_from (sb_of f) b0 f =
    (let s = BBLOCK b (sb_ninodes (sb_of f))
     in andthen (log_block s (mark_used (b mod BPB) (block_at f s)) f) (\<lambda>f1. andthen (bzero b f1) (\<lambda>f2. Inr (b, f2))))"
  using assms
proof (induction "sb_size (sb_of f) - b0" arbitrary: b0 rule: less_induct)
  case less
  let ?sb = "sb_of f" and ?s = "BBLOCK b0 (sb_ninodes (sb_of f))"
  have size: "b0 < sb_size ?sb" using less.prems by simp
  have in_row: "(b0 + i) mod BPB = i" "BBLOCK (b0 + i) n = BBLOCK b0 n" if "i < BPB" for i n
  proof -
    obtain q where "b0 = BPB * q" using less.prems(1) by (auto simp: mod_eq_0_iff_dvd)
    with that show "(b0 + i) mod BPB = i" "BBLOCK (b0 + i) n = BBLOCK b0 n" by (simp_all add: BBLOCK_def)
  qed
  have free: "bit_free (block_at f ?s) (c - b0)" if "c - b0 < BPB"
  proof -
    have "b0 + (c - b0) = c" using less.prems(2) by simp
    with in_row [OF that] less.prems(4) show ?thesis by (simp add: used_def)
  qed
  show ?case
  proof (cases "first_free (block_at f ?s) (min BPB (sb_size ?sb - b0)) 0")
    case None
    have "\<not> c - b0 < BPB"
    proof
      assume lt: "c - b0 < BPB"
      then have "c - b0 < 0 + min BPB (sb_size ?sb - b0)" using less.prems by simp
      from first_free_None [OF None _ this] free [OF lt] show False by simp
    qed
    then have far: "b0 + BPB \<le> c" by simp
    have "balloc_from ?sb b0 f = balloc_from ?sb (b0 + BPB) f"
      using size None by (subst balloc_from.simps) (simp add: Let_def)
    moreover have "\<exists>b. b0 + BPB \<le> b \<and> b \<le> c \<and> balloc_from ?sb (b0 + BPB) f =
      (let s = BBLOCK b (sb_ninodes (sb_of f))
       in andthen (log_block s (mark_used (b mod BPB) (block_at f s)) f) (\<lambda>f1. andthen (bzero b f1) (\<lambda>f2. Inr (b, f2))))"
      using less.prems far size by (intro less.hyps) simp_all
    then obtain b where "b0 + BPB \<le> b" "b \<le> c" "balloc_from ?sb (b0 + BPB) f =
      (let s = BBLOCK b (sb_ninodes (sb_of f))
       in andthen (log_block s (mark_used (b mod BPB) (block_at f s)) f) (\<lambda>f1. andthen (bzero b f1) (\<lambda>f2. Inr (b, f2))))"
      by blast
    ultimately show ?thesis by (intro exI [of _ b]) simp
  next
    case (Some bi)
    note ff = first_free_Some [OF Some]
    have bi: "bi < BPB" using ff by simp
    have "b0 + bi \<le> c"
    proof (cases "c - b0 < BPB")
      case True
      with free ff less.prems(2) have "bi \<le> c - b0" by (meson le0 not_le)
      with less.prems(2) show ?thesis by simp
    next
      case False
      with bi less.prems(2) show ?thesis by simp
    qed
    moreover have "balloc_from ?sb b0 f =
        andthen (log_block ?s (mark_used bi (block_at f ?s)) f) (\<lambda>f1. andthen (bzero (b0 + bi) f1) (\<lambda>f2. Inr (b0 + bi, f2)))"
      using size Some by (subst balloc_from.simps) (simp add: Let_def)
    ultimately show ?thesis using in_row [OF bi] by (intro exI [of _ "b0 + bi"]) (simp add: Let_def)
  qed
qed

lemma balloc_total:
  assumes on: "log_on f" and c: "c < sb_size (sb_of f)" "\<not> used f c"
    and room: "int (card (in_log f)) + 1 < log_limit f"
  shows "\<exists>b f'. balloc f = Inr (b, f') \<and> b \<le> c \<and> log_on f' \<and> log_limit f' = log_limit f \<and>
    in_log f' = insert b (insert (BBLOCK b (sb_ninodes (sb_of f))) (in_log f))"
proof -
  obtain b where b: "b \<le> c" "balloc f =
    (let s = BBLOCK b (sb_ninodes (sb_of f))
     in andthen (log_block s (mark_used (b mod BPB) (block_at f s)) f) (\<lambda>f1. andthen (bzero b f1) (\<lambda>f2. Inr (b, f2))))"
    using balloc_from_finds [of 0 c f] c by (auto simp: balloc_def)
  let ?s = "BBLOCK b (sb_ninodes (sb_of f))"
  obtain f1 where f1: "log_block ?s (mark_used (b mod BPB) (block_at f ?s)) f = Inr f1" "log_on f1"
    "in_log f1 = insert ?s (in_log f)" "log_limit f1 = log_limit f"
    using log_block_total [OF on, of ?s] room by fastforce
  have "int (card (in_log f1)) < log_limit f1"
    using f1(3,4) room by (auto simp: card_insert_if)
  from log_block_total [OF f1(2) this, of b "replicate BSIZE NUL"]
  obtain f2 where "bzero b f1 = Inr f2" "log_on f2" "in_log f2 = insert b (in_log f1)" "log_limit f2 = log_limit f1"
    by (auto simp: bzero_def)
  with f1 b show ?thesis by (intro exI [of _ b] exI [of _ f2]) (simp add: Let_def)
qed

lemma bfree_ok:
  assumes g: "geometry f" and r: "bfree b f = Inr f'" and b: "b < sb_size (sb_of f)" "data_start f \<le> b"
  shows "used f b" "\<And>t. t \<le> log_base f \<Longrightarrow> data_start f \<le> t \<Longrightarrow> block_at f' t = block_at f t"
    "\<And>t. t < BBLOCK 0 (sb_ninodes (sb_of f)) \<Longrightarrow> block_at f' t = block_at f t"
    "\<And>c. c < sb_size (sb_of f) \<Longrightarrow> used f' c \<longleftrightarrow> used f c \<and> c \<noteq> b"
    "geometry f'" "sb_of f' = sb_of f" "log_base f' = log_base f" "icache f' = icache f"
    "dev_read f' = dev_read f" "dev_write f' = dev_write f"
proof -
  let ?n = "sb_ninodes (sb_of f)"
  let ?s = "BBLOCK b ?n"
  note G = geometryD [OF g]
  have s: "?s < data_start f" "?s < log_base f" "1 < ?s" using BBLOCK_bounds [OF b(1)] G(2) by auto
  from r show u: "used f b" by (auto simp: bfree_def used_def Let_def split: if_splits)
  from r have l: "log_block ?s (mark_free (b mod BPB) (block_at f ?s)) f = Inr f'"
    by (auto simp: bfree_def Let_def split: if_splits)
  note A = log_block_Inr [OF l]
  show base: "log_base f' = log_base f" and "icache f' = icache f" "dev_read f' = dev_read f" "dev_write f' = dev_write f"
    using A by simp_all
  show "block_at f' t = block_at f t" if "t \<le> log_base f" "data_start f \<le> t" for t using A(1) that s by simp
  show "block_at f' t = block_at f t" if "t < BBLOCK 0 ?n" for t
  proof -
    have "BBLOCK 0 ?n \<le> ?s" by (simp add: BBLOCK_def)
    with A(1) that s show ?thesis by simp
  qed
  have "block_at f' 1 = block_at f 1" using A(1) s by simp
  then show sb: "sb_of f' = sb_of f" by (rule sb_frame)
  have len: "length (block_at f ?s) = BSIZE" using G(1) s by simp
  have "used f' c \<longleftrightarrow> (if c = b then (if b mod BPB = b mod BPB then False else \<not> (\<not> used f b)) else used f c)"
    if "c < sb_size (sb_of f)" for c
  proof (rule used_upd [OF g b(1) that A(1), where P = "\<lambda>j x. if j = b mod BPB then False else \<not> x"])
    fix j :: nat assume "j < BPB"
    then show "(\<not> bit_free (mark_free (b mod BPB) (block_at f ?s)) j) \<longleftrightarrow>
        (if j = b mod BPB then False else \<not> bit_free (block_at f ?s) j)"
      using len by (subst bit_free_mark_free) auto
  qed auto
  then show used': "used f' c \<longleftrightarrow> used f c \<and> c \<noteq> b" if "c < sb_size (sb_of f)" for c using that by auto
  have "data_start f' = data_start f" using sb by (simp add: data_start_def)
  moreover have "length (block_at f' t) = BSIZE" if "t < log_base f" for t
    using A(1) that G(1) len by (auto split: if_splits)
  ultimately show "geometry f'" using G used' sb base b by (auto simp: geometry_def)
qed

section \<open>Properties\<close>


text \<open>An image of sixteen blocks: no inodes, the bitmap in block 3, the log in blocks 5 to 15.\<close>

definition small_blocks :: "char \<Rightarrow> nat \<Rightarrow> string" where
  "small_blocks bits = (\<lambda>_. zero_block)(1 := put_le 4 12 11 (put_le 4 0 16 zero_block), 3 := zero_block[0 := bits])"

definition small_fs :: "char \<Rightarrow> fs" where
  "small_fs bits = \<lparr>f_store = reboot (small_blocks bits),
     f_log = \<lparr>log_start = 5, log_size = 11, log_busy = True, lh_n = 0, lh_sector = replicate LOGSIZE 0\<rparr>,
     icache = [], dev_read = \<lambda>_. None, dev_write = \<lambda>_. None\<rparr>"

lemma length_zero_block [simp]: "length zero_block = BSIZE"
  by (simp add: zero_block_def)

lemma small_sb: "sb_size (sb_of (small_fs bits)) = 16" "sb_ninodes (sb_of (small_fs bits)) = 0"
proof -
  have "get_le 4 8 zero_block = 0" by (simp add: get_le_def zero_block_def le_val_zeros)
  then show "sb_size (sb_of (small_fs bits)) = 16" "sb_ninodes (sb_of (small_fs bits)) = 0"
    by (simp_all add: small_fs_def small_blocks_def readsb_def reboot_def Let_def get_put_le get_put_le_other)
qed

lemma small_bitmap: "block_at (small_fs bits) 3 = zero_block[0 := bits]"
  by (simp add: small_fs_def small_blocks_def reboot_def)

lemma small_used: "b < 8 \<Longrightarrow> used (small_fs bits) b \<longleftrightarrow> bit (of_char bits :: int) b"
  by (simp add: used_def small_sb BBLOCK_def small_bitmap bit_free_iff)

lemma small_geometry:
  assumes "\<And>b. b < 4 \<Longrightarrow> bit (of_char bits :: int) b"
  shows "geometry (small_fs bits)" "data_start (small_fs bits) = 4" "log_base (small_fs bits) = 5"
proof -
  show d: "data_start (small_fs bits) = 4" by (simp add: data_start_def small_sb BBLOCK_def)
  show "log_base (small_fs bits) = 5" by (simp add: small_fs_def)
  moreover have "length (block_at (small_fs bits) t) = BSIZE" for t
    by (simp add: small_fs_def small_blocks_def reboot_def)
  ultimately show "geometry (small_fs bits)" using d assms by (simp add: geometry_def small_sb small_used)
qed

lemma small_balloc:
  assumes "first_free (zero_block[0 := bits]) 16 0 = Some b"
  shows "\<exists>f'. balloc (small_fs bits) = Inr (b, f')"
proof -
  have "balloc_from (sb_of (small_fs bits)) 0 (small_fs bits) =
      andthen (log_block 3 (mark_used b (zero_block[0 := bits])) (small_fs bits)) (\<lambda>f1.
        andthen (bzero b f1) (\<lambda>f2. Inr (b, f2)))"
    using assms by (subst balloc_from.simps) (simp add: small_sb BBLOCK_def small_bitmap)
  moreover obtain f1 where "log_block 3 (mark_used b (zero_block[0 := bits])) (small_fs bits) = Inr f1"
    "lh_n (f_log f1) = 1" "log_size (f_log f1) = 11" "log_busy (f_log f1)"
    by (simp add: log_block_def log_write_def small_fs_def Let_def)
  moreover from this obtain f2 where "bzero b f1 = Inr f2"
    by (auto simp: bzero_def log_block_def log_write_def Let_def)
  ultimately show ?thesis by (simp add: balloc_def)
qed

lemma bit_15: "b < 4 \<Longrightarrow> bit (15 :: int) b" "\<not> bit (15 :: int) 4"
  by (auto simp: less_Suc_eq numeral_eq_Suc)

lemma bit_31: "b < 5 \<Longrightarrow> bit (31 :: int) b" "\<not> bit (31 :: int) 5"
  by (auto simp: less_Suc_eq numeral_eq_Suc)

lemma first_free_numeral:
  "first_free bp (numeral k) bi = (if bit_free bp bi then Some bi else first_free bp (pred_numeral k) (bi + 1))"
  by (simp add: numeral_eq_Suc)


text \<open>
  C34. \<^verbatim>\<open>balloc\<close> searches all \<^verbatim>\<open>sb.size\<close> blocks, and \<^verbatim>\<open>mkfs\<close> leaves the bits of the log blocks clear. Once every block
  in front of the log is in use, the next block that \<^verbatim>\<open>balloc\<close> hands to a file is the header of the log.
\<close>

theorem balloc_hands_out_log_header:
  assumes "balloc f = Inr (b, f')" "\<forall>c < log_base f. used f c" "\<not> used f (log_base f)" "log_base f < sb_size (sb_of f)"
  shows "b = log_base f"
proof -
  have "b \<le> log_base f" using balloc_first assms by blast
  moreover have "\<not> used f b" using balloc_from_Inr [of f 0 b f'] assms(1) by (simp add: balloc_def)
  ultimately show ?thesis using assms(2) by (meson le_neq_implies_less)
qed

theorem balloc_log_header_witness: "\<exists>f'. balloc (small_fs (CHR 0x1F)) = Inr (log_base (small_fs (CHR 0x1F)), f')"
proof -
  have bits: "(of_char (CHR 0x1F) :: int) = 31" by simp
  have "first_free (zero_block[0 := CHR 0x1F]) 16 0 = Some 5"
    by (simp add: first_free_numeral bit_free_iff)
  then obtain f' where r: "balloc (small_fs (CHR 0x1F)) = Inr (5, f')" using small_balloc by blast
  have base: "log_base (small_fs (CHR 0x1F)) = 5" by (simp add: small_fs_def)
  have "\<forall>c < 5. used (small_fs (CHR 0x1F)) c" "\<not> used (small_fs (CHR 0x1F)) 5"
    by (simp_all add: small_used bits bit_31)
  with balloc_hands_out_log_header [OF r] r base show ?thesis by (simp add: small_sb)
qed

end
