(* ===== verification/Inode.thy ===== *)
theory Inode
  imports Fs_Blocks
begin

text \<open>
  The inode layer of \<^verbatim>\<open>fs.c\<close>: the on-disk inodes, the inode cache and the contents of files. A
  \<^verbatim>\<open>struct inode *\<close> is the index of its entry in \<^verbatim>\<open>icache.inode\<close>.
\<close>

section \<open>On-disk inodes\<close>

abbreviation (input) NDIRECT :: nat where
  "NDIRECT \<equiv> 12"

abbreviation (input) NINDIRECT :: nat where
  "NINDIRECT \<equiv> 128"

abbreviation (input) MAXFILE :: nat where
  "MAXFILE \<equiv> 140"

abbreviation (input) NINODE :: nat where
  "NINODE \<equiv> 50"

abbreviation (input) NDEV :: nat where
  "NDEV \<equiv> 10"

abbreviation (input) ROOTDEV :: nat where
  "ROOTDEV \<equiv> 1"

abbreviation (input) T_DIR :: nat where
  "T_DIR \<equiv> 1"

abbreviation (input) T_FILE :: nat where
  "T_FILE \<equiv> 2"

abbreviation (input) T_DEV :: nat where
  "T_DEV \<equiv> 3"

definition IBLOCK :: "nat \<Rightarrow> nat" where
  "IBLOCK i = i div IPB + 2"

text \<open>A \<^verbatim>\<open>struct dinode\<close> has 64 bytes: four shorts, the size and thirteen addresses.\<close>

definition dinode_off :: "nat \<Rightarrow> nat" where
  "dinode_off i = 64 * (i mod IPB)"

fun put_words :: "nat \<Rightarrow> nat list \<Rightarrow> string \<Rightarrow> string" where
  "put_words off [] bp = bp"
| "put_words off (a # as) bp = put_words (off + 4) as (put_le 4 off a bp)"

definition get_words :: "nat \<Rightarrow> nat \<Rightarrow> string \<Rightarrow> nat list" where
  "get_words off n bp = map (\<lambda>i. get_le 4 (off + 4 * i) bp) [0..<n]"

definition load_dinode :: "nat \<Rightarrow> string \<Rightarrow> inode \<Rightarrow> inode" where
  "load_dinode off bp ip =
     ip\<lparr>itype := get_le 2 off bp, imajor := get_le 2 (off + 2) bp, iminor := get_le 2 (off + 4) bp,
        nlink := get_le 2 (off + 6) bp, isize := get_le 4 (off + 8) bp,
        addrs := get_words (off + 12) (NDIRECT + 1) bp\<rparr>"

definition store_dinode :: "nat \<Rightarrow> inode \<Rightarrow> string \<Rightarrow> string" where
  "store_dinode off ip bp =
     put_words (off + 12) (addrs ip)
       (put_le 4 (off + 8) (isize ip) (put_le 2 (off + 6) (nlink ip) (put_le 2 (off + 4) (iminor ip)
         (put_le 2 (off + 2) (imajor ip) (put_le 2 off (itype ip) bp)))))"

section \<open>The inode cache\<close>

abbreviation inode_at :: "fs \<Rightarrow> nat \<Rightarrow> inode" where
  "inode_at f i \<equiv> icache f ! i"

definition set_inode :: "nat \<Rightarrow> inode \<Rightarrow> fs \<Rightarrow> fs" where
  "set_inode i ip f = f\<lparr>icache := (icache f)[i := ip]\<rparr>"

text \<open>The loop of \<^verbatim>\<open>iget\<close>: the entry of the inode, or the first empty entry if there is one.\<close>

fun iget_scan :: "nat \<Rightarrow> nat \<Rightarrow> nat \<Rightarrow> nat option \<Rightarrow> inode list \<Rightarrow> nat + nat option" where
  "iget_scan dv n i slot [] = Inr slot"
| "iget_scan dv n i slot (ip # ips) =
     (if ref ip > 0 \<and> idev ip = dv \<and> inum ip = n then Inl i
      else iget_scan dv n (Suc i) (if slot = None \<and> ref ip = 0 then Some i else slot) ips)"

definition iget :: "nat \<Rightarrow> nat \<Rightarrow> fs \<Rightarrow> fault + (nat \<times> fs)" where
  "iget dv n f =
     (case iget_scan dv n 0 None (icache f) of
        Inl i \<Rightarrow> Inr (i, set_inode i ((inode_at f i)\<lparr>ref := ref (inode_at f i) + 1\<rparr>) f)
      | Inr None \<Rightarrow> Inl (Panic ''iget: no inodes'')
      | Inr (Some i) \<Rightarrow>
          Inr (i, set_inode i ((inode_at f i)\<lparr>idev := dv, inum := n, ref := 1, ibusy := False, ivalid := False\<rparr>) f))"

fun ialloc_from :: "nat \<Rightarrow> nat \<Rightarrow> nat \<Rightarrow> fs \<Rightarrow> fault + (nat \<times> fs)" where
  "ialloc_from 0 n ty f = Inl (Panic ''ialloc: no inodes'')"
| "ialloc_from (Suc k) n ty f =
     (let bp = block_at f (IBLOCK n); off = dinode_off n
      in if get_le 2 off bp = 0
        then andthen (log_block (IBLOCK n) (put_le 2 off ty (take off bp @ replicate 64 NUL @ drop (off + 64) bp)) f)
               (iget ROOTDEV n)
        else ialloc_from k (Suc n) ty f)"

definition ialloc :: "nat \<Rightarrow> fs \<Rightarrow> fault + (nat \<times> fs)" where
  "ialloc ty f = ialloc_from (sb_ninodes (sb_of f) - 1) 1 ty f"

definition iupdate :: "nat \<Rightarrow> fs \<Rightarrow> fault + fs" where
  "iupdate i f =
     (let ip = inode_at f i; s = IBLOCK (inum ip)
      in log_block s (store_dinode (dinode_off (inum ip)) ip (block_at f s)) f)"

definition idup :: "nat \<Rightarrow> fs \<Rightarrow> fs" where
  "idup i f = set_inode i ((inode_at f i)\<lparr>ref := ref (inode_at f i) + 1\<rparr>) f"

definition ilock :: "nat \<Rightarrow> fs \<Rightarrow> fault + fs" where
  "ilock i f =
     (let ip = inode_at f i
      in if ref ip < 1 then Inl (Panic ''ilock'')
        else if ibusy ip then Inl (Sleeps ''inode'')
        else if ivalid ip then Inr (set_inode i (ip\<lparr>ibusy := True\<rparr>) f)
        else let ip1 = load_dinode (dinode_off (inum ip)) (block_at f (IBLOCK (inum ip))) (ip\<lparr>ibusy := True, ivalid := True\<rparr>)
          in if itype ip1 = 0 then Inl (Panic ''ilock: no type'') else Inr (set_inode i ip1 f))"

definition iunlock :: "nat \<Rightarrow> fs \<Rightarrow> fault + fs" where
  "iunlock i f =
     (let ip = inode_at f i
      in if \<not> ibusy ip \<or> ref ip < 1 then Inl (Panic ''iunlock'') else Inr (set_inode i (ip\<lparr>ibusy := False\<rparr>) f))"

section \<open>The blocks of a file\<close>

definition bmap :: "nat \<Rightarrow> nat \<Rightarrow> fs \<Rightarrow> fault + (nat \<times> fs)" where
  "bmap i bn f =
     (if bn < NDIRECT
      then if addrs (inode_at f i) ! bn = 0
        then andthen (balloc f) (\<lambda>(a, f1).
               Inr (a, set_inode i ((inode_at f1 i)\<lparr>addrs := (addrs (inode_at f1 i))[bn := a]\<rparr>) f1))
        else Inr (addrs (inode_at f i) ! bn, f)
      else if bn - NDIRECT < NINDIRECT
      then andthen
        (if addrs (inode_at f i) ! NDIRECT = 0
         then andthen (balloc f) (\<lambda>(a, f1).
                Inr (a, set_inode i ((inode_at f1 i)\<lparr>addrs := (addrs (inode_at f1 i))[NDIRECT := a]\<rparr>) f1))
         else Inr (addrs (inode_at f i) ! NDIRECT, f))
        (\<lambda>(ind, f1).
           let a = get_le 4 (4 * (bn - NDIRECT)) (block_at f1 ind)
           in if a = 0
             then andthen (balloc f1) (\<lambda>(a1, f2).
                    andthen (log_block ind (put_le 4 (4 * (bn - NDIRECT)) a1 (block_at f1 ind)) f2) (\<lambda>f3. Inr (a1, f3)))
             else Inr (a, f1))
      else Inl (Panic ''bmap: out of range''))"

fun itrunc_direct :: "nat \<Rightarrow> nat \<Rightarrow> nat \<Rightarrow> fs \<Rightarrow> fault + fs" where
  "itrunc_direct 0 j i f = Inr f"
| "itrunc_direct (Suc k) j i f =
     (if addrs (inode_at f i) ! j \<noteq> 0
      then andthen (bfree (addrs (inode_at f i) ! j) f) (\<lambda>f1.
             itrunc_direct k (Suc j) i (set_inode i ((inode_at f1 i)\<lparr>addrs := (addrs (inode_at f1 i))[j := 0]\<rparr>) f1))
      else itrunc_direct k (Suc j) i f)"

fun itrunc_indirect :: "nat list \<Rightarrow> fs \<Rightarrow> fault + fs" where
  "itrunc_indirect [] f = Inr f"
| "itrunc_indirect (a # as) f = andthen (if a \<noteq> 0 then bfree a f else Inr f) (itrunc_indirect as)"

definition itrunc :: "nat \<Rightarrow> fs \<Rightarrow> fault + fs" where
  "itrunc i f =
     andthen (itrunc_direct NDIRECT 0 i f) (\<lambda>f1.
     andthen (let ind = addrs (inode_at f1 i) ! NDIRECT
       in if ind \<noteq> 0
         then andthen (itrunc_indirect (get_words 0 NINDIRECT (block_at f1 ind)) f1) (\<lambda>f2.
              andthen (bfree ind f2) (\<lambda>f3.
              Inr (set_inode i ((inode_at f3 i)\<lparr>addrs := (addrs (inode_at f3 i))[NDIRECT := 0]\<rparr>) f3)))
         else Inr f1) (\<lambda>f4.
     iupdate i (set_inode i ((inode_at f4 i)\<lparr>isize := 0\<rparr>) f4)))"

definition iput :: "nat \<Rightarrow> fs \<Rightarrow> fault + fs" where
  "iput i f =
     andthen
       (let ip = inode_at f i
        in if ref ip = 1 \<and> ivalid ip \<and> nlink ip = 0
          then if ibusy ip then Inl (Panic ''iput busy'')
            else andthen (itrunc i (set_inode i (ip\<lparr>ibusy := True\<rparr>) f)) (\<lambda>f1.
                 andthen (iupdate i (set_inode i ((inode_at f1 i)\<lparr>itype := 0\<rparr>) f1)) (\<lambda>f2.
                 Inr (set_inode i ((inode_at f2 i)\<lparr>ibusy := False, ivalid := False\<rparr>) f2)))
          else Inr f)
       (\<lambda>f3. Inr (set_inode i ((inode_at f3 i)\<lparr>ref := ref (inode_at f3 i) - 1\<rparr>) f3))"

definition iunlockput :: "nat \<Rightarrow> fs \<Rightarrow> fault + fs" where
  "iunlockput i f = andthen (iunlock i f) (iput i)"

record stat =
  st_type :: nat
  st_dev :: nat
  st_ino :: nat
  st_nlink :: nat
  st_size :: nat

definition stati :: "nat \<Rightarrow> fs \<Rightarrow> stat" where
  "stati i f = (let ip = inode_at f i in
     \<lparr>st_type = itype ip, st_dev = idev ip, st_ino = inum ip, st_nlink = nlink ip, st_size = isize ip\<rparr>)"

section \<open>Reading and writing\<close>

lemma andthen_cong [fundef_cong]:
  "r = r' \<Longrightarrow> (\<And>x. r' = Inr x \<Longrightarrow> g x = g' x) \<Longrightarrow> andthen r g = andthen r' g'"
  by (cases r') auto

text \<open>The number of bytes that one round of the loops moves.\<close>

definition chunk :: "nat \<Rightarrow> nat \<Rightarrow> nat" where
  "chunk off n = min n (BSIZE - off mod BSIZE)"

lemma chunk_pos [simp]: "0 < n \<Longrightarrow> 0 < chunk off n"
  by (simp add: chunk_def)

lemma chunk_le: "chunk off n \<le> n" "off mod BSIZE + chunk off n \<le> BSIZE"
proof -
  have "off mod BSIZE < BSIZE" by simp
  then show "chunk off n \<le> n" "off mod BSIZE + chunk off n \<le> BSIZE" by (auto simp: chunk_def)
qed

function readi_loop :: "nat \<Rightarrow> nat \<Rightarrow> nat \<Rightarrow> fs \<Rightarrow> fault + (string \<times> fs)" where
  "readi_loop i off n f =
     (if n = 0 then Inr ([], f)
      else andthen (bmap i (off div BSIZE) f) (\<lambda>(a, f1).
        let m = chunk off n; bytes = take m (drop (off mod BSIZE) (block_at f1 a))
        in andthen (readi_loop i (off + m) (n - m) f1) (\<lambda>(rest, f2). Inr (bytes @ rest, f2))))"
  by pat_completeness auto
termination
  by (relation "measure (\<lambda>(i, off, n, f). n)") auto

declare readi_loop.simps [simp del]

text \<open>The result of \<^verbatim>\<open>readi\<close> is the return value and the bytes put at \<^verbatim>\<open>dst\<close>.\<close>

definition readi :: "nat \<Rightarrow> nat \<Rightarrow> nat \<Rightarrow> fs \<Rightarrow> fault + (int \<times> string \<times> fs)" where
  "readi i off n f =
     (let ip = inode_at f i
      in if itype ip = T_DEV
        then if imajor ip \<ge> 2 ^ 15 \<or> imajor ip \<ge> NDEV then Inr (- 1, [], f)
          else (case dev_read f (imajor ip) of None \<Rightarrow> Inr (- 1, [], f) | Some d \<Rightarrow> (let (r, bytes) = d n in Inr (r, bytes, f)))
        else if off > isize ip \<or> (off + n) mod 2 ^ 32 < off then Inr (- 1, [], f)
        else let n1 = (if off + n > isize ip then isize ip - off else n)
          in andthen (readi_loop i off n1 f) (\<lambda>(bytes, f1). Inr (int n1, bytes, f1)))"

function writei_loop :: "nat \<Rightarrow> string \<Rightarrow> nat \<Rightarrow> fs \<Rightarrow> fault + fs" where
  "writei_loop i src off f =
     (if src = [] then Inr f
      else andthen (bmap i (off div BSIZE) f) (\<lambda>(a, f1).
        let m = chunk off (length src); bp = block_at f1 a
        in andthen (log_block a (take (off mod BSIZE) bp @ take m src @ drop (off mod BSIZE + m) bp) f1) (\<lambda>f2.
           writei_loop i (drop m src) (off + m) f2)))"
  by pat_completeness auto
termination
  by (relation "measure (\<lambda>(i, src, off, f). length src)") auto

declare writei_loop.simps [simp del]

definition writei :: "nat \<Rightarrow> string \<Rightarrow> nat \<Rightarrow> fs \<Rightarrow> fault + (int \<times> fs)" where
  "writei i src off f =
     (let ip = inode_at f i; n = length src
      in if itype ip = T_DEV
        then if imajor ip \<ge> 2 ^ 15 \<or> imajor ip \<ge> NDEV then Inr (- 1, f)
          else (case dev_write f (imajor ip) of None \<Rightarrow> Inr (- 1, f) | Some d \<Rightarrow> Inr (d src, f))
        else if off > isize ip \<or> (off + n) mod 2 ^ 32 < off then Inr (- 1, f)
        else if (off + n) mod 2 ^ 32 > MAXFILE * BSIZE then Inr (- 1, f)
        else andthen (writei_loop i src off f) (\<lambda>f1.
          if n > 0 \<and> off + n > isize (inode_at f1 i)
          then andthen (iupdate i (set_inode i ((inode_at f1 i)\<lparr>isize := off + n\<rparr>) f1)) (\<lambda>f2. Inr (int n, f2))
          else Inr (int n, f1)))"

end
