(* ===== verification/File_Content.thy ===== *)
theory File_Content
  imports Inode
begin

text \<open>
  The contents of a file as a sequence of bytes, and what the inode layer does to it: the block map of an
  inode, its growth by \<^verbatim>\<open>bmap\<close>, and the loops of \<^verbatim>\<open>readi\<close> and \<^verbatim>\<open>writei\<close>.
\<close>

section \<open>The block map of an inode\<close>

text \<open>
  The blocks of an inode by position: 0 to 11 the direct blocks, 12 the indirect block, 13 to 140 the entries
  of the indirect block. Zero is no block.
\<close>

definition pos :: "fs \<Rightarrow> nat \<Rightarrow> nat \<Rightarrow> nat" where
  "pos f i k =
     (if k \<le> NDIRECT then addrs (inode_at f i) ! k
      else if addrs (inode_at f i) ! NDIRECT = 0 then 0
      else get_le 4 (4 * (k - (NDIRECT + 1))) (block_at f (addrs (inode_at f i) ! NDIRECT)))"

definition bpos :: "nat \<Rightarrow> nat" where
  "bpos bn = (if bn < NDIRECT then bn else bn + 1)"

text \<open>The blocks of the inode lie between the bitmap and the log, are in use, and are pairwise different.\<close>

definition inode_ok :: "fs \<Rightarrow> nat \<Rightarrow> bool" where
  "inode_ok f i \<longleftrightarrow> i < length (icache f) \<and> length (addrs (inode_at f i)) = NDIRECT + 1 \<and>
     (\<forall>k \<le> MAXFILE. pos f i k \<noteq> 0 \<longrightarrow> data_start f \<le> pos f i k \<and> pos f i k < log_base f \<and> used f (pos f i k)) \<and>
     (\<forall>k \<le> MAXFILE. \<forall>k' \<le> MAXFILE. pos f i k = pos f i k' \<longrightarrow> pos f i k \<noteq> 0 \<longrightarrow> k = k')"

lemma inode_okD:
  assumes "inode_ok f i"
  shows "i < length (icache f)" "length (addrs (inode_at f i)) = NDIRECT + 1"
    "\<And>k. k \<le> MAXFILE \<Longrightarrow> pos f i k \<noteq> 0 \<Longrightarrow> data_start f \<le> pos f i k"
    "\<And>k. k \<le> MAXFILE \<Longrightarrow> pos f i k \<noteq> 0 \<Longrightarrow> pos f i k < log_base f"
    "\<And>k. k \<le> MAXFILE \<Longrightarrow> pos f i k \<noteq> 0 \<Longrightarrow> used f (pos f i k)"
    "\<And>k k'. k \<le> MAXFILE \<Longrightarrow> k' \<le> MAXFILE \<Longrightarrow> pos f i k = pos f i k' \<Longrightarrow> pos f i k \<noteq> 0 \<Longrightarrow> k = k'"
  using assms unfolding inode_ok_def by auto

text \<open>The contents of block \<open>bn\<close> of the file; a block that is not there reads as zeroes.\<close>

definition fblock :: "fs \<Rightarrow> nat \<Rightarrow> nat \<Rightarrow> string" where
  "fblock f i bn = (if pos f i (bpos bn) = 0 then replicate BSIZE NUL else block_at f (pos f i (bpos bn)))"

definition fbyte :: "fs \<Rightarrow> nat \<Rightarrow> nat \<Rightarrow> char" where
  "fbyte f i p = fblock f i (p div BSIZE) ! (p mod BSIZE)"

text \<open>The free blocks in front of the log.\<close>

definition room :: "fs \<Rightarrow> nat" where
  "room f = card {b. b < log_base f \<and> \<not> used f b}"

lemma set_inode_simps [simp]:
  "f_store (set_inode i ip f) = f_store f" "f_log (set_inode i ip f) = f_log f"
  "icache (set_inode i ip f) = (icache f)[i := ip]" "dev_read (set_inode i ip f) = dev_read f"
  "dev_write (set_inode i ip f) = dev_write f"
  by (simp_all add: set_inode_def)

lemma geometry_set_inode [simp]:
  "geometry (set_inode i ip f) = geometry f" "used (set_inode i ip f) = used f"
  "data_start (set_inode i ip f) = data_start f" "room (set_inode i ip f) = room f"
  by (simp_all add: geometry_def used_def data_start_def room_def fun_eq_iff)

text \<open>The parts of the state that a step on the blocks of inode \<open>i\<close> keeps.\<close>

definition same_else :: "nat \<Rightarrow> fs \<Rightarrow> fs \<Rightarrow> bool" where
  "same_else i f f' \<longleftrightarrow> geometry f' \<and> log_base f' = log_base f \<and> sb_of f' = sb_of f \<and>
     dev_read f' = dev_read f \<and> dev_write f' = dev_write f \<and> length (icache f') = length (icache f) \<and>
     (\<forall>j. j \<noteq> i \<longrightarrow> inode_at f' j = inode_at f j) \<and>
     (\<exists>as. inode_at f' i = (inode_at f i)\<lparr>addrs := as\<rparr>) \<and>
     (\<forall>t < BBLOCK 0 (sb_ninodes (sb_of f)). block_at f' t = block_at f t) \<and>
     (\<forall>t < log_base f. data_start f \<le> t \<longrightarrow> used f t \<longrightarrow> used f' t)"

lemma same_elseD:
  assumes "same_else i f f'"
  shows "geometry f'" "log_base f' = log_base f" "sb_of f' = sb_of f" "data_start f' = data_start f"
    "length (icache f') = length (icache f)" "\<And>j. j \<noteq> i \<Longrightarrow> inode_at f' j = inode_at f j"
    "\<exists>as. inode_at f' i = (inode_at f i)\<lparr>addrs := as\<rparr>"
    "\<And>t. t < BBLOCK 0 (sb_ninodes (sb_of f)) \<Longrightarrow> block_at f' t = block_at f t"
    "\<And>t. t < log_base f \<Longrightarrow> data_start f \<le> t \<Longrightarrow> used f t \<Longrightarrow> used f' t"
    "dev_read f' = dev_read f" "dev_write f' = dev_write f"
  using assms by (auto simp: same_else_def data_start_def)

lemma same_else_refl: "geometry f \<Longrightarrow> same_else i f f"
  by (auto simp: same_else_def intro: exI [of _ "addrs (inode_at f i)"])

lemma same_else_trans:
  assumes "same_else i f g" "same_else i g h"
  shows "same_else i f h"
proof -
  note A = same_elseD [OF assms(1)] and B = same_elseD [OF assms(2)]
  obtain as bs where "inode_at g i = (inode_at f i)\<lparr>addrs := as\<rparr>" "inode_at h i = (inode_at g i)\<lparr>addrs := bs\<rparr>"
    using A(7) B(7) by blast
  then have "\<exists>as. inode_at h i = (inode_at f i)\<lparr>addrs := as\<rparr>" by auto
  with A B show ?thesis unfolding same_else_def by simp
qed

section \<open>Steps on the blocks of a file\<close>

lemma data_start_pos: "3 < data_start f"
  by (simp add: data_start_def BBLOCK_def)

lemma used_frame:
  assumes "\<And>t. t < data_start f \<Longrightarrow> block_at f' t = block_at f t" "c < sb_size (sb_of f)"
  shows "sb_of f' = sb_of f" "used f' c \<longleftrightarrow> used f c"
proof -
  show sb: "sb_of f' = sb_of f" using assms(1) [of 1] data_start_pos [of f] by (intro sb_frame) simp
  show "used f' c \<longleftrightarrow> used f c" using assms(1) [OF BBLOCK_bounds(2) [OF assms(2)]] sb by (simp add: used_def)
qed

lemma log_data_block:
  assumes g: "geometry f" and l: "log_block s v f = Inr f'" and s: "data_start f \<le> s" "s < log_base f"
    and v: "length v = BSIZE"
  shows "geometry f'" "sb_of f' = sb_of f" "data_start f' = data_start f" "\<And>c. c < sb_size (sb_of f) \<Longrightarrow> used f' c = used f c"
    "room f' = room f" "\<And>t. t \<le> log_base f \<Longrightarrow> block_at f' t = ((block_at f)(s := v)) t"
proof -
  note A = log_block_Inr [OF l] and G = geometryD [OF g]
  show at: "block_at f' t = ((block_at f)(s := v)) t" if "t \<le> log_base f" for t using A(1) that by simp
  have low: "block_at f' t = block_at f t" if "t < data_start f" for t using at [of t] that s by simp
  have pos: "0 < sb_size (sb_of f)" using G(3) s(2) by simp
  show sb: "sb_of f' = sb_of f" by (rule used_frame(1) [OF low pos])
  then show ds: "data_start f' = data_start f" by (simp add: data_start_def)
  show used': "used f' c = used f c" if "c < sb_size (sb_of f)" for c by (rule used_frame(2) [OF low that])
  have "{b. b < log_base f' \<and> \<not> used f' b} = {b. b < log_base f \<and> \<not> used f b}"
    using used' A(2) G(3) by auto
  then show "room f' = room f" by (simp add: room_def)
  show "geometry f'"
    using at used' G A(2) sb ds v by (auto simp: geometry_def)
qed

lemma room_balloc:
  assumes "geometry f" "balloc f = Inr (b, f')" "b < log_base f"
  shows "room f = Suc (room f')"
proof -
  note B = balloc_ok [OF assms]
  have "{c. c < log_base f' \<and> \<not> used f' c} = {c. c < log_base f \<and> \<not> used f c} - {b}"
    using B(6,9) geometryD(3) [OF assms(1)] by auto
  moreover have "finite {c. c < log_base f \<and> \<not> used f c}" "b \<in> {c. c < log_base f \<and> \<not> used f c}"
    using B(1) assms(3) by simp_all
  note card_Suc_Diff1 [OF this]
  ultimately show ?thesis by (simp only: room_def)
qed

text \<open>
  A file that is being changed: the disk and the blocks of the inode are in order, a transaction is running, and the
  free bitmap is one block, as \<^verbatim>\<open>mkfs\<close> lays it out.
\<close>

definition bitmap :: "fs \<Rightarrow> nat" where
  "bitmap f = BBLOCK 0 (sb_ninodes (sb_of f))"

definition ready :: "fs \<Rightarrow> nat \<Rightarrow> bool" where
  "ready f i \<longleftrightarrow> geometry f \<and> inode_ok f i \<and> log_on f \<and> 0 \<notin> in_log f \<and> sb_size (sb_of f) \<le> BPB"

lemma readyD:
  assumes "ready f i"
  shows "geometry f" "inode_ok f i" "log_on f" "0 \<notin> in_log f" "sb_size (sb_of f) \<le> BPB"
  using assms by (auto simp: ready_def)

lemma BBLOCK_bitmap: "sb_size (sb_of f) \<le> BPB \<Longrightarrow> b < sb_size (sb_of f) \<Longrightarrow> BBLOCK b (sb_ninodes (sb_of f)) = bitmap f"
  by (simp add: bitmap_def BBLOCK_def)

text \<open>What the transaction has logged, with the blocks that every further write of the file may log once.\<close>

definition weight :: "fs \<Rightarrow> nat \<Rightarrow> nat" where
  "weight f i = card (insert (bitmap f) (insert (pos f i NDIRECT) (in_log f)))"

text \<open>
  The blocks of inode \<open>i\<close> have grown by one: block \<open>a\<close> was free, holds zeroes, and is now at position \<open>k\<close>. No block
  in use has changed but the indirect block.
\<close>

definition grown :: "nat \<Rightarrow> nat \<Rightarrow> nat \<Rightarrow> fs \<Rightarrow> fs \<Rightarrow> bool" where
  "grown i k a f f' \<longleftrightarrow> same_else i f f' \<and> k \<le> MAXFILE \<and> pos f i k = 0 \<and> pos f' i k = a \<and> a \<noteq> 0 \<and>
     (\<forall>k' \<le> MAXFILE. k' \<noteq> k \<longrightarrow> pos f' i k' = pos f i k') \<and>
     data_start f \<le> a \<and> a < log_base f \<and> \<not> used f a \<and> used f' a \<and> block_at f' a = replicate BSIZE NUL \<and>
     length (addrs (inode_at f' i)) = NDIRECT + 1 \<and>
     (\<forall>t < log_base f. data_start f \<le> t \<longrightarrow> t \<noteq> a \<longrightarrow> t \<noteq> pos f i NDIRECT \<longrightarrow> block_at f' t = block_at f t)"

lemma grownD:
  assumes "grown i k a f f'"
  shows "same_else i f f'" "k \<le> MAXFILE" "pos f i k = 0" "pos f' i k = a" "a \<noteq> 0"
    "\<And>k'. k' \<le> MAXFILE \<Longrightarrow> k' \<noteq> k \<Longrightarrow> pos f' i k' = pos f i k'"
    "data_start f \<le> a" "a < log_base f" "\<not> used f a" "used f' a" "block_at f' a = replicate BSIZE NUL"
    "length (addrs (inode_at f' i)) = NDIRECT + 1"
    "\<And>t. t < log_base f \<Longrightarrow> data_start f \<le> t \<Longrightarrow> t \<noteq> a \<Longrightarrow> t \<noteq> pos f i NDIRECT \<Longrightarrow> block_at f' t = block_at f t"
  using assms unfolding grown_def by auto

lemma bpos_le: "bn < MAXFILE \<Longrightarrow> bpos bn \<le> MAXFILE" "bpos bn \<noteq> NDIRECT"
  by (auto simp: bpos_def)

lemma grown_inode_ok:
  assumes g: "grown i k a f f'" and ok: "inode_ok f i"
  shows "inode_ok f' i"
proof -
  note G = grownD [OF g] and I = inode_okD [OF ok] and S = same_elseD [OF grownD(1) [OF g]]
  have "data_start f' \<le> pos f' i k' \<and> pos f' i k' < log_base f' \<and> used f' (pos f' i k')"
    if "k' \<le> MAXFILE" "pos f' i k' \<noteq> 0" for k'
    using that G I(3,4,5) S(2,4,9) by (cases "k' = k") auto
  moreover have "k1 = k2" if "k1 \<le> MAXFILE" "k2 \<le> MAXFILE" "pos f' i k1 = pos f' i k2" "pos f' i k1 \<noteq> 0" for k1 k2
  proof -
    have "pos f i k' \<noteq> a" if "k' \<le> MAXFILE" for k' using I(5) [OF that] G(5,9) by metis
    with that G(2,4,6) I(6) [of k1 k2] show ?thesis by metis
  qed
  ultimately show ?thesis using I(1) G(12) S(5) by (auto simp: inode_ok_def)
qed

lemma grown_fblock:
  assumes g: "grown i k a f f'" and ok: "inode_ok f i" and bn: "bn < MAXFILE"
  shows "fblock f' i bn = fblock f i bn"
proof -
  note G = grownD [OF g] and I = inode_okD [OF ok]
  let ?k = "bpos bn"
  have k: "?k \<le> MAXFILE" using bpos_le(1) [OF bn] .
  show ?thesis
  proof (cases "?k = k")
    case True
    with G(3,4,5,11) show ?thesis by (simp add: fblock_def)
  next
    case False
    then have p: "pos f' i ?k = pos f i ?k" using G(6) k by simp
    show ?thesis
    proof (cases "pos f i ?k = 0")
      case True
      with p show ?thesis by (simp add: fblock_def)
    next
      case False
      have "pos f i ?k \<noteq> pos f i NDIRECT" using I(6) [OF k, of NDIRECT] False bpos_le(2) by auto
      moreover have "pos f i ?k \<noteq> a" using I(5) [OF k False] G(9) by auto
      ultimately have "block_at f' (pos f i ?k) = block_at f (pos f i ?k)"
        using G(13) I(3,4) [OF k False] by simp
      with p False show ?thesis by (simp add: fblock_def)
    qed
  qed
qed

end
