(* ===== verification/Shell.thy ===== *)
theory Shell
  imports C_Strings
begin

text \<open>
  The shell \<^verbatim>\<open>sh.c\<close>: the tokenizer, the recursive-descent parser, the termination of the parsed words in the
  line buffer, and the execution of a command as the tree of system calls it makes.

  The parser moves a pointer \<^verbatim>\<open>*ps\<close> towards the end \<^verbatim>\<open>es\<close> of the line. The pointer is modelled by the rest of
  the line from it on; the position of a rest \<open>r\<close> in a line of \<open>n\<close> characters is \<open>n - length r\<close>. The byte at
  \<^verbatim>\<open>es\<close> is the NUL that ends the line, so an empty rest reads as NUL.
\<close>

section \<open>Tokens\<close>

definition whitespace :: string where
  "whitespace = [CHR '' '', CHR 0x09, CHR 0x0D, NEWLINE, CHR 0x0B]"

definition symbols :: string where
  "symbols = ''<|>&;()''"

definition is_space :: "char \<Rightarrow> bool" where
  "is_space c \<longleftrightarrow> c \<in> set whitespace"

definition word_char :: "char \<Rightarrow> bool" where
  "word_char c \<longleftrightarrow> c \<notin> set whitespace \<and> c \<notin> set symbols"

text \<open>The token, the rests from its first character and from behind it, and the new pointer.\<close>

definition gettoken :: "string \<Rightarrow> char \<times> string \<times> string \<times> string" where
  "gettoken ps =
     (let s = dropWhile is_space ps
      in case s of
           [] \<Rightarrow> (NUL, s, s, s)
         | c # t \<Rightarrow>
             if c \<in> set ''|();&<'' then (c, s, t, dropWhile is_space t)
             else if c = CHR ''>''
             then if t \<noteq> [] \<and> hd t = CHR ''>'' then (CHR ''+'', s, tl t, dropWhile is_space (tl t))
               else (c, s, t, dropWhile is_space t)
             else let e = dropWhile word_char s in (CHR ''a'', s, e, dropWhile is_space e))"

definition peek :: "string \<Rightarrow> string \<Rightarrow> bool \<times> string" where
  "peek toks ps = (let s = dropWhile is_space ps in (s \<noteq> [] \<and> hd s \<in> set toks, s))"

lemma gettoken_advances:
  assumes "gettoken ps = (tok, q, eq, ps')" "tok \<noteq> NUL"
  shows "length ps' < length ps"
proof -
  let ?s = "dropWhile is_space ps"
  have le: "length ?s \<le> length ps" by (rule length_dropWhile_le)
  have ns: "?s = c # t \<Longrightarrow> \<not> is_space c" for c t by (metis hd_dropWhile list.distinct(1) list.sel(1))
  show ?thesis
  proof (cases ?s)
    case Nil
    with assms show ?thesis by (simp add: gettoken_def)
  next
    case (Cons c t)
    have sp: "length (dropWhile is_space u) \<le> length u" for u by (rule length_dropWhile_le)
    consider "ps' = dropWhile is_space t" | "t \<noteq> []" "ps' = dropWhile is_space (tl t)"
      | "word_char c" "ps' = dropWhile is_space (dropWhile word_char t)"
      using assms(1) Cons ns [OF Cons]
      by (auto simp: gettoken_def Let_def is_space_def word_char_def symbols_def split: if_splits)
    then show ?thesis
    proof cases
      case 1
      with sp [of t] le Cons show ?thesis by simp
    next
      case 2
      with sp [of "tl t"] le Cons show ?thesis by (cases t) auto
    next
      case 3
      with sp [of "dropWhile word_char t"] length_dropWhile_le [of word_char t] le Cons show ?thesis by simp
    qed
  qed
qed

lemma gettoken_shorter:
  assumes "gettoken ps = (tok, q, eq, ps')"
  shows "length ps' \<le> length ps"
proof (cases "tok = NUL")
  case True
  with assms show ?thesis
    by (auto simp: gettoken_def Let_def length_dropWhile_le split: list.splits if_splits)
next
  case False
  with gettoken_advances [OF assms] show ?thesis by simp
qed

lemma peek_shorter: "peek toks ps = (b, s) \<Longrightarrow> length s \<le> length ps"
  by (auto simp: peek_def Let_def length_dropWhile_le)

lemma peek_True_token:
  assumes "peek toks ps = (True, s)" "gettoken s = (tok, q, eq, s')"
  shows "tok \<noteq> NUL"
proof -
  from assms(1) have s: "s \<noteq> []" "s = dropWhile is_space ps" by (auto simp: peek_def Let_def)
  then have "dropWhile is_space s = s" by simp
  with assms(2) s(1) show ?thesis by (cases s) (auto simp: gettoken_def Let_def split: if_splits)
qed

section \<open>Commands\<close>

text \<open>
  A word of the line: the positions of its first character and of the character behind it. The parser builds
  commands over spans; the same type over strings is what they mean.
\<close>

type_synonym span = "nat \<times> nat"

datatype 'w cmd =
    EXEC "'w list"
  | REDIR "'w cmd" 'w nat nat
  | PIPE "'w cmd" "'w cmd"
  | LIST "'w cmd" "'w cmd"
  | BACK "'w cmd"

text \<open>The functions that allocate a node and fill it in.\<close>

abbreviation (input) execcmd :: "'w cmd" where
  "execcmd \<equiv> EXEC []"

abbreviation (input) redircmd :: "'w cmd \<Rightarrow> 'w \<Rightarrow> nat \<Rightarrow> nat \<Rightarrow> 'w cmd" where
  "redircmd subcmd file mode fd \<equiv> REDIR subcmd file mode fd"

abbreviation (input) pipecmd :: "'w cmd \<Rightarrow> 'w cmd \<Rightarrow> 'w cmd" where
  "pipecmd left right \<equiv> PIPE left right"

abbreviation (input) listcmd :: "'w cmd \<Rightarrow> 'w cmd \<Rightarrow> 'w cmd" where
  "listcmd left right \<equiv> LIST left right"

abbreviation (input) backcmd :: "'w cmd \<Rightarrow> 'w cmd" where
  "backcmd subcmd \<equiv> BACK subcmd"

abbreviation (input) MAXARGS :: nat where
  "MAXARGS \<equiv> 10"

abbreviation (input) O_RDONLY :: nat where
  "O_RDONLY \<equiv> 0"

text \<open>\<^verbatim>\<open>O_WRONLY|O_CREATE\<close>\<close>

abbreviation (input) O_WRCREATE :: nat where
  "O_WRCREATE \<equiv> 0x201"

definition span_of :: "nat \<Rightarrow> string \<Rightarrow> string \<Rightarrow> span" where
  "span_of n q eq = (n - length q, n - length eq)"

text \<open>
  \<^verbatim>\<open>parseexec\<close> keeps a pointer to the \<^verbatim>\<open>execcmd\<close> inside the redirections that \<^verbatim>\<open>parseredirs\<close> wraps around it;
  an argument goes into that innermost command.
\<close>

primrec add_arg :: "'w \<Rightarrow> 'w cmd \<Rightarrow> 'w cmd" where
  "add_arg a (EXEC as) = EXEC (as @ [a])"
| "add_arg a (REDIR c f mo fd) = REDIR (add_arg a c) f mo fd"
| "add_arg a (PIPE l r) = PIPE l r"
| "add_arg a (LIST l r) = LIST l r"
| "add_arg a (BACK c) = BACK c"

section \<open>The parser\<close>

definition redir_for :: "char \<Rightarrow> 'w cmd \<Rightarrow> 'w \<Rightarrow> 'w cmd" where
  "redir_for tok c f =
     (if tok = CHR ''<'' then redircmd c f O_RDONLY 0
      else if tok = CHR ''>'' \<or> tok = CHR ''+'' then redircmd c f O_WRCREATE 1
      else c)"

lemma redirs_advance:
  "(True, s) = peek toks ps \<Longrightarrow> (tok, q0, eq0, s1) = gettoken s \<Longrightarrow> (tok2, q, eq, s2) = gettoken s1 \<Longrightarrow> length s2 < length ps"
  using peek_shorter [of toks ps True s] peek_True_token [of toks ps s tok q0 eq0 s1] gettoken_advances [of s tok q0 eq0 s1]
    gettoken_shorter [of s1 tok2 q eq s2]
  by simp

function parseredirs :: "nat \<Rightarrow> span cmd \<Rightarrow> string \<Rightarrow> fault + (span cmd \<times> string)" where
  "parseredirs n c ps =
     (case peek ''<>'' ps of (b, s) \<Rightarrow>
        if b
        then case gettoken s of (tok, _, _, s1) \<Rightarrow>
             case gettoken s1 of (tok2, q, eq, s2) \<Rightarrow>
               if tok2 \<noteq> CHR ''a'' then Inl (Panic ''missing file for redirection'')
               else parseredirs n (redir_for tok c (span_of n q eq)) s2
        else Inr (c, s))"
  by pat_completeness auto
termination
  by (relation "measure (\<lambda>(n, c, ps). length ps)") (auto dest: redirs_advance)

declare parseredirs.simps [simp del]

function parseargs :: "nat \<Rightarrow> nat \<Rightarrow> span cmd \<Rightarrow> string \<Rightarrow> fault + (span cmd \<times> string)" where
  "parseargs n argc ret ps =
     (case peek ''|)&;'' ps of (b, s) \<Rightarrow>
        if b then Inr (ret, s)
        else case gettoken s of (tok, q, eq, s1) \<Rightarrow>
          if tok = NUL then Inr (ret, s1)
          else if tok \<noteq> CHR ''a'' then Inl (Panic ''syntax'')
          else if argc + 1 \<ge> MAXARGS then Inl (Panic ''too many args'')
          else case parseredirs n (add_arg (span_of n q eq) ret) s1 of
               Inl f \<Rightarrow> Inl f
             | Inr (ret1, s2) \<Rightarrow> parseargs n (argc + 1) ret1 s2)"
  by pat_completeness auto
termination
  by (relation "measure (\<lambda>(n, argc, ret, ps). MAXARGS - argc)") auto

declare parseargs.simps [simp del]

text \<open>The loop of \<^verbatim>\<open>parseline\<close> over \<^verbatim>\<open>&\<close>.\<close>

lemma back_advance:
  "(True, s) = peek toks ps \<Longrightarrow> (tok, q, eq, s1) = gettoken s \<Longrightarrow> length s1 < length ps"
  using peek_shorter [of toks ps True s] peek_True_token [of toks ps s tok q eq s1] gettoken_advances [of s tok q eq s1]
  by simp

function parseback :: "span cmd \<Rightarrow> string \<Rightarrow> span cmd \<times> string" where
  "parseback c ps =
     (case peek ''&'' ps of (b, s) \<Rightarrow>
        if b then case gettoken s of (_, _, _, s1) \<Rightarrow> parseback (backcmd c) s1 else (c, s))"
  by pat_completeness auto
termination
  by (relation "measure (\<lambda>(c, ps). length ps)") (auto dest: back_advance)

declare parseback.simps [simp del]

text \<open>
  The four mutually recursive functions. Every call has one unit of fuel less than its caller; \<open>None\<close> is a
  parser that ran out of it, which \<^verbatim>\<open>parsecmd\<close> never does.
\<close>

definition pthen :: "(fault + 'a) option \<Rightarrow> ('a \<Rightarrow> (fault + 'b) option) \<Rightarrow> (fault + 'b) option" where
  "pthen r f = (case r of None \<Rightarrow> None | Some (Inl e) \<Rightarrow> Some (Inl e) | Some (Inr x) \<Rightarrow> f x)"

fun parseline :: "nat \<Rightarrow> nat \<Rightarrow> string \<Rightarrow> (fault + (span cmd \<times> string)) option"
  and parsepipe :: "nat \<Rightarrow> nat \<Rightarrow> string \<Rightarrow> (fault + (span cmd \<times> string)) option"
  and parseexec :: "nat \<Rightarrow> nat \<Rightarrow> string \<Rightarrow> (fault + (span cmd \<times> string)) option"
  and parseblock :: "nat \<Rightarrow> nat \<Rightarrow> string \<Rightarrow> (fault + (span cmd \<times> string)) option" where
  "parseline 0 n ps = None"
| "parseline (Suc k) n ps =
     pthen (parsepipe k n ps) (\<lambda>(c, s).
       case parseback c s of (c1, s1) \<Rightarrow>
       case peek '';'' s1 of (b, s2) \<Rightarrow>
         if b
         then case gettoken s2 of (_, _, _, s3) \<Rightarrow>
           pthen (parseline k n s3) (\<lambda>(c2, s4). Some (Inr (listcmd c1 c2, s4)))
         else Some (Inr (c1, s2)))"
| "parsepipe 0 n ps = None"
| "parsepipe (Suc k) n ps =
     pthen (parseexec k n ps) (\<lambda>(c, s).
       case peek ''|'' s of (b, s1) \<Rightarrow>
         if b
         then case gettoken s1 of (_, _, _, s2) \<Rightarrow>
           pthen (parsepipe k n s2) (\<lambda>(c2, s3). Some (Inr (pipecmd c c2, s3)))
         else Some (Inr (c, s1)))"
| "parseexec 0 n ps = None"
| "parseexec (Suc k) n ps =
     (case peek ''('' ps of (b, s) \<Rightarrow>
        if b then parseblock k n s
        else case parseredirs n execcmd s of
             Inl e \<Rightarrow> Some (Inl e)
           | Inr (ret, s1) \<Rightarrow> Some (parseargs n 0 ret s1))"
| "parseblock 0 n ps = None"
| "parseblock (Suc k) n ps =
     (case peek ''('' ps of (b, s) \<Rightarrow>
        if \<not> b then Some (Inl (Panic ''parseblock''))
        else case gettoken s of (_, _, _, s1) \<Rightarrow>
          pthen (parseline k n s1) (\<lambda>(c, s2).
            case peek '')'' s2 of (b2, s3) \<Rightarrow>
              if \<not> b2 then Some (Inl (Panic ''syntax - missing )''))
              else case gettoken s3 of (_, _, _, s4) \<Rightarrow> Some (parseredirs n c s4)))"

text \<open>\<^verbatim>\<open>nulterminate\<close> writes a NUL behind every word, in the buffer that holds the line.\<close>

primrec nulterminate :: "span cmd \<Rightarrow> buffer \<Rightarrow> buffer" where
  "nulterminate (EXEC as) buf = foldl (\<lambda>b a. b[snd a := NUL]) buf as"
| "nulterminate (REDIR c f mo fd) buf = (nulterminate c buf)[snd f := NUL]"
| "nulterminate (PIPE l r) buf = nulterminate r (nulterminate l buf)"
| "nulterminate (LIST l r) buf = nulterminate r (nulterminate l buf)"
| "nulterminate (BACK c) buf = nulterminate c buf"

section \<open>System calls\<close>

text \<open>The system calls of a shell process in their order; \<open>Fork\<close> holds those of the child.\<close>

datatype sys =
    Exec string "string list"
  | Close nat
  | Open string nat
  | Dup nat
  | MkPipe
  | Fork "sys list"
  | Wait
  | Chdir string
  | Print string
  | Exit

text \<open>What the kernel answers. \<open>exec_ok\<close> is whether \<^verbatim>\<open>exec\<close> replaces the process; \<open>pipe_fds\<close> are the two descriptors.\<close>

record os =
  exec_ok :: "string \<Rightarrow> bool"
  open_ok :: "string \<Rightarrow> nat \<Rightarrow> bool"
  fork_ok :: bool
  pipe_fds :: "(nat \<times> nat) option"
  chdir_ok :: "string \<Rightarrow> bool"

definition sh_panic :: "string \<Rightarrow> sys list" where
  "sh_panic s = [Print (s @ [NEWLINE]), Exit]"

text \<open>\<^verbatim>\<open>if(fork1() == 0) child; parent\<close>\<close>

definition fork1 :: "os \<Rightarrow> sys list \<Rightarrow> sys list \<Rightarrow> sys list" where
  "fork1 k child parent = (if fork_ok k then Fork child # parent else sh_panic ''fork'')"

definition word_at :: "buffer \<Rightarrow> span \<Rightarrow> string" where
  "word_at buf a = cstr (drop (fst a) buf)"

primrec runcmd :: "os \<Rightarrow> buffer \<Rightarrow> span cmd \<Rightarrow> sys list" where
  "runcmd k buf (EXEC as) =
     (if as = [] then [Exit]
      else let argv = map (word_at buf) as
        in Exec (hd argv) argv #
           (if exec_ok k (hd argv) then [] else [Print (''exec '' @ hd argv @ '' failed'' @ [NEWLINE]), Exit]))"
| "runcmd k buf (REDIR c f mo fd) =
     Close fd # Open (word_at buf f) mo #
     (if open_ok k (word_at buf f) mo then runcmd k buf c
      else [Print (''open '' @ word_at buf f @ '' failed'' @ [NEWLINE]), Exit])"
| "runcmd k buf (LIST l r) = fork1 k (runcmd k buf l) (Wait # runcmd k buf r)"
| "runcmd k buf (PIPE l r) =
     MkPipe #
     (case pipe_fds k of
        None \<Rightarrow> sh_panic ''pipe''
      | Some (p0, p1) \<Rightarrow>
          fork1 k (Close 1 # Dup p1 # Close p0 # Close p1 # runcmd k buf l)
            (fork1 k (Close 0 # Dup p0 # Close p0 # Close p1 # runcmd k buf r)
              [Close p0, Close p1, Wait, Wait, Exit]))"
| "runcmd k buf (BACK c) = fork1 k (runcmd k buf c) [Exit]"

text \<open>
  \<^verbatim>\<open>parsecmd\<close>: the parsed command and the buffer with its words ended, or the messages of the shell that gives up.
  Between two consumed characters at most three calls nest, so four units of fuel for each character are enough.
\<close>

definition parsecmd :: "string \<Rightarrow> (sys list + (span cmd \<times> buffer)) option" where
  "parsecmd s =
     (case parseline (4 * length s + 4) (length s) s of
        None \<Rightarrow> None
      | Some (Inl f) \<Rightarrow> Some (Inl (case f of Panic m \<Rightarrow> sh_panic m | _ \<Rightarrow> []))
      | Some (Inr (c, s1)) \<Rightarrow>
          (case peek [] s1 of (_, s2) \<Rightarrow>
             if s2 \<noteq> [] then Some (Inl (Print (''leftovers: '' @ s2 @ [NEWLINE]) # sh_panic ''syntax''))
             else Some (Inr (c, nulterminate c (s @ [NUL])))))"

section \<open>The command loop\<close>

text \<open>The line that \<^verbatim>\<open>getcmd\<close> puts into the zeroed buffer of 100 bytes, and the input that is left; \<open>None\<close> at the end.\<close>

definition getcmd :: "string \<Rightarrow> (string \<times> string) option" where
  "getcmd inp = (case gets 100 inp of (line, rest) \<Rightarrow> if cstr line = [] then None else Some (cstr line, rest))"

lemma getcmd_shorter: "getcmd inp = Some (line, rest) \<Longrightarrow> length rest < length inp"
proof -
  assume "getcmd inp = Some (line, rest)"
  then obtain l where g: "gets 100 inp = (l, rest)" and "cstr l \<noteq> []" by (cases "gets 100 inp") (auto simp: getcmd_def split: if_splits)
  then have "l \<noteq> []" by (auto simp: cstr_def)
  moreover have "inp = l @ rest" using gets_split [OF g] by simp
  ultimately show ?thesis by (cases l) simp_all
qed

text \<open>The shell opens the console until three descriptors are in use; the list is what the calls of \<^verbatim>\<open>open\<close> return.\<close>

fun open_console :: "int list \<Rightarrow> sys list" where
  "open_console [] = []"
| "open_console (fd # fds) =
     Open ''console'' 2 # (if fd < 0 then [] else if fd \<ge> 3 then [Close (nat fd)] else open_console fds)"

definition child_of :: "os \<Rightarrow> string \<Rightarrow> sys list" where
  "child_of k line =
     (case parsecmd line of None \<Rightarrow> [] | Some (Inl msgs) \<Rightarrow> msgs | Some (Inr (c, buf)) \<Rightarrow> runcmd k buf c)"

function sh_loop :: "os \<Rightarrow> string \<Rightarrow> sys list" where
  "sh_loop k inp =
     Print ''$ '' #
     (case getcmd inp of
        None \<Rightarrow> [Exit]
      | Some (line, rest) \<Rightarrow>
          if take 3 line = ''cd ''
          then let dir = drop 3 (butlast line)
            in Chdir dir # (if chdir_ok k dir then [] else [Print (''cannot cd '' @ dir @ [NEWLINE])]) @ sh_loop k rest
          else fork1 k (child_of k line) (Wait # sh_loop k rest))"
  by pat_completeness auto
termination
  by (relation "measure (\<lambda>(k, inp). length inp)") (auto dest: getcmd_shorter)

declare sh_loop.simps [simp del]

definition sh_main :: "os \<Rightarrow> int list \<Rightarrow> string \<Rightarrow> sys list" where
  "sh_main k fds inp = open_console fds @ sh_loop k inp"

end
