(* ===== verification/Shell_Parse.thy ===== *)
theory Shell_Parse
  imports Shell
begin

text \<open>
  The shell's parser: it returns for every line, every word of its result is a maximal run of word characters
  that \<^verbatim>\<open>nulterminate\<close> leaves intact, and it reads back what a printer of commands writes.
\<close>

section \<open>What the parser returns\<close>

lemma pthen_simps [simp]:
  "pthen None f = None" "pthen (Some (Inl e)) f = Some (Inl e)" "pthen (Some (Inr x)) f = f x"
  by (simp_all add: pthen_def)

text \<open>A span of the line that is a whole word.\<close>

definition whole_word :: "string \<Rightarrow> span \<Rightarrow> bool" where
  "whole_word line a \<longleftrightarrow> fst a < snd a \<and> snd a \<le> length line \<and>
     (\<forall>i. fst a \<le> i \<longrightarrow> i < snd a \<longrightarrow> word_char (line ! i)) \<and> (snd a < length line \<longrightarrow> \<not> word_char (line ! snd a))"

definition words :: "string \<Rightarrow> span set" where
  "words line = {a. whole_word line a}"

text \<open>The result of a parsing function at the rest \<open>ps\<close> of the line.\<close>

definition parsed :: "string \<Rightarrow> string \<Rightarrow> span cmd \<times> string \<Rightarrow> bool" where
  "parsed line ps = (\<lambda>(c, s). suffix s line \<and> length s \<le> length ps \<and> set_cmd c \<subseteq> words line)"

lemma suffix_dropWhile_trans: "suffix ps line \<Longrightarrow> suffix (dropWhile P ps) line"
  using suffix_dropWhile suffix_order.trans by blast

lemma suffix_tl: "suffix (c # t) line \<Longrightarrow> suffix t line"
  by (auto simp: suffix_def)

lemma peek_suffix: "peek toks ps = (b, s) \<Longrightarrow> suffix ps line \<Longrightarrow> suffix s line \<and> length s \<le> length ps"
  using peek_shorter by (auto simp: peek_def Let_def intro: suffix_dropWhile_trans)

lemma gettoken_suffix:
  assumes "gettoken ps = (tok, q, eq, s)" "suffix ps line"
  shows "suffix s line \<and> length s \<le> length ps"
proof -
  have d: "suffix (dropWhile is_space ps) line" by (rule suffix_dropWhile_trans [OF assms(2)])
  have "suffix s line"
  proof (cases "dropWhile is_space ps")
    case Nil
    with assms(1) d show ?thesis by (auto simp: gettoken_def Let_def)
  next
    case (Cons c t)
    have t: "suffix t line" using d Cons suffix_tl by metis
    then have "t \<noteq> [] \<Longrightarrow> suffix (tl t) line" using suffix_tl by (metis list.collapse)
    with assms(1) Cons d t show ?thesis
      by (auto simp: gettoken_def Let_def intro!: suffix_dropWhile_trans split: if_splits)
  qed
  with gettoken_shorter [OF assms(1)] show ?thesis by simp
qed

lemma suffix_nth: "suffix q line \<Longrightarrow> i < length q \<Longrightarrow> line ! (length line - length q + i) = q ! i"
  by (auto simp: suffix_def nth_append)

lemma gettoken_word:
  assumes "gettoken ps = (CHR ''a'', q, eq, s)" "suffix ps line"
  shows "span_of (length line) q eq \<in> words line"
proof -
  let ?s = "dropWhile is_space ps"
  have ss: "suffix ?s line" by (rule suffix_dropWhile_trans [OF assms(2)])
  from assms(1) obtain c t where ct: "?s = c # t" and q: "q = ?s" and eq: "eq = dropWhile word_char q" and c: "word_char c"
  proof (cases ?s)
    case Nil
    with assms(1) show thesis by (simp add: gettoken_def)
  next
    case (Cons c t)
    have "\<not> is_space c" using Cons hd_dropWhile [of is_space ps] by simp
    with assms(1) Cons have "q = c # t" "eq = dropWhile word_char (c # t)" "word_char c"
      unfolding gettoken_def Let_def is_space_def word_char_def symbols_def
      by (simp_all split: if_splits)
    with Cons show thesis by (intro that) simp_all
  qed
  let ?w = "takeWhile word_char q" and ?n = "length line"
  have len: "length q \<le> ?n" using ss q suffix_length_le by blast
  have qs: "q = ?w @ eq" using eq by simp
  then have lq: "length q = length ?w + length eq" by (metis length_append)
  have "?w \<noteq> []" using q ct c by simp
  then have "0 < length ?w" by simp
  then have lt: "?n - length q < ?n - length eq" using lq len by linarith
  have word: "word_char (line ! i)" if "?n - length q \<le> i" "i < ?n - length eq" for i
  proof -
    let ?j = "i - (?n - length q)"
    have j: "?j < length ?w" using that lq len by simp
    then have "line ! i = q ! ?j" using suffix_nth [of q line ?j] ss q that lq len by simp
    also have "\<dots> = ?w ! ?j" using j by (simp add: takeWhile_nth)
    finally show ?thesis using nth_mem [OF j] set_takeWhileD by metis
  qed
  have "\<not> word_char (line ! (?n - length eq))" if "?n - length eq < ?n"
  proof -
    have ne: "eq \<noteq> []" using that by auto
    have "suffix eq line" using qs ss q by (metis suffixI suffix_order.trans)
    then have "line ! (?n - length eq) = eq ! 0" using suffix_nth [of eq line 0] ne by simp
    also have "\<dots> = hd eq" using ne by (simp add: hd_conv_nth)
    finally show ?thesis using ne eq hd_dropWhile by metis
  qed
  with word lt show ?thesis by (simp add: words_def whole_word_def span_of_def)
qed

lemma set_cmd_add_arg: "set_cmd (add_arg a c) \<subseteq> insert a (set_cmd c)"
  by (induction c) auto

lemma set_cmd_redir_for: "set_cmd (redir_for tok c a) \<subseteq> insert a (set_cmd c)"
  by (auto simp: redir_for_def)

text \<open>The equations of the loops, by what \<^verbatim>\<open>peek\<close> and \<^verbatim>\<open>gettoken\<close> find.\<close>

lemma parseredirs_stop: "peek ''<>'' ps = (False, s) \<Longrightarrow> parseredirs n c ps = Inr (c, s)"
  by (subst parseredirs.simps) simp

lemma parseredirs_step:
  "peek ''<>'' ps = (True, s) \<Longrightarrow> gettoken s = (tok, q0, eq0, s1) \<Longrightarrow> gettoken s1 = (tok2, q, eq, s2) \<Longrightarrow>
    parseredirs n c ps = (if tok2 \<noteq> CHR ''a'' then Inl (Panic ''missing file for redirection'')
      else parseredirs n (redir_for tok c (span_of n q eq)) s2)"
  by (subst parseredirs.simps) simp

lemma parseredirs_parsed:
  assumes "parseredirs (length line) c ps = Inr r" "suffix ps line" "set_cmd c \<subseteq> words line"
  shows "parsed line ps r"
  using assms
proof (induction "length ps" arbitrary: c ps rule: less_induct)
  case less
  let ?n = "length line"
  obtain b s where p: "peek ''<>'' ps = (b, s)" by fastforce
  have s: "suffix s line" "length s \<le> length ps" using peek_suffix [OF p less.prems(2)] by auto
  show ?case
  proof (cases b)
    case False
    with less.prems p s show ?thesis by (auto simp: parsed_def parseredirs_stop)
  next
    case True
    obtain tok q0 eq0 s1 where t1: "gettoken s = (tok, q0, eq0, s1)" by (cases "gettoken s")
    obtain tok2 q eq s2 where t2: "gettoken s1 = (tok2, q, eq, s2)" by (cases "gettoken s1")
    have s1: "suffix s1 line" using gettoken_suffix [OF t1 s(1)] by auto
    have s2: "suffix s2 line" using gettoken_suffix [OF t2 s1] by auto
    have pT: "peek ''<>'' ps = (True, s)" using p True by simp
    note step = parseredirs_step [OF pT t1 t2, of ?n c]
    then have a: "tok2 = CHR ''a''" using less.prems(1) by (auto split: if_splits)
    have "span_of ?n q eq \<in> words line" using gettoken_word [OF t2 [unfolded a] s1] .
    then have w: "set_cmd (redir_for tok c (span_of ?n q eq)) \<subseteq> words line"
      using less.prems(3) set_cmd_redir_for [of tok c "span_of ?n q eq"] by auto
    have lt: "length s2 < length ps" by (rule redirs_advance [OF pT [symmetric] t1 [symmetric] t2 [symmetric]])
    have "parseredirs ?n (redir_for tok c (span_of ?n q eq)) s2 = Inr r" using step a less.prems(1) by simp
    from less.hyps [OF lt this s2 w] lt show ?thesis by (auto simp: parsed_def)
  qed
qed

lemma parseargs_equation:
  "peek ''|)&;'' ps = (b, s) \<Longrightarrow> gettoken s = (tok, q, eq, s1) \<Longrightarrow>
    parseargs n argc ret ps =
      (if b then Inr (ret, s) else if tok = NUL then Inr (ret, s1) else if tok \<noteq> CHR ''a'' then Inl (Panic ''syntax'')
       else if argc + 1 \<ge> MAXARGS then Inl (Panic ''too many args'')
       else case parseredirs n (add_arg (span_of n q eq) ret) s1 of
            Inl f \<Rightarrow> Inl f | Inr (ret1, s2) \<Rightarrow> parseargs n (argc + 1) ret1 s2)"
  by (subst parseargs.simps) simp

lemma parseargs_parsed:
  assumes "parseargs (length line) argc ret ps = Inr r" "suffix ps line" "set_cmd ret \<subseteq> words line"
  shows "parsed line ps r"
  using assms
proof (induction "MAXARGS - argc" arbitrary: argc ret ps rule: less_induct)
  case less
  let ?n = "length line"
  obtain b s where p: "peek ''|)&;'' ps = (b, s)" by fastforce
  have s: "suffix s line" "length s \<le> length ps" using peek_suffix [OF p less.prems(2)] by auto
  obtain tok q eq s1 where t: "gettoken s = (tok, q, eq, s1)" by (cases "gettoken s")
  have s1: "suffix s1 line" "length s1 \<le> length s" using gettoken_suffix [OF t s(1)] by auto
  note e = trans [OF parseargs_equation [OF p t, of ?n argc ret, symmetric] less.prems(1)]
  show ?case
  proof (cases "b \<or> tok = NUL")
    case True
    with less.prems(3) e s s1 show ?thesis by (auto simp: parsed_def split: if_splits)
  next
    case False
    with e have tok: "tok = CHR ''a''" and argc: "argc + 1 < MAXARGS" by (auto split: if_splits)
    with False e obtain ret1 s2 where
      r: "parseredirs ?n (add_arg (span_of ?n q eq) ret) s1 = Inr (ret1, s2)" and
      rec: "parseargs ?n (argc + 1) ret1 s2 = Inr r"
      by (cases "parseredirs ?n (add_arg (span_of ?n q eq) ret) s1") auto
    have "span_of ?n q eq \<in> words line" using gettoken_word [OF t [unfolded tok] s(1)] .
    then have "set_cmd (add_arg (span_of ?n q eq) ret) \<subseteq> words line"
      using less.prems(3) set_cmd_add_arg [of "span_of ?n q eq" ret] by auto
    from parseredirs_parsed [OF r s1(1) this] have p2: "suffix s2 line" "length s2 \<le> length s1"
      "set_cmd ret1 \<subseteq> words line" by (auto simp: parsed_def)
    have "MAXARGS - (argc + 1) < MAXARGS - argc" using argc by simp
    from less.hyps [OF this rec p2(1,3)] p2(2) s(2) s1(2) show ?thesis by (auto simp: parsed_def)
  qed
qed

lemma parseback_stop: "peek ''&'' ps = (False, s) \<Longrightarrow> parseback c ps = (c, s)"
  by (subst parseback.simps) simp

lemma parseback_step:
  "peek ''&'' ps = (True, s) \<Longrightarrow> gettoken s = (tok, q, eq, s1) \<Longrightarrow> parseback c ps = parseback (BACK c) s1"
  by (subst parseback.simps) simp

lemma parseback_parsed:
  assumes "suffix ps line" "set_cmd c \<subseteq> words line"
  shows "parsed line ps (parseback c ps)"
  using assms
proof (induction "length ps" arbitrary: c ps rule: less_induct)
  case less
  obtain b s where p: "peek ''&'' ps = (b, s)" by fastforce
  have s: "suffix s line" "length s \<le> length ps" using peek_suffix [OF p less.prems(1)] by auto
  show ?case
  proof (cases b)
    case False
    with less.prems p s show ?thesis by (simp add: parsed_def parseback_stop)
  next
    case True
    obtain tok q eq s1 where t: "gettoken s = (tok, q, eq, s1)" by (cases "gettoken s")
    have s1: "suffix s1 line" using gettoken_suffix [OF t s(1)] by auto
    have pT: "peek ''&'' ps = (True, s)" using p True by simp
    have lt: "length s1 < length ps" by (rule back_advance [OF pT [symmetric] t [symmetric]])
    have "parsed line s1 (parseback (BACK c) s1)" using less.hyps [OF lt s1] less.prems(2) by simp
    then show ?thesis using lt parseback_step [OF _ t, of ps c] p True by (auto simp: parsed_def)
  qed
qed

section \<open>The parser returns\<close>

text \<open>A result of the recursive functions: there is one, and if it is a command it is well formed.\<close>

definition returns :: "string \<Rightarrow> string \<Rightarrow> (fault + (span cmd \<times> string)) option \<Rightarrow> bool" where
  "returns line ps r \<longleftrightarrow> (\<exists>x. r = Some x \<and> (\<forall>e. x = Inl e \<longrightarrow> (\<exists>m. e = Panic m)) \<and> (\<forall>cs. x = Inr cs \<longrightarrow> parsed line ps cs))"

lemma returns_Inr [simp]: "returns line ps (Some (Inr cs)) \<longleftrightarrow> parsed line ps cs"
  by (cases cs) (auto simp: returns_def)

lemma returns_Panic [simp]: "returns line ps (Some (Inl (Panic m)))"
  by (simp add: returns_def)

lemma returns_pthen:
  assumes "returns line ps r" "\<And>c s. r = Some (Inr (c, s)) \<Longrightarrow> parsed line ps (c, s) \<Longrightarrow> returns line ps' (f (c, s))"
  shows "returns line ps' (pthen r f)"
  using assms by (auto simp: returns_def pthen_def split: sum.splits)

lemma returns_mono: "returns line s r \<Longrightarrow> length s \<le> length ps \<Longrightarrow> returns line ps r"
  by (auto simp: returns_def parsed_def)

lemma parseredirs_Panic: "parseredirs n c ps = Inl e \<Longrightarrow> \<exists>m. e = Panic m"
proof (induction "length ps" arbitrary: c ps rule: less_induct)
  case less
  obtain b s where p: "peek ''<>'' ps = (b, s)" by fastforce
  show ?case
  proof (cases b)
    case False
    with less.prems p show ?thesis by (simp add: parseredirs_stop)
  next
    case True
    obtain tok q0 eq0 s1 where t1: "gettoken s = (tok, q0, eq0, s1)" by (cases "gettoken s")
    obtain tok2 q eq s2 where t2: "gettoken s1 = (tok2, q, eq, s2)" by (cases "gettoken s1")
    have pT: "peek ''<>'' ps = (True, s)" using p True by simp
    have lt: "length s2 < length ps" by (rule redirs_advance [OF pT [symmetric] t1 [symmetric] t2 [symmetric]])
    note e = trans [OF parseredirs_step [OF pT t1 t2, of n c, symmetric] less.prems]
    with less.hyps [OF lt] show ?thesis by (auto split: if_splits)
  qed
qed

lemma parseargs_Panic: "parseargs n argc ret ps = Inl e \<Longrightarrow> \<exists>m. e = Panic m"
proof (induction "MAXARGS - argc" arbitrary: argc ret ps rule: less_induct)
  case less
  obtain b s where p: "peek ''|)&;'' ps = (b, s)" by fastforce
  obtain tok q eq s1 where t: "gettoken s = (tok, q, eq, s1)" by (cases "gettoken s")
  note e = trans [OF parseargs_equation [OF p t, of n argc ret, symmetric] less.prems]
  show ?case
  proof (cases "parseredirs n (add_arg (span_of n q eq) ret) s1")
    case (Inl f)
    with e parseredirs_Panic [OF Inl] show ?thesis by (auto split: if_splits)
  next
    case (Inr r)
    obtain ret1 s2 where r: "r = (ret1, s2)" by (cases r)
    have "argc + 1 < MAXARGS \<Longrightarrow> MAXARGS - (argc + 1) < MAXARGS - argc" by simp
    with e Inr r less.hyps [of "argc + 1" ret1 s2] show ?thesis by (auto split: if_splits)
  qed
qed

lemma parseredirs_returns:
  "suffix ps line \<Longrightarrow> set_cmd c \<subseteq> words line \<Longrightarrow> returns line ps (Some (parseredirs (length line) c ps))"
  using parseredirs_parsed parseredirs_Panic by (auto simp: returns_def)

lemma parseargs_returns:
  "suffix ps line \<Longrightarrow> set_cmd c \<subseteq> words line \<Longrightarrow> returns line ps (Some (parseargs (length line) argc c ps))"
  using parseargs_parsed parseargs_Panic by (auto simp: returns_def)

lemma parsedD:
  assumes "parsed line ps (c, s)"
  shows "suffix s line" "length s \<le> length ps" "set_cmd c \<subseteq> words line"
  using assms by (simp_all add: parsed_def)

text \<open>Enough fuel for each of the four functions.\<close>

lemma parser_returns:
  "suffix ps line \<Longrightarrow> 4 * length ps + 4 \<le> k \<Longrightarrow> returns line ps (parseline k (length line) ps)"
  "suffix ps line \<Longrightarrow> 4 * length ps + 3 \<le> k \<Longrightarrow> returns line ps (parsepipe k (length line) ps)"
  "suffix ps line \<Longrightarrow> 4 * length ps + 2 \<le> k \<Longrightarrow> returns line ps (parseexec k (length line) ps)"
  "suffix ps line \<Longrightarrow> 4 * length ps + 1 \<le> k \<Longrightarrow> returns line ps (parseblock k (length line) ps)"
proof (induction k arbitrary: ps)
  case 0
  {
    case 1
    then show ?case by simp
  next
    case 2
    then show ?case by simp
  next
    case 3
    then show ?case by simp
  next
    case 4
    then show ?case by simp
  }
next
  case (Suc k)
  let ?n = "length line"
  {
    case 1
    have "returns line ps (parsepipe k ?n ps)" using 1 by (intro Suc.IH(2)) simp_all
    then show ?case unfolding parseline.simps
    proof (rule returns_pthen)
      fix c s assume P: "parsed line ps (c, s)"
      obtain c1 s1 where b: "parseback c s = (c1, s1)" by fastforce
      have B: "suffix s1 line" "length s1 \<le> length s" "set_cmd c1 \<subseteq> words line"
        using parseback_parsed [of s line c] parsedD [OF P] b by (auto simp: parsed_def)
      obtain bb s2 where p: "peek '';'' s1 = (bb, s2)" by fastforce
      have s2: "suffix s2 line" "length s2 \<le> length s1" using peek_suffix [OF p B(1)] by auto
      obtain tok q eq s3 where t: "gettoken s2 = (tok, q, eq, s3)" by (cases "gettoken s2")
      show "returns line ps (case (c, s) of (c, s) \<Rightarrow> case parseback c s of (c1, s1) \<Rightarrow> case peek '';'' s1 of (b, s2) \<Rightarrow>
          if b then case gettoken s2 of (_, _, _, s3) \<Rightarrow>
              pthen (parseline k ?n s3) (\<lambda>(c2, s4). Some (Inr (LIST c1 c2, s4)))
            else Some (Inr (c1, s2)))"
      proof (cases bb)
        case False
        with b p B s2 parsedD(2) [OF P] show ?thesis by (simp add: parsed_def)
      next
        case True
        have s3: "suffix s3 line" using gettoken_suffix [OF t s2(1)] by simp
        have pT: "peek '';'' s1 = (True, s2)" using p True by simp
        have lt: "length s3 < length s1" by (rule back_advance [OF pT [symmetric] t [symmetric]])
        then have fuel: "4 * length s3 + 4 \<le> k" using 1(2) B(2) parsedD(2) [OF P] by simp
        have "returns line ps (pthen (parseline k ?n s3) (\<lambda>(c2, s4). Some (Inr (LIST c1 c2, s4))))"
          by (rule returns_pthen [OF Suc.IH(1) [OF s3 fuel]]) (use lt B parsedD(2) [OF P] in \<open>auto simp: parsed_def\<close>)
        with True b p t show ?thesis by simp
      qed
    qed
  next
    case 2
    have "returns line ps (parseexec k ?n ps)" using 2 by (intro Suc.IH(3)) simp_all
    then show ?case unfolding parsepipe.simps
    proof (rule returns_pthen)
      fix c s assume P: "parsed line ps (c, s)"
      obtain bb s1 where p: "peek ''|'' s = (bb, s1)" by fastforce
      have s1: "suffix s1 line" "length s1 \<le> length s" using peek_suffix [OF p parsedD(1) [OF P]] by auto
      obtain tok q eq s2 where t: "gettoken s1 = (tok, q, eq, s2)" by (cases "gettoken s1")
      show "returns line ps (case (c, s) of (c, s) \<Rightarrow> case peek ''|'' s of (b, s1) \<Rightarrow>
          if b then case gettoken s1 of (_, _, _, s2) \<Rightarrow>
              pthen (parsepipe k ?n s2) (\<lambda>(c2, s3). Some (Inr (PIPE c c2, s3)))
            else Some (Inr (c, s1)))"
      proof (cases bb)
        case False
        with p s1 parsedD [OF P] show ?thesis by (simp add: parsed_def)
      next
        case True
        have s2: "suffix s2 line" using gettoken_suffix [OF t s1(1)] by simp
        have pT: "peek ''|'' s = (True, s1)" using p True by simp
        have lt: "length s2 < length s" by (rule back_advance [OF pT [symmetric] t [symmetric]])
        then have fuel: "4 * length s2 + 3 \<le> k" using 2(2) parsedD(2) [OF P] by simp
        have "returns line ps (pthen (parsepipe k ?n s2) (\<lambda>(c2, s3). Some (Inr (PIPE c c2, s3))))"
          by (rule returns_pthen [OF Suc.IH(2) [OF s2 fuel]]) (use lt parsedD [OF P] in \<open>auto simp: parsed_def\<close>)
        with True p t show ?thesis by simp
      qed
    qed
  next
    case 3
    obtain b s where p: "peek ''('' ps = (b, s)" by fastforce
    have s: "suffix s line" "length s \<le> length ps" using peek_suffix [OF p 3(1)] by auto
    show ?case
    proof (cases b)
      case True
      have "returns line s (parseblock k ?n s)" using 3(2) s by (intro Suc.IH(4)) simp_all
      then show ?thesis using True p s(2) by (simp add: returns_mono)
    next
      case False
      have r: "returns line s (Some (parseredirs ?n (EXEC []) s))" using s(1) by (intro parseredirs_returns) simp_all
      show ?thesis
      proof (cases "parseredirs ?n (EXEC []) s")
        case (Inl e)
        with r False p show ?thesis by (simp add: returns_def)
      next
        case (Inr cs)
        obtain c s1 where cs: "cs = (c, s1)" by (cases cs)
        with r Inr have P: "parsed line s (c, s1)" by simp
        have "returns line s1 (Some (parseargs ?n 0 c s1))" using parsedD [OF P] by (intro parseargs_returns)
        then show ?thesis using False p Inr cs parsedD(2) [OF P] s(2) by (auto intro: returns_mono)
      qed
    qed
  next
    case 4
    obtain b s where p: "peek ''('' ps = (b, s)" by fastforce
    have s: "suffix s line" "length s \<le> length ps" using peek_suffix [OF p 4(1)] by auto
    obtain tok q eq s1 where t: "gettoken s = (tok, q, eq, s1)" by (cases "gettoken s")
    show ?case
    proof (cases b)
      case False
      with p show ?thesis by simp
    next
      case True
      have s1: "suffix s1 line" using gettoken_suffix [OF t s(1)] by simp
      have pT: "peek ''('' ps = (True, s)" using p True by simp
      have lt: "length s1 < length ps" by (rule back_advance [OF pT [symmetric] t [symmetric]])
      have "returns line s1 (parseline k ?n s1)" using lt 4(2) s1 by (intro Suc.IH(1)) simp_all
      then have "returns line ps (pthen (parseline k ?n s1) (\<lambda>(c, s2). case peek '')'' s2 of (b2, s3) \<Rightarrow>
          if \<not> b2 then Some (Inl (Panic ''syntax - missing )''))
          else case gettoken s3 of (_, _, _, s4) \<Rightarrow> Some (parseredirs ?n c s4)))"
      proof (rule returns_pthen)
        fix c s2 assume P: "parsed line s1 (c, s2)"
        obtain b2 s3 where p2: "peek '')'' s2 = (b2, s3)" by fastforce
        have s3: "suffix s3 line" "length s3 \<le> length s2" using peek_suffix [OF p2 parsedD(1) [OF P]] by auto
        obtain tok2 q2 eq2 s4 where t2: "gettoken s3 = (tok2, q2, eq2, s4)" by (cases "gettoken s3")
        have s4: "suffix s4 line" "length s4 \<le> length s3" using gettoken_suffix [OF t2 s3(1)] by auto
        have "returns line s4 (Some (parseredirs ?n c s4))" using s4(1) parsedD(3) [OF P] by (rule parseredirs_returns)
        with s4 s3 parsedD(2) [OF P] lt have "returns line ps (Some (parseredirs ?n c s4))" by (auto intro: returns_mono)
        with p2 t2 show "returns line ps (case (c, s2) of (c, s2) \<Rightarrow> case peek '')'' s2 of (b2, s3) \<Rightarrow>
            if \<not> b2 then Some (Inl (Panic ''syntax - missing )''))
            else case gettoken s3 of (_, _, _, s4) \<Rightarrow> Some (parseredirs ?n c s4))" by simp
      qed
      with True p t show ?thesis by simp
    qed
  }
qed

section \<open>The words after \<open>nulterminate\<close>\<close>

lemma foldl_nul:
  "length (foldl (\<lambda>b a. b[snd a := NUL]) buf as) = length buf"
  "i < length buf \<Longrightarrow> foldl (\<lambda>b a. b[snd a := NUL]) buf as ! i = (if i \<in> snd ` set as then NUL else buf ! i)"
  by (induction as arbitrary: buf) (auto simp: nth_list_update)

lemma nth_update_at: "i < length xs \<Longrightarrow> xs[k := v] ! i = (if i = k then v else xs ! i)"
  by auto

lemma length_nulterminate [simp]: "length (nulterminate c buf) = length buf"
  by (induction c arbitrary: buf) (simp_all add: foldl_nul)

lemma nth_nulterminate:
  "i < length buf \<Longrightarrow> nulterminate c buf ! i = (if i \<in> snd ` set_cmd c then NUL else buf ! i)"
  by (induction c arbitrary: buf) (simp_all add: foldl_nul nth_update_at image_Un)

lemma cstr_drop_eqI:
  assumes "q \<le> e" "e < length buf" "buf ! e = NUL" "\<And>i. q \<le> i \<Longrightarrow> i < e \<Longrightarrow> buf ! i \<noteq> NUL"
  shows "cstr (drop q buf) = take (e - q) (drop q buf)"
proof -
  have "drop q buf = take (e - q) (drop q buf) @ NUL # drop (Suc e) buf"
    using assms(1-3) by (metis Cons_nth_drop_Suc add.commute append_take_drop_id drop_drop le_add_diff_inverse2)
  moreover have "nul_free (take (e - q) (drop q buf))"
    using assms by (auto simp: nul_free_def in_set_conv_nth)
  ultimately show ?thesis using cstr_append_NUL by metis
qed

lemma words_isolated:
  assumes line: "nul_free line" and c: "set_cmd c \<subseteq> words line" and a: "a \<in> set_cmd c"
  shows "word_at (nulterminate c (line @ [NUL])) a = take (snd a - fst a) (drop (fst a) line)"
proof -
  let ?buf = "nulterminate c (line @ [NUL])"
  have w: "fst a < snd a" "snd a \<le> length line" "\<And>i. fst a \<le> i \<Longrightarrow> i < snd a \<Longrightarrow> word_char (line ! i)"
    using a c by (auto simp: words_def whole_word_def)
  have keep: "?buf ! i = line ! i" "line ! i \<noteq> NUL" if "fst a \<le> i" "i < snd a" for i
  proof -
    have i: "i < length line" using that w(2) by simp
    then show "line ! i \<noteq> NUL" using line by (auto simp: nul_free_def dest: nth_mem)
    have "i \<notin> snd ` set_cmd c"
    proof
      assume "i \<in> snd ` set_cmd c"
      then obtain b where "b \<in> set_cmd c" "i = snd b" by auto
      then have "\<not> word_char (line ! i)" using c i by (auto simp: words_def whole_word_def)
      with w(3) [OF that] show False by simp
    qed
    with i show "?buf ! i = line ! i" by (simp add: nth_nulterminate nth_append)
  qed
  have "?buf ! snd a = NUL" using a w(2) by (simp add: nth_nulterminate)
  moreover have "\<And>i. fst a \<le> i \<Longrightarrow> i < snd a \<Longrightarrow> ?buf ! i \<noteq> NUL" using keep by metis
  ultimately have "cstr (drop (fst a) ?buf) = take (snd a - fst a) (drop (fst a) ?buf)"
    using w by (intro cstr_drop_eqI) simp_all
  also have "\<dots> = take (snd a - fst a) (drop (fst a) line)"
    using w(1,2) keep by (intro nth_equalityI) auto
  finally show ?thesis by (simp add: word_at_def)
qed

lemma parsecmd_total:
  "\<exists>r. parsecmd line = Some r \<and> (\<forall>c buf. r = Inr (c, buf) \<longrightarrow> set_cmd c \<subseteq> words line \<and> buf = nulterminate c (line @ [NUL]))"
proof -
  have "returns line line (parseline (4 * length line + 4) (length line) line)" by (rule parser_returns(1)) simp_all
  then obtain x where x: "parseline (4 * length line + 4) (length line) line = Some x"
    and ok: "\<And>cs. x = Inr cs \<Longrightarrow> parsed line line cs" by (auto simp: returns_def)
  show ?thesis
  proof (cases x)
    case (Inl e)
    with x show ?thesis by (simp add: parsecmd_def)
  next
    case (Inr cs)
    obtain c s where cs: "cs = (c, s)" by (cases cs)
    obtain b s2 where "peek [] s = (b, s2)" by fastforce
    with x Inr cs parsedD(3) [of line line c s] ok [OF Inr] show ?thesis by (simp add: parsecmd_def)
  qed
qed

section \<open>Properties\<close>

text \<open>
  C21. The parser of the shell returns on every line, with a command or with the messages of a syntax error. After
  \<^verbatim>\<open>nulterminate\<close> every argument and every file name of the command, read as a C string from its start in the
  shared line buffer, is exactly the word of the line it was parsed from: the NULs never cut another word.
\<close>

theorem parsecmd_returns_words:
  assumes "nul_free line"
  shows "\<exists>r. parsecmd line = Some r \<and>
    (\<forall>c buf. r = Inr (c, buf) \<longrightarrow> (\<forall>a \<in> set_cmd c. whole_word line a \<and> word_at buf a = take (snd a - fst a) (drop (fst a) line)))"
proof -
  obtain r where r: "parsecmd line = Some r"
    and ok: "\<And>c buf. r = Inr (c, buf) \<Longrightarrow> set_cmd c \<subseteq> words line \<and> buf = nulterminate c (line @ [NUL])"
    using parsecmd_total by blast
  have "whole_word line a \<and> word_at buf a = take (snd a - fst a) (drop (fst a) line)"
    if "r = Inr (c, buf)" "a \<in> set_cmd c" for c buf a
    using ok [OF that(1)] words_isolated [OF assms _ that(2)] that(2) by (auto simp: words_def)
  with r show ?thesis by blast
qed

theorem parsecmd_returns_words_witness:
  "parsecmd ''cat<in|wc'' = Some (Inr (PIPE (REDIR (EXEC [(0, 3)]) (4, 6) 0 0) (EXEC [(7, 9)]),
      ''cat'' @ [NUL] @ ''in'' @ [NUL] @ ''wc'' @ [NUL])) \<and>
    word_at (''cat'' @ [NUL] @ ''in'' @ [NUL] @ ''wc'' @ [NUL]) (4, 6) = ''in''"
proof -
  have p: "parsecmd ''cat<in|wc'' = Some (Inr (PIPE (REDIR (EXEC [(0, 3)]) (4, 6) 0 0) (EXEC [(7, 9)]),
      ''cat'' @ [NUL] @ ''in'' @ [NUL] @ ''wc'' @ [NUL]))"
    by code_simp
  have "nul_free ''cat<in|wc''" by simp
  from parsecmd_returns_words [OF this] p show ?thesis by auto
qed

end
