(* ===== verification/Shell_Roundtrip.thy ===== *)
theory Shell_Roundtrip
  imports Shell_Parse
begin

text \<open>
  The grammar of the shell as a datatype with a printer, and the proof that the parser reads every printed command
  back as the command it means.
\<close>

section \<open>Abstract command lines\<close>

datatype rd = In string | Out string | App string

datatype ex = Simple "string list" "rd list" | Block ln "rd list"
  and pl = Pone ex | Pcons ex pl
  and ln = Lend pl nat | Lseq pl nat ln

text \<open>What they mean: a command over strings.\<close>

fun sem_rd :: "string cmd \<Rightarrow> rd \<Rightarrow> string cmd" where
  "sem_rd c (In f) = REDIR c f O_RDONLY 0"
| "sem_rd c (Out f) = REDIR c f O_WRCREATE 1"
| "sem_rd c (App f) = REDIR c f O_WRCREATE 1"

primrec backs :: "nat \<Rightarrow> 'w cmd \<Rightarrow> 'w cmd" where
  "backs 0 c = c"
| "backs (Suc k) c = backs k (BACK c)"

primrec sem_ex :: "ex \<Rightarrow> string cmd" and sem_pl :: "pl \<Rightarrow> string cmd" and sem_ln :: "ln \<Rightarrow> string cmd" where
  "sem_ex (Simple ws rs) = foldl sem_rd (EXEC ws) rs"
| "sem_ex (Block l rs) = foldl sem_rd (sem_ln l) rs"
| "sem_pl (Pone e) = sem_ex e"
| "sem_pl (Pcons e p) = PIPE (sem_ex e) (sem_pl p)"
| "sem_ln (Lend p k) = backs k (sem_pl p)"
| "sem_ln (Lseq p k l) = LIST (backs k (sem_pl p)) (sem_ln l)"

text \<open>How they are written.\<close>

fun pr_rd :: "rd \<Rightarrow> string" where
  "pr_rd (In f) = ''< '' @ f @ '' ''"
| "pr_rd (Out f) = ''> '' @ f @ '' ''"
| "pr_rd (App f) = ''>> '' @ f @ '' ''"

definition pr_rds :: "rd list \<Rightarrow> string" where
  "pr_rds rs = concat (map pr_rd rs)"

definition pr_words :: "string list \<Rightarrow> string" where
  "pr_words ws = concat (map (\<lambda>w. w @ '' '') ws)"

primrec pr_ex :: "ex \<Rightarrow> string" and pr_pl :: "pl \<Rightarrow> string" and pr_ln :: "ln \<Rightarrow> string" where
  "pr_ex (Simple ws rs) = pr_words ws @ pr_rds rs"
| "pr_ex (Block l rs) = ''('' @ pr_ln l @ '')'' @ pr_rds rs"
| "pr_pl (Pone e) = pr_ex e"
| "pr_pl (Pcons e p) = pr_ex e @ ''| '' @ pr_pl p"
| "pr_ln (Lend p k) = pr_pl p @ replicate k (CHR ''&'')"
| "pr_ln (Lseq p k l) = pr_pl p @ replicate k (CHR ''&'') @ ''; '' @ pr_ln l"

text \<open>Words are runs of word characters, and a command has at most nine of them.\<close>

definition good_word :: "string \<Rightarrow> bool" where
  "good_word w \<longleftrightarrow> w \<noteq> [] \<and> nul_free w \<and> (\<forall>c \<in> set w. word_char c)"

fun file_of :: "rd \<Rightarrow> string" where
  "file_of (In f) = f"
| "file_of (Out f) = f"
| "file_of (App f) = f"

primrec wf_ex :: "ex \<Rightarrow> bool" and wf_pl :: "pl \<Rightarrow> bool" and wf_ln :: "ln \<Rightarrow> bool" where
  "wf_ex (Simple ws rs) \<longleftrightarrow> length ws < MAXARGS \<and> list_all good_word ws \<and> list_all (\<lambda>r. good_word (file_of r)) rs"
| "wf_ex (Block l rs) \<longleftrightarrow> wf_ln l \<and> list_all (\<lambda>r. good_word (file_of r)) rs"
| "wf_pl (Pone e) \<longleftrightarrow> wf_ex e"
| "wf_pl (Pcons e p) \<longleftrightarrow> wf_ex e \<and> wf_pl p"
| "wf_ln (Lend p k) \<longleftrightarrow> wf_pl p"
| "wf_ln (Lseq p k l) \<longleftrightarrow> wf_pl p \<and> wf_ln l"

section \<open>Tokens of printed lines\<close>

text \<open>What may follow: the end, or a character of \<open>cs\<close>.\<close>

definition follow :: "string \<Rightarrow> string \<Rightarrow> bool" where
  "follow cs r \<longleftrightarrow> r = [] \<or> hd r \<in> set cs"

lemma follow_mono: "follow cs r \<Longrightarrow> set cs \<subseteq> set ds \<Longrightarrow> follow ds r"
  by (auto simp: follow_def)

lemma is_space_simps:
  "is_space (CHR '' '')" "\<not> is_space (CHR ''|'')" "\<not> is_space (CHR '';'')" "\<not> is_space (CHR ''&'')"
  "\<not> is_space (CHR ''('')" "\<not> is_space (CHR '')'')" "\<not> is_space (CHR ''<'')" "\<not> is_space (CHR ''>'')"
  by (simp_all add: is_space_def whitespace_def)

lemma dropWhile_follow: "follow ''|)&;'' r \<Longrightarrow> dropWhile is_space r = r"
  by (cases r) (auto simp: follow_def is_space_simps)

lemma good_wordD:
  assumes "good_word w"
  obtains c t where "w = c # t" "\<not> is_space c" "word_char c" "\<forall>x \<in> set t. word_char x"
  using assms by (cases w) (auto simp: good_word_def word_char_def is_space_def)

lemma gettoken_printed_word:
  assumes "good_word w"
  shows "gettoken (w @ '' '' @ r) = (CHR ''a'', w @ '' '' @ r, '' '' @ r, dropWhile is_space r)"
proof -
  obtain c t where w: "w = c # t" "\<not> is_space c" "word_char c" "\<forall>x \<in> set t. word_char x"
    using assms by (rule good_wordD)
  have sp: "\<not> word_char (CHR '' '')" by (simp add: word_char_def whitespace_def)
  have "dropWhile word_char (t @ CHR '' '' # r) = CHR '' '' # r"
    using w(4) sp by (simp add: dropWhile_append3)
  moreover have "c \<notin> set ''|();&<''" "c \<noteq> CHR ''>''" using w(3) by (auto simp: word_char_def symbols_def)
  ultimately show ?thesis using w by (simp add: gettoken_def Let_def is_space_simps)
qed

lemma gettoken_symbol:
  "c \<in> set ''|();&<'' \<Longrightarrow> gettoken (c # r) = (c, c # r, r, dropWhile is_space r)"
  by (auto simp: gettoken_def Let_def is_space_simps)

text \<open>The text of a span of the line.\<close>

definition span_str :: "string \<Rightarrow> span \<Rightarrow> string" where
  "span_str line a = take (snd a - fst a) (drop (fst a) line)"

lemma span_str_suffix:
  assumes "suffix (w @ r) line"
  shows "span_str line (span_of (length line) (w @ r) r) = w"
proof -
  obtain p where "line = p @ w @ r" using assms by (auto simp: suffix_def)
  then show ?thesis by (simp add: span_str_def span_of_def)
qed

lemma map_cmd_add_arg: "map_cmd f (add_arg a c) = add_arg (f a) (map_cmd f c)"
  by (induction c) auto

section \<open>Redirections\<close>

lemma pr_rds_simps [simp]: "pr_rds [] = []" "pr_rds (x # rs) = pr_rd x @ pr_rds rs"
  by (simp_all add: pr_rds_def)

lemma pr_words_simps [simp]: "pr_words [] = []" "pr_words (w # ws) = w @ '' '' @ pr_words ws"
  by (simp_all add: pr_words_def)

lemma dropWhile_pr_rds: "follow ''|)&;'' r \<Longrightarrow> dropWhile is_space (pr_rds rs @ r) = pr_rds rs @ r"
proof (cases rs)
  case (Cons x xs)
  then show ?thesis by (cases x) (simp_all add: is_space_simps)
qed (simp add: dropWhile_follow)

lemma dropWhile_pr_words:
  "list_all good_word ws \<Longrightarrow> follow ''|)&;'' r \<Longrightarrow> dropWhile is_space (pr_words ws @ pr_rds rs @ r) = pr_words ws @ pr_rds rs @ r"
proof (cases ws)
  case (Cons w xs)
  assume "list_all good_word ws"
  with Cons have "good_word w" by simp
  then obtain c t where "w = c # t" "\<not> is_space c" by (rule good_wordD)
  with Cons show ?thesis by simp
qed (simp add: dropWhile_pr_rds)

lemma peek_no_redir: "follow ''|)&;'' r \<Longrightarrow> peek ''<>'' r = (False, r)"
  by (cases r) (auto simp: peek_def dropWhile_follow follow_def Let_def is_space_simps)

lemma redir_token:
  assumes "good_word (file_of x)"
  obtains tok q eq where "peek ''<>'' (pr_rd x @ r) = (True, pr_rd x @ r)"
    "gettoken (pr_rd x @ r) = (tok, q, eq, file_of x @ '' '' @ r)"
    "\<And>f c a. f a = file_of x \<Longrightarrow> map_cmd f (redir_for tok c a) = sem_rd (map_cmd f c) x"
proof -
  obtain c t where w: "file_of x = c # t" "\<not> is_space c" using assms by (rule good_wordD)
  show thesis
  proof (cases x)
    case (In f)
    with w that [of "CHR ''<''"] show thesis
      by (auto simp: peek_def gettoken_def Let_def is_space_simps redir_for_def)
  next
    case (Out f)
    with w that [of "CHR ''>''"] show thesis
      by (auto simp: peek_def gettoken_def Let_def is_space_simps redir_for_def)
  next
    case (App f)
    with w that [of "CHR ''+''"] show thesis
      by (auto simp: peek_def gettoken_def Let_def is_space_simps redir_for_def)
  qed
qed

lemma parseredirs_printed:
  assumes "suffix (pr_rds rs @ r) line" "follow ''|)&;'' r" "list_all (\<lambda>x. good_word (file_of x)) rs"
  shows "\<exists>c'. parseredirs (length line) c (pr_rds rs @ r) = Inr (c', r) \<and>
    map_cmd (span_str line) c' = foldl sem_rd (map_cmd (span_str line) c) rs"
  using assms
proof (induction rs arbitrary: c)
  case Nil
  then show ?case by (simp add: parseredirs_stop peek_no_redir)
next
  case (Cons x rs)
  let ?n = "length line" and ?rest = "pr_rds rs @ r"
  have x: "good_word (file_of x)" using Cons.prems(3) by simp
  obtain tok q eq where p: "peek ''<>'' (pr_rd x @ ?rest) = (True, pr_rd x @ ?rest)"
    and t: "gettoken (pr_rd x @ ?rest) = (tok, q, eq, file_of x @ '' '' @ ?rest)"
    and m: "\<And>f c (a :: span). f a = file_of x \<Longrightarrow> map_cmd f (redir_for tok c a) = sem_rd (map_cmd f c) x"
    using redir_token [OF x, of ?rest] by metis
  have sw: "suffix (file_of x @ '' '' @ ?rest) line"
    using Cons.prems(1) by (cases x) (auto simp: suffix_def)
  then have sr: "suffix ?rest line" by (auto simp: suffix_def)
  let ?a = "span_of ?n (file_of x @ '' '' @ ?rest) ('' '' @ ?rest)"
  have "parseredirs ?n c (pr_rd x @ ?rest) = parseredirs ?n (redir_for tok c ?a) ?rest"
    using parseredirs_step [OF p t gettoken_printed_word [OF x]] dropWhile_pr_rds [OF Cons.prems(2)] by simp
  moreover have "map_cmd (span_str line) (redir_for tok c ?a) = sem_rd (map_cmd (span_str line) c) x"
    by (rule m) (rule span_str_suffix [OF sw])
  ultimately show ?case
    using Cons.IH [OF sr Cons.prems(2), of "redir_for tok c ?a"] Cons.prems(3) by simp
qed

section \<open>Arguments\<close>

lemma parseargs_stop:
  assumes "follow ''|)&;'' r"
  shows "parseargs n argc ret r = Inr (ret, r)"
proof (cases r)
  case Nil
  then show ?thesis by (subst parseargs.simps) (simp add: peek_def gettoken_def)
next
  case (Cons c t)
  with assms dropWhile_follow [OF assms] have "peek ''|)&;'' r = (True, r)" by (simp add: peek_def follow_def)
  then show ?thesis by (subst parseargs.simps) simp
qed

lemma peek_word_char:
  assumes "good_word w" "\<forall>c \<in> set toks. c \<in> set symbols"
  shows "peek toks (w @ r) = (False, w @ r)"
proof -
  obtain c t where w: "w = c # t" "\<not> is_space c" "word_char c" using assms(1) by (rule good_wordD)
  then have "c \<notin> set toks" using assms(2) by (auto simp: word_char_def)
  with w show ?thesis by (simp add: peek_def)
qed

lemma parseargs_printed:
  assumes "suffix (pr_words (w # ws) @ pr_rds rs @ r) line" "follow ''|)&;'' r"
    and "list_all good_word (w # ws)" "list_all (\<lambda>x. good_word (file_of x)) rs" "argc + length (w # ws) < MAXARGS"
  shows "\<exists>c'. parseargs (length line) argc ret (pr_words (w # ws) @ pr_rds rs @ r) = Inr (c', r) \<and>
    map_cmd (span_str line) c' = foldl sem_rd (foldl (\<lambda>c w. add_arg w c) (map_cmd (span_str line) ret) (w # ws)) rs"
  using assms
proof (induction ws arbitrary: w argc ret)
  case Nil
  let ?n = "length line" and ?rest = "pr_rds rs @ r"
  have w: "good_word w" using Nil.prems(3) by simp
  let ?a = "span_of ?n (w @ '' '' @ ?rest) ('' '' @ ?rest)"
  have p: "peek ''|)&;'' (w @ '' '' @ ?rest) = (False, w @ '' '' @ ?rest)"
    by (rule peek_word_char [OF w]) (simp add: symbols_def)
  have sw: "suffix (w @ '' '' @ ?rest) line" using Nil.prems(1) by simp
  then have sr: "suffix ?rest line" by (auto simp: suffix_def)
  obtain c' where c': "parseredirs ?n (add_arg ?a ret) ?rest = Inr (c', r)"
    "map_cmd (span_str line) c' = foldl sem_rd (map_cmd (span_str line) (add_arg ?a ret)) rs"
    using parseredirs_printed [OF sr Nil.prems(2,4)] by blast
  have "parseargs ?n argc ret (w @ '' '' @ ?rest) = parseargs ?n (argc + 1) c' r"
    using parseargs_equation [OF p gettoken_printed_word [OF w]] dropWhile_pr_rds [OF Nil.prems(2)] c'(1) Nil.prems(5)
    by simp
  with c'(2) parseargs_stop [OF Nil.prems(2)] span_str_suffix [OF sw] show ?case
    by (simp add: map_cmd_add_arg)
next
  case (Cons v ws)
  let ?n = "length line" and ?rest = "pr_words (v # ws) @ pr_rds rs @ r"
  have w: "good_word w" "good_word v" using Cons.prems(3) by simp_all
  let ?a = "span_of ?n (w @ '' '' @ ?rest) ('' '' @ ?rest)"
  have p: "peek ''|)&;'' (w @ '' '' @ ?rest) = (False, w @ '' '' @ ?rest)"
    by (rule peek_word_char [OF w(1)]) (simp add: symbols_def)
  have sw: "suffix (w @ '' '' @ ?rest) line" using Cons.prems(1) by simp
  then have sr: "suffix ?rest line" by (auto simp: suffix_def)
  have d: "dropWhile is_space ?rest = ?rest" using dropWhile_pr_words [of "v # ws" r rs] Cons.prems(2,3) by simp
  have "peek ''<>'' ?rest = (False, ?rest)"
    using peek_word_char [OF w(2), of "''<>''"] by (simp add: symbols_def)
  then have "parseredirs ?n (add_arg ?a ret) ?rest = Inr (add_arg ?a ret, ?rest)" by (rule parseredirs_stop)
  then have "parseargs ?n argc ret (w @ '' '' @ ?rest) = parseargs ?n (argc + 1) (add_arg ?a ret) ?rest"
    using parseargs_equation [OF p gettoken_printed_word [OF w(1)]] d Cons.prems(5) by simp
  moreover have "map_cmd (span_str line) (add_arg ?a ret) = add_arg w (map_cmd (span_str line) ret)"
    using span_str_suffix [OF sw] by (simp add: map_cmd_add_arg)
  moreover have "\<exists>c'. parseargs ?n (argc + 1) (add_arg ?a ret) ?rest = Inr (c', r) \<and> map_cmd (span_str line) c' =
      foldl sem_rd (foldl (\<lambda>c w. add_arg w c) (map_cmd (span_str line) (add_arg ?a ret)) (v # ws)) rs"
    using sr Cons.prems by (intro Cons.IH) simp_all
  ultimately show ?case by simp
qed

lemma add_args_EXEC: "foldl (\<lambda>c w. add_arg w c) (EXEC as) ws = EXEC (as @ ws)"
  by (induction ws arbitrary: as) simp_all

section \<open>Lists, pipelines and blocks\<close>

lemma map_cmd_backs [simp]: "map_cmd f (backs k c) = backs k (map_cmd f c)"
  by (induction k arbitrary: c) simp_all

lemma lead_ex: "wf_ex e \<Longrightarrow> follow ''|)&;'' r \<Longrightarrow> dropWhile is_space (pr_ex e @ r) = pr_ex e @ r"
  by (cases e) (simp_all add: dropWhile_pr_words is_space_simps)

lemma lead_pl: "wf_pl p \<Longrightarrow> follow ''|)&;'' r \<Longrightarrow> dropWhile is_space (pr_pl p @ r) = pr_pl p @ r"
proof (cases p)
  case (Pcons e q)
  assume "wf_pl p"
  with Pcons lead_ex [of e "''| '' @ pr_pl q @ r"] show ?thesis by (simp add: follow_def)
qed (simp add: lead_ex)

lemma follow_backs: "follow ''|)&;'' r \<Longrightarrow> follow ''|)&;'' (replicate k (CHR ''&'') @ r)"
  by (cases k) (simp_all add: follow_def)

lemma lead_ln: "wf_ln l \<Longrightarrow> follow ''|)&;'' r \<Longrightarrow> dropWhile is_space (pr_ln l @ r) = pr_ln l @ r"
proof (cases l)
  case (Lend p k)
  assume "wf_ln l" "follow ''|)&;'' r"
  with Lend lead_pl [of p] follow_backs [of r k] show ?thesis by simp
next
  case (Lseq p k m)
  assume "wf_ln l"
  with Lseq lead_pl [of p] follow_backs [of "''; '' @ pr_ln m @ r" k] show ?thesis by (simp add: follow_def)
qed

lemma peek_hd: "\<not> is_space c \<Longrightarrow> peek toks (c # t) = (c \<in> set toks, c # t)"
  by (simp add: peek_def)

lemma peek_follow: "follow ''|)&;'' r \<Longrightarrow> peek toks r = (r \<noteq> [] \<and> hd r \<in> set toks, r)"
  by (cases r) (auto simp: peek_def dropWhile_follow follow_def is_space_simps)

lemma parseback_printed:
  assumes "follow '');'' r"
  shows "parseback c (replicate k (CHR ''&'') @ r) = (backs k c, r)"
proof (induction k arbitrary: c)
  case 0
  have "peek ''&'' r = (False, r)"
    using assms peek_follow [OF follow_mono [OF assms, of "''|)&;''"], of "''&''"] by (auto simp: follow_def)
  then show ?case by (simp add: parseback_stop)
next
  case (Suc k)
  let ?s = "replicate k (CHR ''&'') @ r"
  have "follow ''|)&;'' ?s" by (rule follow_backs) (rule follow_mono [OF assms], auto)
  then have "dropWhile is_space ?s = ?s" by (rule dropWhile_follow)
  then have "gettoken (CHR ''&'' # ?s) = (CHR ''&'', CHR ''&'' # ?s, ?s, ?s)" by (simp add: gettoken_symbol)
  then have "parseback c (CHR ''&'' # ?s) = parseback (BACK c) ?s"
    by (intro parseback_step) (simp_all add: peek_hd is_space_simps)
  with Suc.IH show ?case by simp
qed

definition reads :: "string \<Rightarrow> (fault + (span cmd \<times> string)) option \<Rightarrow> string \<Rightarrow> string cmd \<Rightarrow> bool" where
  "reads line p r s \<longleftrightarrow> (\<exists>c. p = Some (Inr (c, r)) \<and> map_cmd (span_str line) c = s)"

lemma peek_paren_simple:
  assumes "list_all good_word ws" "follow ''|)&;'' r"
  shows "peek ''('' (pr_words ws @ pr_rds rs @ r) = (False, pr_words ws @ pr_rds rs @ r)"
proof (cases ws)
  case (Cons w vs)
  then show ?thesis using assms(1) peek_word_char [of w "''(''"] by (simp add: symbols_def)
next
  case Nil
  show ?thesis
  proof (cases rs)
    case (Cons x xs)
    with \<open>ws = []\<close> show ?thesis by (cases x) (simp_all add: peek_hd is_space_simps)
  next
    case Nil
    have "\<not> (r \<noteq> [] \<and> hd r \<in> set ''('')" using assms(2) by (auto simp: follow_def)
    with \<open>ws = []\<close> Nil peek_follow [OF assms(2), of "''(''"] show ?thesis by simp
  qed
qed

lemma reads_Simple:
  assumes "wf_ex (Simple ws rs)" "suffix (pr_ex (Simple ws rs) @ r) line" "follow ''|)&;'' r"
  shows "reads line (parseexec (Suc k) (length line) (pr_ex (Simple ws rs) @ r)) r (sem_ex (Simple ws rs))"
proof (cases ws)
  case Nil
  have rs: "list_all (\<lambda>x. good_word (file_of x)) rs" using assms(1) by simp
  have "suffix (pr_rds rs @ r) line" using assms(2) Nil by simp
  then obtain c where "parseredirs (length line) (EXEC []) (pr_rds rs @ r) = Inr (c, r)"
    "map_cmd (span_str line) c = foldl sem_rd (EXEC []) rs"
    using parseredirs_printed [OF _ assms(3) rs, of line "EXEC []"] by auto
  with Nil parseargs_stop [OF assms(3)] peek_paren_simple [of "[]" r rs] assms(3) show ?thesis
    by (simp add: reads_def)
next
  case (Cons w vs)
  have g: "good_word w" "list_all good_word (w # vs)" "list_all (\<lambda>x. good_word (file_of x)) rs"
    "0 + length (w # vs) < MAXARGS"
    using assms(1) Cons by simp_all
  let ?s = "pr_words (w # vs) @ pr_rds rs @ r"
  have "suffix ?s line" using assms(2) Cons by simp
  from parseargs_printed [OF this assms(3) g(2,3,4), of "EXEC []"]
  obtain c where c: "parseargs (length line) 0 (EXEC []) ?s = Inr (c, r)"
    "map_cmd (span_str line) c = foldl sem_rd (EXEC (w # vs)) rs"
    by (auto simp: add_args_EXEC)
  have "peek ''<>'' ?s = (False, ?s)"
    using peek_word_char [OF g(1), of "''<>''"] by (simp add: symbols_def)
  then have "parseredirs (length line) (EXEC []) ?s = Inr (EXEC [], ?s)" by (rule parseredirs_stop)
  moreover have "peek ''('' ?s = (False, ?s)" by (rule peek_paren_simple [OF g(2) assms(3)])
  ultimately have "parseexec (Suc k) (length line) ?s = Some (Inr (c, r))" using c(1) by simp
  with Cons c(2) show ?thesis by (simp add: reads_def)
qed

lemma parser_reads:
  "wf_ex e \<Longrightarrow> suffix (pr_ex e @ r) line \<Longrightarrow> follow ''|)&;'' r \<Longrightarrow> 4 * length (pr_ex e) + 1 \<le> k \<Longrightarrow>
    reads line (parseexec k (length line) (pr_ex e @ r)) r (sem_ex e)"
  "wf_pl p \<Longrightarrow> suffix (pr_pl p @ r) line \<Longrightarrow> follow '')&;'' r \<Longrightarrow> 4 * length (pr_pl p) + 2 \<le> k \<Longrightarrow>
    reads line (parsepipe k (length line) (pr_pl p @ r)) r (sem_pl p)"
  "wf_ln l \<Longrightarrow> suffix (pr_ln l @ r) line \<Longrightarrow> follow '')'' r \<Longrightarrow> 4 * length (pr_ln l) + 3 \<le> k \<Longrightarrow>
    reads line (parseline k (length line) (pr_ln l @ r)) r (sem_ln l)"
proof (induction e and p and l arbitrary: r k and r k and r k)
  case (Simple ws rs)
  then obtain k' where "k = Suc k'" by (cases k) auto
  with reads_Simple Simple.prems show ?case by blast
next
  case (Block l rs)
  obtain k' where k: "k = Suc (Suc k')" "4 * length (pr_ln l) + 3 \<le> k'"
    using Block.prems(4) by (cases k; cases "k - 1") auto
  let ?t = "pr_rds rs @ r" and ?n = "length line"
  have sl: "suffix (pr_ln l @ '')'' @ ?t) line" using Block.prems(2) by (auto simp: suffix_def)
  have st: "suffix ?t line" using sl by (auto simp: suffix_def)
  have fl: "follow '')'' ('')'' @ ?t)" by (simp add: follow_def)
  have "reads line (parseline k' ?n (pr_ln l @ '')'' @ ?t)) ('')'' @ ?t) (sem_ln l)"
    using Block.prems(1) sl k(2) fl by (intro Block.IH) simp_all
  then obtain c where c: "parseline k' ?n (pr_ln l @ '')'' @ ?t) = Some (Inr (c, '')'' @ ?t))"
    "map_cmd (span_str line) c = sem_ln l" by (auto simp: reads_def)
  have rs: "list_all (\<lambda>x. good_word (file_of x)) rs" using Block.prems(1) by simp
  obtain c' where c': "parseredirs ?n c ?t = Inr (c', r)"
    "map_cmd (span_str line) c' = foldl sem_rd (sem_ln l) rs"
    using parseredirs_printed [OF st Block.prems(3) rs, of c] c(2) by auto
  have l: "dropWhile is_space (pr_ln l @ '')'' @ ?t) = pr_ln l @ '')'' @ ?t"
    using Block.prems(1) by (intro lead_ln) (simp_all add: follow_def)
  have g: "gettoken (CHR ''('' # pr_ln l @ '')'' @ ?t) = (CHR ''('', CHR ''('' # pr_ln l @ '')'' @ ?t, pr_ln l @ '')'' @ ?t, pr_ln l @ '')'' @ ?t)"
    using l by (simp add: gettoken_symbol)
  have g2: "gettoken (CHR '')'' # ?t) = (CHR '')'', CHR '')'' # ?t, ?t, ?t)"
    using dropWhile_pr_rds [OF Block.prems(3)] by (simp add: gettoken_symbol)
  show ?case using c c' g g2 k(1) by (simp add: reads_def peek_hd is_space_simps)
next
  case (Pone e)
  obtain k' where k: "k = Suc k'" "4 * length (pr_ex e) + 1 \<le> k'" using Pone.prems(4) by (cases k) auto
  have f: "follow ''|)&;'' r" by (rule follow_mono [OF Pone.prems(3)]) auto
  have "reads line (parseexec k' (length line) (pr_ex e @ r)) r (sem_ex e)"
    using Pone.prems f k(2) by (intro Pone.IH) simp_all
  moreover have "\<not> (r \<noteq> [] \<and> hd r \<in> set ''|'')" using Pone.prems(3) by (auto simp: follow_def)
  then have "peek ''|'' r = (False, r)" using peek_follow [OF f, of "''|''"] by simp
  ultimately show ?case using k(1) by (auto simp: reads_def)
next
  case (Pcons e p)
  obtain k' where k: "k = Suc k'" "4 * length (pr_ex e) + 1 \<le> k'" "4 * length (pr_pl p) + 2 \<le> k'"
    using Pcons.prems(4) by (cases k) auto
  let ?t = "pr_pl p @ r" and ?n = "length line"
  have se: "suffix (pr_ex e @ ''| '' @ ?t) line" using Pcons.prems(2) by simp
  have st: "suffix ?t line" using se by (auto simp: suffix_def)
  have "reads line (parseexec k' ?n (pr_ex e @ ''| '' @ ?t)) (''| '' @ ?t) (sem_ex e)"
    using Pcons.prems(1) se k(2) by (intro Pcons.IH(1)) (simp_all add: follow_def)
  moreover have "reads line (parsepipe k' ?n ?t) r (sem_pl p)"
    using Pcons.prems(1,3) st k(3) by (intro Pcons.IH(2)) simp_all
  moreover have "dropWhile is_space ?t = ?t"
    using Pcons.prems(1) follow_mono [OF Pcons.prems(3), of "''|)&;''"] by (intro lead_pl) auto
  then have "gettoken (CHR ''|'' # CHR '' '' # ?t) = (CHR ''|'', CHR ''|'' # CHR '' '' # ?t, CHR '' '' # ?t, ?t)"
    by (simp add: gettoken_symbol is_space_simps)
  ultimately show ?case using k(1) by (auto simp: reads_def peek_hd is_space_simps)
next
  case (Lend p j)
  obtain k' where k: "k = Suc k'" "4 * length (pr_pl p) + 2 \<le> k'" using Lend.prems(4) by (cases k) auto
  have f: "follow '')&;'' (replicate j (CHR ''&'') @ r)" "follow '');'' r" "follow ''|)&;'' r"
    using Lend.prems(3) by (cases j; auto simp: follow_def)+
  have "reads line (parsepipe k' (length line) (pr_pl p @ replicate j (CHR ''&'') @ r)) (replicate j (CHR ''&'') @ r) (sem_pl p)"
    using Lend.prems(1,2) f(1) k(2) by (intro Lend.IH) simp_all
  moreover have "\<not> (r \<noteq> [] \<and> hd r \<in> set '';'')" using Lend.prems(3) by (auto simp: follow_def)
  then have "peek '';'' r = (False, r)" using peek_follow [OF f(3), of "'';''"] by simp
  ultimately show ?case using k(1) parseback_printed [OF f(2)] by (auto simp: reads_def)
next
  case (Lseq p j l)
  obtain k' where k: "k = Suc k'" "4 * length (pr_pl p) + 2 \<le> k'" "4 * length (pr_ln l) + 3 \<le> k'"
    using Lseq.prems(4) by (cases k) auto
  let ?t = "pr_ln l @ r" and ?n = "length line"
  let ?s = "''; '' @ ?t"
  have sp: "suffix (pr_pl p @ replicate j (CHR ''&'') @ ?s) line" using Lseq.prems(2) by simp
  have st: "suffix ?t line" using sp by (auto simp: suffix_def)
  have f: "follow '')&;'' (replicate j (CHR ''&'') @ ?s)" "follow '');'' ?s" "follow ''|)&;'' r"
    using Lseq.prems(3) by (cases j; auto simp: follow_def)+
  have "reads line (parsepipe k' ?n (pr_pl p @ replicate j (CHR ''&'') @ ?s)) (replicate j (CHR ''&'') @ ?s) (sem_pl p)"
    using Lseq.prems(1) sp f(1) k(2) by (intro Lseq.IH(1)) simp_all
  moreover have "reads line (parseline k' ?n ?t) r (sem_ln l)"
    using Lseq.prems(1,3) st k(3) by (intro Lseq.IH(2)) simp_all
  moreover have "dropWhile is_space ?t = ?t" using Lseq.prems(1) f(3) by (intro lead_ln) simp_all
  then have "gettoken (CHR '';'' # CHR '' '' # ?t) = (CHR '';'', CHR '';'' # CHR '' '' # ?t, CHR '' '' # ?t, ?t)"
    by (simp add: gettoken_symbol is_space_simps)
  ultimately show ?case using k(1) parseback_printed [OF f(2)] by (auto simp: reads_def peek_hd is_space_simps)
qed

lemma nul_free_pr:
  "wf_ex e \<Longrightarrow> nul_free (pr_ex e)"
  "wf_pl p \<Longrightarrow> nul_free (pr_pl p)"
  "wf_ln l \<Longrightarrow> nul_free (pr_ln l)"
proof (induction e and p and l)
  have rd: "nul_free (pr_rds rs)" if "list_all (\<lambda>x. good_word (file_of x)) rs" for rs
    using that
  proof (induction rs)
    case (Cons x rs)
    then show ?case by (cases x) (auto simp: nul_free_def good_word_def)
  qed (simp add: nul_free_def)
  have wd: "nul_free (pr_words ws)" if "list_all good_word ws" for ws
    using that by (induction ws) (auto simp: nul_free_def good_word_def)
  { case (Simple ws rs) then show ?case using rd wd by (auto simp: nul_free_def) }
  { case (Block l rs) then show ?case using rd by (auto simp: nul_free_def) }
qed (auto simp: nul_free_def)

section \<open>Properties\<close>

text \<open>
  C9. Print and parse: for every command line of the shell's grammar (words, the three redirections, pipes, lists,
  background commands and parenthesised blocks, nested to any depth) the parser accepts the printed line, and the tree
  it builds, with its words read back from the buffer \<^verbatim>\<open>nulterminate\<close> leaves, is the command that was printed.
\<close>

theorem parsecmd_print:
  assumes "wf_ln l"
  shows "\<exists>c buf. parsecmd (pr_ln l) = Some (Inr (c, buf)) \<and> map_cmd (word_at buf) c = sem_ln l"
proof -
  let ?line = "pr_ln l"
  have "reads ?line (parseline (4 * length ?line + 4) (length ?line) (?line @ [])) [] (sem_ln l)"
    using assms by (intro parser_reads(3)) (simp_all add: follow_def)
  then obtain c where c: "parseline (4 * length ?line + 4) (length ?line) ?line = Some (Inr (c, []))"
    "map_cmd (span_str ?line) c = sem_ln l" by (auto simp: reads_def)
  let ?buf = "nulterminate c (?line @ [NUL])"
  have p: "parsecmd ?line = Some (Inr (c, ?buf))" using c(1) by (simp add: parsecmd_def peek_def)
  then have w: "set_cmd c \<subseteq> words ?line" using parsecmd_total [of ?line] by auto
  have "map_cmd (word_at ?buf) c = map_cmd (span_str ?line) c"
    using words_isolated [OF nul_free_pr(3) [OF assms] w] by (intro cmd.map_cong0) (simp add: span_str_def)
  with p c(2) show ?thesis by auto
qed

theorem parsecmd_print_witness:
  "\<exists>c buf. parsecmd ''(cat < in | wc )> out &; ls '' = Some (Inr (c, buf)) \<and>
    map_cmd (word_at buf) c =
      LIST (BACK (REDIR (PIPE (REDIR (EXEC [''cat'']) ''in'' 0 0) (EXEC [''wc''])) ''out'' 513 1)) (EXEC [''ls''])"
proof -
  let ?l = "Lseq (Pone (Block (Lend (Pcons (Simple [''cat''] [In ''in'']) (Pone (Simple [''wc''] []))) 0) [Out ''out''])) 1
    (Lend (Pone (Simple [''ls''] [])) 0)"
  have "wf_ln ?l" by code_simp
  moreover have "pr_ln ?l = ''(cat < in | wc )> out &; ls ''" by code_simp
  moreover have "sem_ln ?l =
      LIST (BACK (REDIR (PIPE (REDIR (EXEC [''cat'']) ''in'' 0 0) (EXEC [''wc''])) ''out'' 513 1)) (EXEC [''ls''])"
    by code_simp
  ultimately show ?thesis using parsecmd_print [of ?l] by simp
qed

end
