(* ===== verification/Directory.thy ===== *)
theory Directory
  imports Inode C_Strings
begin

text \<open>
  The directory layer and the path names of \<^verbatim>\<open>fs.c\<close>. A directory is a file of 16-byte entries: an inode number,
  zero in a free entry, and a name of up to 14 bytes, which a NUL ends only if it is shorter.
\<close>

section \<open>Directory entries\<close>

abbreviation (input) DIRSIZ :: nat where
  "DIRSIZ \<equiv> 14"

abbreviation (input) ROOTINO :: nat where
  "ROOTINO \<equiv> 1"

record dirent =
  d_inum :: nat
  d_name :: buffer

definition dirent_bytes :: "dirent \<Rightarrow> string" where
  "dirent_bytes de = le_bytes 2 (d_inum de) @ d_name de"

definition bytes_dirent :: "string \<Rightarrow> dirent" where
  "bytes_dirent bs = \<lparr>d_inum = get_le 2 0 bs, d_name = drop 2 bs\<rparr>"

text \<open>The two name buffers that the string routines work on, at addresses 0 and 64.\<close>

definition two_names :: "buffer \<Rightarrow> buffer \<Rightarrow> mem" where
  "two_names s t = (\<lambda>a. if a < 64 then (if a < length s then s ! a else NUL)
     else if a - 64 < length t then t ! (a - 64) else NUL)"

definition namecmp :: "buffer \<Rightarrow> buffer \<Rightarrow> int" where
  "namecmp s t = strncmp (two_names s t) 0 64 DIRSIZ"

text \<open>The name field after \<^verbatim>\<open>strncpy(de.name, name, DIRSIZ)\<close>.\<close>

definition name_field :: "buffer \<Rightarrow> buffer \<Rightarrow> buffer" where
  "name_field name field = map (strncpy (two_names name field) 64 0 DIRSIZ) [64..<64 + DIRSIZ]"

section \<open>The size of an inode\<close>

text \<open>Reading never changes the size of an inode, so the loops over a directory end.\<close>

lemma isize_set_addrs:
  "isize (inode_at (set_inode i ((inode_at f i)\<lparr>addrs := as\<rparr>) f) j) = isize (inode_at f j)"
  by (cases "i < length (icache f)"; cases "j = i") (simp_all add: set_inode_def list_update_beyond)

lemma balloc_icache: "balloc f = Inr (b, f') \<Longrightarrow> icache f' = icache f"
  using balloc_from_Inr [of f 0 b f'] log_block_Inr(3) by (fastforce simp: balloc_def andthen_Inr_iff bzero_def Let_def)

lemma bmap_isize:
  assumes "bmap i bn f = Inr (a, f')"
  shows "isize (inode_at f' j) = isize (inode_at f j)"
proof -
  have grow: "isize (inode_at f' j) = isize (inode_at f j)"
    if "andthen (balloc f) (\<lambda>(a, f1).
      Inr (a, set_inode i ((inode_at f1 i)\<lparr>addrs := (addrs (inode_at f1 i))[k := a]\<rparr>) f1)) = Inr (a, f')" for k f a f'
    using that isize_set_addrs by (fastforce simp: andthen_Inr_iff dest: balloc_icache)
  consider (direct) "bn < NDIRECT" | (indirect) "\<not> bn < NDIRECT" "bn - NDIRECT < NINDIRECT"
    using assms by (auto simp: bmap_def split: if_splits)
  then show ?thesis
  proof cases
    case direct
    with assms grow show ?thesis by (auto simp: bmap_def split: if_splits)
  next
    case indirect
    obtain ind f1 where f1: "(if addrs (inode_at f i) ! NDIRECT = 0
         then andthen (balloc f) (\<lambda>(a, f1).
                Inr (a, set_inode i ((inode_at f1 i)\<lparr>addrs := (addrs (inode_at f1 i))[NDIRECT := a]\<rparr>) f1))
         else Inr (addrs (inode_at f i) ! NDIRECT, f)) = Inr (ind, f1)"
      and f': "(let a = get_le 4 (4 * (bn - NDIRECT)) (block_at f1 ind)
           in if a = 0
             then andthen (balloc f1) (\<lambda>(a1, f2).
                    andthen (log_block ind (put_le 4 (4 * (bn - NDIRECT)) a1 (block_at f1 ind)) f2) (\<lambda>f3. Inr (a1, f3)))
             else Inr (a, f1)) = Inr (a, f')"
      using assms indirect by (simp only: bmap_def if_False if_True andthen_Inr_iff) auto
    have "icache f' = icache f1"
      using f' by (auto simp: Let_def andthen_Inr_iff dest!: balloc_icache log_block_Inr(3) split: if_splits)
    moreover have "isize (inode_at f1 j) = isize (inode_at f j)" using f1 grow by (auto split: if_splits)
    ultimately show ?thesis by simp
  qed
qed

lemma readi_loop_isize: "readi_loop i off n f = Inr (bs, f') \<Longrightarrow> isize (inode_at f' j) = isize (inode_at f j)"
proof (induction n arbitrary: off f bs rule: less_induct)
  case (less n)
  show ?case
  proof (cases "n = 0")
    case True
    with less.prems show ?thesis by (subst (asm) readi_loop.simps) simp
  next
    case False
    with less.prems obtain a f1 rest where b: "bmap i (off div BSIZE) f = Inr (a, f1)"
      and r: "readi_loop i (off + chunk off n) (n - chunk off n) f1 = Inr (rest, f')"
      by (subst (asm) readi_loop.simps) (auto simp: andthen_Inr_iff Let_def)
    have "n - chunk off n < n" using False chunk_pos [of n off] by simp
    from less.IH [OF this r] bmap_isize [OF b] show ?thesis by simp
  qed
qed

lemma readi_isize: "readi i off n f = Inr (r, bs, f') \<Longrightarrow> isize (inode_at f' j) = isize (inode_at f j)"
  by (auto simp: readi_def andthen_Inr_iff Let_def readi_loop_isize split: if_splits option.splits prod.splits)

lemma readi_isizes: "readi i off n f = Inr (r, bs, f') \<Longrightarrow> \<forall>j. isize (inode_at f' j) = isize (inode_at f j)"
  by (simp add: readi_isize)

section \<open>Looking up and adding names\<close>

text \<open>\<^verbatim>\<open>readi(dp, &de, off, sizeof(de)) != sizeof(de)\<close> panics.\<close>

definition read_dirent :: "nat \<Rightarrow> nat \<Rightarrow> fs \<Rightarrow> fault + (dirent \<times> fs)" where
  "read_dirent dp off f =
     andthen (readi dp off 16 f) (\<lambda>(r, bs, f1).
       if r \<noteq> 16 then Inl (Panic ''dirlink read'') else Inr (bytes_dirent bs, f1))"

lemma read_dirent_isize: "read_dirent dp off f = Inr (de, f') \<Longrightarrow> \<forall>j. isize (inode_at f' j) = isize (inode_at f j)"
  by (auto simp: read_dirent_def andthen_Inr_iff readi_isize split: if_splits)

function dirlookup_from :: "nat \<Rightarrow> buffer \<Rightarrow> nat \<Rightarrow> fs \<Rightarrow> fault + ((nat \<times> nat) option \<times> fs)" where
  "dirlookup_from dp name off f =
     (if off < isize (inode_at f dp)
      then andthen (read_dirent dp off f) (\<lambda>(de, f1).
        if d_inum de = 0 then dirlookup_from dp name (off + 16) f1
        else if namecmp name (d_name de) = 0
        then andthen (iget (idev (inode_at f1 dp)) (d_inum de) f1) (\<lambda>(ip, f2). Inr (Some (ip, off), f2))
        else dirlookup_from dp name (off + 16) f1)
      else Inr (None, f))"
  by pat_completeness auto
termination
  by (relation "measure (\<lambda>(dp, name, off, f). isize (inode_at f dp) - off)") (auto dest: read_dirent_isize)

declare dirlookup_from.simps [simp del]

text \<open>The result is the inode and the offset of its entry, which the source stores through \<^verbatim>\<open>poff\<close>.\<close>

definition dirlookup :: "nat \<Rightarrow> buffer \<Rightarrow> fs \<Rightarrow> fault + ((nat \<times> nat) option \<times> fs)" where
  "dirlookup dp name f =
     (if itype (inode_at f dp) \<noteq> T_DIR then Inl (Panic ''dirlookup not DIR'') else dirlookup_from dp name 0 f)"

text \<open>The second loop of \<^verbatim>\<open>dirlink\<close>: the first free entry or the end, and the entry that was read last.\<close>

function free_dirent :: "nat \<Rightarrow> nat \<Rightarrow> buffer \<Rightarrow> fs \<Rightarrow> fault + (nat \<times> buffer \<times> fs)" where
  "free_dirent dp off field f =
     (if off < isize (inode_at f dp)
      then andthen (read_dirent dp off f) (\<lambda>(de, f1).
        if d_inum de = 0 then Inr (off, d_name de, f1) else free_dirent dp (off + 16) (d_name de) f1)
      else Inr (off, field, f))"
  by pat_completeness auto
termination
  by (relation "measure (\<lambda>(dp, off, field, f). isize (inode_at f dp) - off)") (auto dest: read_dirent_isize)

declare free_dirent.simps [simp del]

definition dirlink :: "nat \<Rightarrow> buffer \<Rightarrow> nat \<Rightarrow> fs \<Rightarrow> fault + (int \<times> fs)" where
  "dirlink dp name n f =
     andthen (dirlookup dp name f) (\<lambda>(r, f1).
       case r of
         Some (ip, _) \<Rightarrow> andthen (iput ip f1) (\<lambda>f2. Inr (- 1, f2))
       | None \<Rightarrow>
           andthen (free_dirent dp 0 (replicate DIRSIZ NUL) f1) (\<lambda>(off, field, f2).
           andthen (writei dp (dirent_bytes \<lparr>d_inum = n, d_name = name_field name field\<rparr>) off f2) (\<lambda>(w, f3).
             if w \<noteq> 16 then Inl (Panic ''dirlink'') else Inr (0, f3))))"

section \<open>Path names\<close>

text \<open>
  A path is the rest of the string from the pointer to its NUL; \<open>None\<close> is the null pointer. The name is a buffer of
  \<^verbatim>\<open>DIRSIZ\<close> bytes.
\<close>

definition skipelem :: "string \<Rightarrow> buffer \<Rightarrow> (string \<times> buffer) option" where
  "skipelem path name =
     (let s = dropWhile (\<lambda>c. c = CHR ''/'') path
      in if s = [] then None
        else let el = takeWhile (\<lambda>c. c \<noteq> CHR ''/'') s;
               rest = dropWhile (\<lambda>c. c \<noteq> CHR ''/'') s;
               len = length el;
               name1 = (if len \<ge> DIRSIZ then take DIRSIZ el @ drop DIRSIZ name
                 else (take len el @ drop len name)[len := NUL])
          in Some (dropWhile (\<lambda>c. c = CHR ''/'') rest, name1))"

lemma skipelem_shorter: "skipelem path name = Some (path', name') \<Longrightarrow> length path' < length path"
proof -
  let ?s = "dropWhile (\<lambda>c. c = CHR ''/'') path"
  assume "skipelem path name = Some (path', name')"
  then have ne: "?s \<noteq> []" and p: "path' = dropWhile (\<lambda>c. c = CHR ''/'') (dropWhile (\<lambda>c. c \<noteq> CHR ''/'') ?s)"
    by (auto simp: skipelem_def Let_def split: if_splits)
  obtain c t where s: "?s = c # t" using ne by (cases ?s) auto
  then have "c \<noteq> CHR ''/''" by (metis (mono_tags, lifting) hd_dropWhile list.distinct(1) list.sel(1))
  then have "path' = dropWhile (\<lambda>c. c = CHR ''/'') (dropWhile (\<lambda>c. c \<noteq> CHR ''/'') t)" using p s by simp
  then have "length path' \<le> length t" using length_dropWhile_le order_trans by metis
  moreover have "length ?s \<le> length path" by (rule length_dropWhile_le)
  ultimately show ?thesis using s by simp
qed

text \<open>The loop of \<^verbatim>\<open>namex\<close>; \<open>parent\<close> is its argument \<^verbatim>\<open>nameiparent\<close>. It gives the inode and the buffer \<^verbatim>\<open>name\<close>.\<close>

function namex_from :: "nat \<Rightarrow> string \<Rightarrow> bool \<Rightarrow> buffer \<Rightarrow> fs \<Rightarrow> fault + (nat option \<times> buffer \<times> fs)" where
  "namex_from ip path parent name f =
     (case skipelem path name of
        None \<Rightarrow> if parent then andthen (iput ip f) (\<lambda>f1. Inr (None, name, f1)) else Inr (Some ip, name, f)
      | Some (path1, name1) \<Rightarrow>
          andthen (ilock ip f) (\<lambda>f1.
            if itype (inode_at f1 ip) \<noteq> T_DIR then andthen (iunlockput ip f1) (\<lambda>f2. Inr (None, name1, f2))
            else if parent \<and> path1 = [] then andthen (iunlock ip f1) (\<lambda>f2. Inr (Some ip, name1, f2))
            else andthen (dirlookup ip name1 f1) (\<lambda>(r, f2).
              case r of
                None \<Rightarrow> andthen (iunlockput ip f2) (\<lambda>f3. Inr (None, name1, f3))
              | Some (ip1, _) \<Rightarrow> andthen (iunlockput ip f2) (\<lambda>f3. namex_from ip1 path1 parent name1 f3))))"
  by pat_completeness auto
termination
  by (relation "measure (\<lambda>(ip, path, parent, name, f). length path)") (simp, simp, metis skipelem_shorter)

declare namex_from.simps [simp del]

text \<open>\<open>cwd\<close> is \<^verbatim>\<open>proc->cwd\<close>.\<close>

definition namex :: "nat \<Rightarrow> string \<Rightarrow> bool \<Rightarrow> buffer \<Rightarrow> fs \<Rightarrow> fault + (nat option \<times> buffer \<times> fs)" where
  "namex cwd path parent name f =
     (if path \<noteq> [] \<and> hd path = CHR ''/''
      then andthen (iget ROOTDEV ROOTINO f) (\<lambda>(ip, f1). namex_from ip path parent name f1)
      else namex_from cwd path parent name (idup cwd f))"

definition namei :: "nat \<Rightarrow> string \<Rightarrow> fs \<Rightarrow> fault + (nat option \<times> fs)" where
  "namei cwd path f = andthen (namex cwd path False (replicate DIRSIZ NUL) f) (\<lambda>(ip, _, f1). Inr (ip, f1))"

definition nameiparent :: "nat \<Rightarrow> string \<Rightarrow> buffer \<Rightarrow> fs \<Rightarrow> fault + (nat option \<times> buffer \<times> fs)" where
  "nameiparent cwd path name f = namex cwd path True name f"

end
