(* ===== verification/Vm.thy ===== *)
theory Vm
  imports Kalloc Inode
begin

text \<open>
  Virtual memory, \<^verbatim>\<open>vm.c\<close>: page directories and page tables in the memory of the page allocator, and the address
  spaces built from them. Addresses are 32-bit numbers. An entry of a page table is the physical address of a page
  with the flags in its low bits; kernel code reaches a physical address \<open>a\<close> at \<open>p2v a\<close>.
\<close>

section \<open>Page tables\<close>

abbreviation (input) PTE_P :: nat where
  "PTE_P \<equiv> 1"

abbreviation (input) PTE_W :: nat where
  "PTE_W \<equiv> 2"

abbreviation (input) PTE_U :: nat where
  "PTE_U \<equiv> 4"

abbreviation (input) NPDENTRIES :: nat where
  "NPDENTRIES \<equiv> 1024"

abbreviation (input) NPTENTRIES :: nat where
  "NPTENTRIES \<equiv> 1024"

abbreviation (input) EXTMEM :: nat where
  "EXTMEM \<equiv> 0x100000"

abbreviation (input) KERNLINK :: nat where
  "KERNLINK \<equiv> 0x80100000"

abbreviation (input) DEVSPACE :: nat where
  "DEVSPACE \<equiv> 0xFE000000"

definition PDX :: "nat \<Rightarrow> nat" where
  "PDX va = drop_bit 22 va mod 1024"

definition PTX :: "nat \<Rightarrow> nat" where
  "PTX va = drop_bit 12 va mod 1024"

definition PGROUNDDOWN :: "nat \<Rightarrow> nat" where
  "PGROUNDDOWN a = a div PGSIZE * PGSIZE"

definition PTE_ADDR :: "nat \<Rightarrow> nat" where
  "PTE_ADDR e = e div 4096 * 4096"

definition pte_present :: "nat \<Rightarrow> bool" where
  "pte_present e \<longleftrightarrow> e AND PTE_P \<noteq> 0"

definition pte_user :: "nat \<Rightarrow> bool" where
  "pte_user e \<longleftrightarrow> e AND PTE_U \<noteq> 0"

definition p2v :: "nat \<Rightarrow> nat" where
  "p2v a = (a + KERNBASE) mod 2 ^ 32"

abbreviation pte_at :: "kmem \<Rightarrow> nat \<Rightarrow> nat" where
  "pte_at k p \<equiv> load_ptr (k_mem k) p"

definition set_pte :: "nat \<Rightarrow> nat \<Rightarrow> kmem \<Rightarrow> kmem" where
  "set_pte p e k = k\<lparr>k_mem := store_ptr (k_mem k) p e\<rparr>"

text \<open>The address of the entry of \<open>va\<close>, or 0.\<close>

definition walkpgdir :: "nat \<Rightarrow> nat \<Rightarrow> bool \<Rightarrow> kmem \<Rightarrow> nat \<times> kmem" where
  "walkpgdir pgdir va alloc k =
     (let pde = pgdir + 4 * PDX va; e = pte_at k pde
      in if pte_present e then (p2v (PTE_ADDR e) + 4 * PTX va, k)
        else if \<not> alloc then (0, k)
        else case kalloc k of (pgtab, k1) \<Rightarrow>
          if pgtab = 0 then (0, k1)
          else (pgtab + 4 * PTX va,
                set_pte pde (v2p pgtab OR PTE_P OR PTE_W OR PTE_U) (k1\<lparr>k_mem := memset (k_mem k1) pgtab 0 PGSIZE\<rparr>)))"

text \<open>
  The loop of \<^verbatim>\<open>mappages\<close>, with the number of pages behind \<open>a\<close> up to \<^verbatim>\<open>last\<close>: \<open>a\<close> moves by a page, modulo
  \<open>2 ^ 32\<close>, until it is equal to \<^verbatim>\<open>last\<close>.
\<close>

fun mappages_from :: "nat \<Rightarrow> nat \<Rightarrow> nat \<Rightarrow> nat \<Rightarrow> nat \<Rightarrow> kmem \<Rightarrow> fault + (int \<times> kmem)" where
  "mappages_from n pgdir a pa perm k =
     (case walkpgdir pgdir a True k of (pte, k1) \<Rightarrow>
        if pte = 0 then Inr (- 1, k1)
        else if pte_present (pte_at k1 pte) then Inl (Panic ''remap'')
        else let k2 = set_pte pte (pa OR perm OR PTE_P) k1
          in case n of
               0 \<Rightarrow> Inr (0, k2)
             | Suc m \<Rightarrow> mappages_from m pgdir ((a + PGSIZE) mod 2 ^ 32) ((pa + PGSIZE) mod 2 ^ 32) perm k2)"

declare mappages_from.simps [simp del]

definition mappages :: "nat \<Rightarrow> nat \<Rightarrow> nat \<Rightarrow> nat \<Rightarrow> nat \<Rightarrow> kmem \<Rightarrow> fault + (int \<times> kmem)" where
  "mappages pgdir va sz pa perm k =
     (let a = PGROUNDDOWN va; la = PGROUNDDOWN ((va + sz + 2 ^ 32 - 1) mod 2 ^ 32)
      in mappages_from ((la + 2 ^ 32 - a) mod 2 ^ 32 div PGSIZE) pgdir a pa perm k)"

section \<open>The kernel part of an address space\<close>

text \<open>
  The rows of \<^verbatim>\<open>kmap\<close>: virtual address, physical start and end, permissions. The address of the kernel's data is
  chosen by the linker.
\<close>

definition kmap :: "nat \<Rightarrow> (nat \<times> nat \<times> nat \<times> nat) list" where
  "kmap data = [(KERNBASE, 0, EXTMEM, PTE_W), (KERNLINK, v2p KERNLINK, v2p data, 0), (data, v2p data, PHYSTOP, PTE_W),
     (DEVSPACE, DEVSPACE, 0, PTE_W)]"

fun setupkvm_from :: "(nat \<times> nat \<times> nat \<times> nat) list \<Rightarrow> nat \<Rightarrow> kmem \<Rightarrow> fault + (nat \<times> kmem)" where
  "setupkvm_from [] pgdir k = Inr (pgdir, k)"
| "setupkvm_from ((virt, ps, pe, perm) # rows) pgdir k =
     andthen (mappages pgdir virt ((pe + 2 ^ 32 - ps) mod 2 ^ 32) ps perm k) (\<lambda>(r, k1).
       if r < 0 then Inr (0, k1) else setupkvm_from rows pgdir k1)"

definition setupkvm :: "nat \<Rightarrow> kmem \<Rightarrow> fault + (nat \<times> kmem)" where
  "setupkvm data k =
     (case kalloc (k\<lparr>no_of_alloc := 0\<rparr>) of (pgdir, k1) \<Rightarrow>
        if pgdir = 0 then Inr (0, k1)
        else if p2v PHYSTOP > DEVSPACE then Inl (Panic ''PHYSTOP too high'')
        else setupkvm_from (kmap data) pgdir (k1\<lparr>k_mem := memset (k_mem k1) pgdir 0 PGSIZE\<rparr>))"

section \<open>The user part\<close>

definition write_bytes :: "nat \<Rightarrow> string \<Rightarrow> kmem \<Rightarrow> kmem" where
  "write_bytes a bs k = k\<lparr>k_mem := (\<lambda>x. if a \<le> x \<and> x < a + length bs then bs ! (x - a) else k_mem k x)\<rparr>"

definition inituvm :: "nat \<Rightarrow> string \<Rightarrow> kmem \<Rightarrow> fault + kmem" where
  "inituvm pgdir init k =
     (if length init \<ge> PGSIZE then Inl (Panic ''inituvm: more than a page'')
      else case kalloc k of (mem, k1) \<Rightarrow>
        if mem = 0 then Inl (NullPointer ''inituvm: mem'')
        else andthen (mappages pgdir 0 PGSIZE (v2p mem) (PTE_W OR PTE_U) (k1\<lparr>k_mem := memset (k_mem k1) mem 0 PGSIZE\<rparr>))
          (\<lambda>(_, k2). Inr (write_bytes mem init k2)))"

text \<open>The loop of \<^verbatim>\<open>loaduvm\<close> from byte \<open>i\<close> on; the segment comes from the file of inode \<open>ip\<close>.\<close>

function loaduvm_from :: "nat \<Rightarrow> nat \<Rightarrow> nat \<Rightarrow> nat \<Rightarrow> nat \<Rightarrow> nat \<Rightarrow> kmem \<Rightarrow> fs \<Rightarrow> fault + (int \<times> kmem \<times> fs)" where
  "loaduvm_from i pgdir addr ip offset sz k f =
     (if i < sz
      then let pte = fst (walkpgdir pgdir ((addr + i) mod 2 ^ 32) False k)
        in if pte = 0 then Inl (Panic ''loaduvm: address should exist'')
          else let pa = PTE_ADDR (pte_at k pte); n = (if sz - i < PGSIZE then sz - i else PGSIZE)
            in andthen (readi ip ((offset + i) mod 2 ^ 32) n f) (\<lambda>(r, bs, f1).
                 let k1 = write_bytes (p2v pa) bs k
                 in if r \<noteq> int n then Inr (- 1, k1, f1) else loaduvm_from (i + PGSIZE) pgdir addr ip offset sz k1 f1)
      else Inr (0, k, f))"
  by pat_completeness auto
termination
  by (relation "measure (\<lambda>(i, pgdir, addr, ip, offset, sz, k, f). sz - i)") auto

declare loaduvm_from.simps [simp del]

definition loaduvm :: "nat \<Rightarrow> nat \<Rightarrow> nat \<Rightarrow> nat \<Rightarrow> nat \<Rightarrow> kmem \<Rightarrow> fs \<Rightarrow> fault + (int \<times> kmem \<times> fs)" where
  "loaduvm pgdir addr ip offset sz k f =
     (if addr mod PGSIZE \<noteq> 0 then Inl (Panic ''loaduvm: addr must be page aligned'')
      else loaduvm_from 0 pgdir addr ip offset sz k f)"

function deallocuvm_from :: "nat \<Rightarrow> nat \<Rightarrow> nat \<Rightarrow> kmem \<Rightarrow> fault + kmem" where
  "deallocuvm_from a pgdir oldsz k =
     (if a < oldsz
      then let pte = fst (walkpgdir pgdir a False k)
        in if pte = 0 then deallocuvm_from (a + (NPTENTRIES - 1) * PGSIZE + PGSIZE) pgdir oldsz k
          else if pte_present (pte_at k pte)
          then if PTE_ADDR (pte_at k pte) = 0 then Inl (Panic ''kfree'')
            else andthen (kfree (p2v (PTE_ADDR (pte_at k pte))) k) (\<lambda>k1.
              deallocuvm_from (a + PGSIZE) pgdir oldsz (set_pte pte 0 k1))
          else deallocuvm_from (a + PGSIZE) pgdir oldsz k
      else Inr k)"
  by pat_completeness auto
termination
  by (relation "measure (\<lambda>(a, pgdir, oldsz, k). oldsz - a)") auto

declare deallocuvm_from.simps [simp del]

definition deallocuvm :: "nat \<Rightarrow> nat \<Rightarrow> nat \<Rightarrow> kmem \<Rightarrow> fault + (nat \<times> kmem)" where
  "deallocuvm pgdir oldsz newsz k =
     (if newsz \<ge> oldsz then Inr (oldsz, k)
      else andthen (deallocuvm_from (PGROUNDUP newsz) pgdir oldsz k) (\<lambda>k1. Inr (newsz, k1)))"

text \<open>The result of \<^verbatim>\<open>mappages\<close> is not looked at.\<close>

function allocuvm_from :: "nat \<Rightarrow> nat \<Rightarrow> nat \<Rightarrow> nat \<Rightarrow> kmem \<Rightarrow> fault + (nat \<times> kmem)" where
  "allocuvm_from a pgdir oldsz newsz k =
     (if a < newsz
      then case kalloc k of (mem, k1) \<Rightarrow>
        if mem = 0 then andthen (deallocuvm pgdir newsz oldsz k1) (\<lambda>(_, k2). Inr (0, k2))
        else andthen (mappages pgdir a PGSIZE (v2p mem) (PTE_W OR PTE_U) (k1\<lparr>k_mem := memset (k_mem k1) mem 0 PGSIZE\<rparr>))
          (\<lambda>(_, k2). allocuvm_from (a + PGSIZE) pgdir oldsz newsz k2)
      else Inr (newsz, k))"
  by pat_completeness auto
termination
  by (relation "measure (\<lambda>(a, pgdir, oldsz, newsz, k). newsz - a)") auto

declare allocuvm_from.simps [simp del]

definition allocuvm :: "nat \<Rightarrow> nat \<Rightarrow> nat \<Rightarrow> kmem \<Rightarrow> fault + (nat \<times> kmem)" where
  "allocuvm pgdir oldsz newsz k =
     (if newsz \<ge> KERNBASE then Inr (0, k)
      else if newsz < oldsz then Inr (oldsz, k)
      else allocuvm_from (PGROUNDUP oldsz) pgdir oldsz newsz k)"

fun freevm_from :: "nat list \<Rightarrow> nat \<Rightarrow> kmem \<Rightarrow> fault + kmem" where
  "freevm_from [] pgdir k = Inr k"
| "freevm_from (i # is) pgdir k =
     (let e = pte_at k (pgdir + 4 * i)
      in if pte_present e then andthen (kfree (p2v (PTE_ADDR e)) k) (freevm_from is pgdir) else freevm_from is pgdir k)"

definition freevm :: "nat \<Rightarrow> kmem \<Rightarrow> fault + kmem" where
  "freevm pgdir k =
     (if pgdir = 0 then Inl (Panic ''freevm: no pgdir'')
      else andthen (deallocuvm pgdir KERNBASE 0 k) (\<lambda>(_, k1).
           andthen (freevm_from [0..<NPDENTRIES] pgdir k1) (kfree pgdir)))"

definition clearpteu :: "nat \<Rightarrow> nat \<Rightarrow> kmem \<Rightarrow> fault + kmem" where
  "clearpteu pgdir uva k =
     (let pte = fst (walkpgdir pgdir uva False k)
      in if pte = 0 then Inl (Panic ''clearpteu'')
        else let e = pte_at k pte in Inr (set_pte pte (if pte_user e then e - PTE_U else e) k))"

function copyuvm_from :: "nat \<Rightarrow> nat \<Rightarrow> nat \<Rightarrow> nat \<Rightarrow> kmem \<Rightarrow> fault + (nat \<times> kmem)" where
  "copyuvm_from i pgdir sz d k =
     (if i < sz
      then let pte = fst (walkpgdir pgdir i False k)
        in if pte = 0 then Inl (Panic ''copyuvm: pte should exist'')
          else if \<not> pte_present (pte_at k pte) then Inl (Panic ''copyuvm: page not present'')
          else let pa = PTE_ADDR (pte_at k pte)
            in case kalloc k of (mem, k1) \<Rightarrow>
              if mem = 0 then andthen (freevm d k1) (\<lambda>k2. Inr (0, k2))
              else andthen (mappages d i PGSIZE (v2p mem) (PTE_W OR PTE_U)
                     (k1\<lparr>k_mem := memmove (k_mem k1) mem (p2v pa) PGSIZE\<rparr>))
                (\<lambda>(r, k2). if r < 0 then andthen (freevm d k2) (\<lambda>k3. Inr (0, k3)) else copyuvm_from (i + PGSIZE) pgdir sz d k2)
      else Inr (d, k))"
  by pat_completeness auto
termination
  by (relation "measure (\<lambda>(i, pgdir, sz, d, k). sz - i)") auto

declare copyuvm_from.simps [simp del]

definition copyuvm :: "nat \<Rightarrow> nat \<Rightarrow> nat \<Rightarrow> kmem \<Rightarrow> fault + (nat \<times> kmem)" where
  "copyuvm data pgdir sz k =
     andthen (setupkvm data k) (\<lambda>(d, k1). if d = 0 then Inr (0, k1) else copyuvm_from 0 pgdir sz d k1)"

text \<open>\<^verbatim>\<open>uva2ka\<close> reads \<^verbatim>\<open>*pte\<close> without testing the pointer.\<close>

definition uva2ka :: "nat \<Rightarrow> nat \<Rightarrow> kmem \<Rightarrow> fault + nat" where
  "uva2ka pgdir uva k =
     (let pte = fst (walkpgdir pgdir uva False k)
      in if pte = 0 then Inl (NullPointer ''uva2ka: pte'')
        else let e = pte_at k pte
          in if \<not> pte_present e then Inr 0 else if \<not> pte_user e then Inr 0 else Inr (p2v (PTE_ADDR e)))"

function copyout :: "nat \<Rightarrow> nat \<Rightarrow> string \<Rightarrow> kmem \<Rightarrow> fault + (int \<times> kmem)" where
  "copyout pgdir va buf k =
     (if buf = [] then Inr (0, k)
      else let va0 = PGROUNDDOWN va
        in andthen (uva2ka pgdir va0 k) (\<lambda>pa0.
             if pa0 = 0 then Inr (- 1, k)
             else let n = min (PGSIZE - (va - va0)) (length buf)
               in copyout pgdir ((va0 + PGSIZE) mod 2 ^ 32) (drop n buf) (write_bytes (pa0 + (va - va0)) (take n buf) k)))"
  by pat_completeness auto
termination
proof (relation "measure (\<lambda>(pgdir, va, buf, k). length buf)")
  fix pgdir va :: nat and buf :: string and k x n va0
  assume "buf \<noteq> []" "n = min (PGSIZE - (va - va0)) (length buf)" "va0 = PGROUNDDOWN va"
  moreover have "va - PGROUNDDOWN va < PGSIZE"
    unfolding PGROUNDDOWN_def by (simp add: minus_div_mult_eq_mod)
  ultimately show "((pgdir, (va0 + PGSIZE) mod 2 ^ 32, drop n buf, write_bytes (x + (va - va0)) (take n buf) k), pgdir, va, buf, k)
      \<in> measure (\<lambda>(pgdir, va, buf, k). length buf)"
    by (cases buf) auto
qed simp

declare copyout.simps [simp del]

end
