(* ===== verification/File.thy ===== *)
theory File
  imports Directory Pipe Vm
begin

text \<open>
  \<^verbatim>\<open>file.c\<close> and the allocation of pipes in \<^verbatim>\<open>pipe.c\<close>: the table of open files, which are pipes or inodes. A
  \<^verbatim>\<open>struct file *\<close> is the index of its entry in \<^verbatim>\<open>ftable.file\<close>, a \<^verbatim>\<open>struct pipe *\<close> the address of its page.
\<close>

section \<open>The table of open files\<close>

datatype fd_type = FD_NONE | FD_PIPE | FD_INODE

record kfile =
  fd_type :: fd_type
  fd_ref :: int
  readable :: bool
  writable :: bool
  fd_pipe :: nat
  fd_ip :: nat
  fd_off :: nat

abbreviation (input) NFILE :: nat where
  "NFILE \<equiv> 100"

text \<open>
  The file system, the open files, the pipes by their address, the free pages, and the channels that have been woken
  up, the last one first.
\<close>

record kfs =
  k_fs :: fs
  ftable :: "kfile list"
  pipes :: "nat \<Rightarrow> pipe"
  pages :: kmem
  woken :: "(nat \<times> chan) list"

abbreviation file_at :: "kfs \<Rightarrow> nat \<Rightarrow> kfile" where
  "file_at k i \<equiv> ftable k ! i"

definition set_file :: "nat \<Rightarrow> kfile \<Rightarrow> kfs \<Rightarrow> kfs" where
  "set_file i fl k = k\<lparr>ftable := (ftable k)[i := fl]\<rparr>"

text \<open>A step of the file system, and a transaction around one.\<close>

definition on_fs :: "(fs \<Rightarrow> fault + ('a \<times> fs)) \<Rightarrow> kfs \<Rightarrow> fault + ('a \<times> kfs)" where
  "on_fs op k = andthen (op (k_fs k)) (\<lambda>(r, f). Inr (r, k\<lparr>k_fs := f\<rparr>))"

definition begin_op :: "fs \<Rightarrow> fault + fs" where
  "begin_op f = (case begin_trans (f_log f) of None \<Rightarrow> Inl (Sleeps ''log'') | Some lg \<Rightarrow> Inr (f\<lparr>f_log := lg\<rparr>))"

definition end_op :: "fs \<Rightarrow> fault + fs" where
  "end_op f = andthen (commit_trans (f_log f) (f_store f)) (\<lambda>(lg, st). Inr (f\<lparr>f_log := lg, f_store := st\<rparr>))"

fun free_slot :: "kfile list \<Rightarrow> nat option" where
  "free_slot [] = None"
| "free_slot (fl # fls) = (if fd_ref fl = 0 then Some 0 else map_option Suc (free_slot fls))"

definition filealloc :: "kfs \<Rightarrow> nat option \<times> kfs" where
  "filealloc k =
     (case free_slot (ftable k) of
        None \<Rightarrow> (None, k)
      | Some i \<Rightarrow> (Some i, set_file i ((file_at k i)\<lparr>fd_ref := 1\<rparr>) k))"

definition filedup :: "nat \<Rightarrow> kfs \<Rightarrow> fault + kfs" where
  "filedup i k =
     (if fd_ref (file_at k i) < 1 then Inl (Panic ''filedup'')
      else Inr (set_file i ((file_at k i)\<lparr>fd_ref := fd_ref (file_at k i) + 1\<rparr>) k))"

text \<open>\<^verbatim>\<open>pipeclose\<close> on the pipe at address \<open>p\<close>, which frees its page when both ends are closed.\<close>

definition close_pipe :: "nat \<Rightarrow> bool \<Rightarrow> kfs \<Rightarrow> fault + kfs" where
  "close_pipe p wr k =
     (case pipeclose wr (pipes k p) of (chs, freed, p1) \<Rightarrow>
        let k1 = k\<lparr>pipes := (pipes k)(p := p1), woken := rev (map (Pair p) chs) @ woken k\<rparr>
        in if freed then andthen (kfree p (pages k1)) (\<lambda>m. Inr (k1\<lparr>pages := m\<rparr>)) else Inr k1)"

definition fileclose :: "nat \<Rightarrow> kfs \<Rightarrow> fault + kfs" where
  "fileclose i k =
     (let ff = file_at k i
      in if fd_ref ff < 1 then Inl (Panic ''fileclose'')
        else if fd_ref ff - 1 > 0 then Inr (set_file i (ff\<lparr>fd_ref := fd_ref ff - 1\<rparr>) k)
        else let k1 = set_file i (ff\<lparr>fd_ref := 0, fd_type := FD_NONE\<rparr>) k
          in case fd_type ff of
               FD_PIPE \<Rightarrow> close_pipe (fd_pipe ff) (writable ff) k1
             | FD_INODE \<Rightarrow>
                 andthen (begin_op (k_fs k1)) (\<lambda>f1.
                 andthen (iput (fd_ip ff) f1) (\<lambda>f2.
                 andthen (end_op f2) (\<lambda>f3. Inr (k1\<lparr>k_fs := f3\<rparr>))))
             | FD_NONE \<Rightarrow> Inr k1)"

definition filestat :: "nat \<Rightarrow> kfs \<Rightarrow> fault + (int \<times> stat option \<times> kfs)" where
  "filestat i k =
     (let fl = file_at k i
      in if fd_type fl = FD_INODE
        then andthen (ilock (fd_ip fl) (k_fs k)) (\<lambda>f1.
             andthen (iunlock (fd_ip fl) f1) (\<lambda>f2. Inr (0, Some (stati (fd_ip fl) f1), k\<lparr>k_fs := f2\<rparr>)))
        else Inr (- 1, None, k))"

section \<open>Reading and writing\<close>

definition add_off :: "nat \<Rightarrow> int \<Rightarrow> kfs \<Rightarrow> kfs" where
  "add_off i r k =
     (if r > 0 then set_file i ((file_at k i)\<lparr>fd_off := nat ((int (fd_off (file_at k i)) + r) mod 2 ^ 32)\<rparr>) k else k)"

text \<open>
  \<^verbatim>\<open>fileread\<close> ends by returning a value or, on an empty pipe, by going to sleep; with it come the bytes that were
  put at \<^verbatim>\<open>addr\<close>. \<open>killed\<close> is \<^verbatim>\<open>proc->killed\<close>. A negative count reaches \<^verbatim>\<open>readi\<close> as an unsigned number.
\<close>

definition fileread :: "bool \<Rightarrow> nat \<Rightarrow> int \<Rightarrow> kfs \<Rightarrow> fault + (outcome \<times> string \<times> kfs)" where
  "fileread killed i n k =
     (let fl = file_at k i
      in if \<not> readable fl then Inr (Return (- 1), [], k)
        else case fd_type fl of
          FD_PIPE \<Rightarrow>
            (case piperead killed (nat n) (pipes k (fd_pipe fl)) of (res, bs, chs, p1) \<Rightarrow>
               Inr (res, bs, k\<lparr>pipes := (pipes k)(fd_pipe fl := p1), woken := rev (map (Pair (fd_pipe fl)) chs) @ woken k\<rparr>))
        | FD_INODE \<Rightarrow>
            andthen (ilock (fd_ip fl) (k_fs k)) (\<lambda>f1.
            andthen (readi (fd_ip fl) (fd_off fl) (nat (n mod 2 ^ 32)) f1) (\<lambda>(r, bs, f2).
            andthen (iunlock (fd_ip fl) f2) (\<lambda>f3.
              Inr (Return r, bs, add_off i r (k\<lparr>k_fs := f3\<rparr>)))))
        | FD_NONE \<Rightarrow> Inl (Panic ''fileread''))"

text \<open>The largest number of bytes that \<^verbatim>\<open>filewrite\<close> writes in one transaction.\<close>

definition max_write :: nat where
  "max_write = (LOGSIZE - 1 - 1 - 2) div 2 * 512"

text \<open>One round of the loop: a transaction that writes \<open>src\<close> at the offset of the file.\<close>

definition write_round :: "nat \<Rightarrow> string \<Rightarrow> kfs \<Rightarrow> fault + (int \<times> kfs)" where
  "write_round i src k =
     (let ip = fd_ip (file_at k i)
      in andthen (begin_op (k_fs k)) (\<lambda>f1.
         andthen (ilock ip f1) (\<lambda>f2.
         andthen (writei ip src (fd_off (file_at k i)) f2) (\<lambda>(r, f3).
         andthen (iunlock ip f3) (\<lambda>f4.
         andthen (end_op f4) (\<lambda>f5. Inr (r, add_off i r (k\<lparr>k_fs := f5\<rparr>))))))))"

lemma max_write_pos [simp]: "0 < max_write"
  by (simp add: max_write_def)

text \<open>The loop over the bytes that are left; the result is whether all were written.\<close>

function filewrite_loop :: "nat \<Rightarrow> string \<Rightarrow> kfs \<Rightarrow> fault + (bool \<times> kfs)" where
  "filewrite_loop i src k =
     (if src = [] then Inr (True, k)
      else let n1 = min (length src) max_write
        in andthen (write_round i (take n1 src) k) (\<lambda>(r, k1).
             if r < 0 then Inr (False, k1)
             else if r \<noteq> int n1 then Inl (Panic ''short filewrite'')
             else filewrite_loop i (drop n1 src) k1))"
  by pat_completeness auto
termination
  by (relation "measure (\<lambda>(i, src, k). length src)") auto

declare filewrite_loop.simps [simp del]

text \<open>\<open>src\<close> are the bytes at \<^verbatim>\<open>addr\<close>, as many as the count \<open>n\<close> says; none for a negative count.\<close>

definition filewrite :: "bool \<Rightarrow> nat \<Rightarrow> int \<Rightarrow> string \<Rightarrow> kfs \<Rightarrow> fault + (outcome \<times> kfs)" where
  "filewrite killed i n src k =
     (let fl = file_at k i
      in if \<not> writable fl then Inr (Return (- 1), k)
        else case fd_type fl of
          FD_PIPE \<Rightarrow>
            (case pipewrite_loop killed n (take (nat n) src) (pipes k (fd_pipe fl)) of (res, chs, p1) \<Rightarrow>
               Inr (res, k\<lparr>pipes := (pipes k)(fd_pipe fl := p1), woken := rev (map (Pair (fd_pipe fl)) chs) @ woken k\<rparr>))
        | FD_INODE \<Rightarrow>
            andthen (filewrite_loop i (take (nat n) src) k) (\<lambda>(all, k1). Inr (Return (if all \<and> 0 \<le> n then n else - 1), k1))
        | FD_NONE \<Rightarrow> Inl (Panic ''filewrite''))"

section \<open>Pipes\<close>

text \<open>The ring buffer lies behind the spin lock of 52 bytes in the page of the pipe.\<close>

definition new_pipe :: "nat \<Rightarrow> kmem \<Rightarrow> pipe" where
  "new_pipe p m = pipe_init (map (k_mem m) [p + 52..<p + 52 + PIPESIZE])"

definition pipealloc :: "kfs \<Rightarrow> fault + ((nat \<times> nat) option \<times> kfs)" where
  "pipealloc k =
     (case filealloc k of
        (None, k1) \<Rightarrow> Inr (None, k1)
      | (Some f0, k1) \<Rightarrow>
          (case filealloc k1 of
             (None, k2) \<Rightarrow> andthen (fileclose f0 k2) (\<lambda>k3. Inr (None, k3))
           | (Some f1, k2) \<Rightarrow>
               (case kalloc (pages k2) of (p, m) \<Rightarrow>
                  if p = 0
                  then andthen (fileclose f0 (k2\<lparr>pages := m\<rparr>)) (\<lambda>k3. andthen (fileclose f1 k3) (\<lambda>k4. Inr (None, k4)))
                  else let k3 = k2\<lparr>pages := m, pipes := (pipes k2)(p := new_pipe p m)\<rparr>;
                         k4 = set_file f0 ((file_at k3 f0)\<lparr>fd_type := FD_PIPE, readable := True, writable := False, fd_pipe := p\<rparr>) k3;
                         k5 = set_file f1 ((file_at k4 f1)\<lparr>fd_type := FD_PIPE, readable := False, writable := True, fd_pipe := p\<rparr>) k4
                    in Inr (Some (f0, f1), k5))))"

end
