(* ===== verification/Proc.thy ===== *)
theory Proc
  imports File Printf Spinlock
begin

text \<open>
  Processes, \<^verbatim>\<open>proc.c\<close>: the process table and the operations on it. A \<^verbatim>\<open>struct proc *\<close> is the index of its entry
  in \<^verbatim>\<open>ptable.proc\<close>. What an operation does while it holds \<^verbatim>\<open>ptable.lock\<close> is one step; a process that calls
  \<^verbatim>\<open>sched\<close> ends its step there, and the lock passes to the scheduler of its processor.
\<close>

section \<open>The process table\<close>

abbreviation (input) NPROC :: nat where
  "NPROC \<equiv> 64"

abbreviation (input) NOFILE :: nat where
  "NOFILE \<equiv> 16"

abbreviation (input) KSTACKSIZE :: nat where
  "KSTACKSIZE \<equiv> 4096"

datatype procstate = UNUSED | EMBRYO | SLEEPING | RUNNABLE | RUNNING | ZOMBIE

text \<open>The objects whose addresses processes sleep on.\<close>

datatype kchan = ChProc nat | ChTicks | ChPipe nat chan | ChLog | ChInode nat | ChBuf nat | ChInput

text \<open>The registers of a trap frame that C code uses, and the saved context of a kernel thread.\<close>

record trapframe =
  tf_eax :: nat
  tf_es :: nat
  tf_ds :: nat
  tf_eip :: nat
  tf_cs :: nat
  tf_eflags :: nat
  tf_esp :: nat
  tf_ss :: nat
  tf_rest :: "nat list"

record kcontext =
  c_edi :: nat
  c_esi :: nat
  c_ebx :: nat
  c_ebp :: nat
  c_eip :: nat

record proc =
  p_sz :: nat
  pgdir :: nat
  kstack :: nat
  p_state :: procstate
  pid :: int
  parent :: "nat option"
  tf :: trapframe
  p_context :: kcontext
  p_chan :: "kchan option"
  killed :: bool
  ofile :: "nat option list"
  cwd :: "nat option"
  p_name :: buffer

text \<open>
  The kernel: the files, the process table, and for every processor the process it runs and the position of its
  scheduler in the table. \<open>first\<close> is the static variable of \<^verbatim>\<open>forkret\<close>, \<open>ticks\<close> the clock of \<^verbatim>\<open>trap.c\<close>.
\<close>

record kernel =
  files :: kfs
  procs :: "proc list"
  nextpid :: int
  initproc :: "nat option"
  current :: "nat option list"
  scan :: "nat list"
  first :: bool
  ticks :: nat

text \<open>Addresses that the linker chooses.\<close>

record symbols =
  sym_data :: nat
  sym_forkret :: nat

abbreviation proc_at :: "kernel \<Rightarrow> nat \<Rightarrow> proc" where
  "proc_at k i \<equiv> procs k ! i"

definition set_proc :: "nat \<Rightarrow> proc \<Rightarrow> kernel \<Rightarrow> kernel" where
  "set_proc i p k = k\<lparr>procs := (procs k)[i := p]\<rparr>"

definition set_pages :: "kmem \<Rightarrow> kernel \<Rightarrow> kernel" where
  "set_pages m k = k\<lparr>files := (files k)\<lparr>pages := m\<rparr>\<rparr>"

abbreviation kpages :: "kernel \<Rightarrow> kmem" where
  "kpages k \<equiv> pages (files k)"

definition first_proc :: "(proc \<Rightarrow> bool) \<Rightarrow> nat list \<Rightarrow> proc list \<Rightarrow> nat option" where
  "first_proc P is ps = find (\<lambda>i. P (ps ! i)) is"

section \<open>Creating processes\<close>

text \<open>
  \<open>None\<close>: no entry or no stack. The counter of process numbers is a signed \<^verbatim>\<open>int\<close>, so the increment behind its last
  value is undefined. The trap frame lies on the new stack; every caller overwrites all of it.
\<close>

definition allocproc :: "symbols \<Rightarrow> kernel \<Rightarrow> fault + (nat option \<times> kernel)" where
  "allocproc syms k =
     (case first_proc (\<lambda>p. p_state p = UNUSED) [0..<length (procs k)] (procs k) of
        None \<Rightarrow> Inr (None, k)
      | Some i \<Rightarrow>
          if nextpid k \<ge> 2 ^ 31 - 1 then Inl (OutOfBounds ''nextpid'')
          else let k1 = (set_proc i ((proc_at k i)\<lparr>p_state := EMBRYO, pid := nextpid k\<rparr>) k)\<lparr>nextpid := nextpid k + 1\<rparr>
            in case kalloc (kpages k1) of (st, m) \<Rightarrow>
              let k2 = set_pages m (set_proc i ((proc_at k1 i)\<lparr>kstack := st\<rparr>) k1)
              in if st = 0 then Inr (None, set_proc i ((proc_at k2 i)\<lparr>p_state := UNUSED\<rparr>) k2)
                else Inr (Some i, set_proc i ((proc_at k2 i)\<lparr>p_context :=
                       \<lparr>c_edi = 0, c_esi = 0, c_ebx = 0, c_ebp = 0, c_eip = sym_forkret syms\<rparr>\<rparr>) k2))"

text \<open>\<^verbatim>\<open>safestrcpy\<close> into a name of 16 bytes.\<close>

definition copy_name :: "buffer \<Rightarrow> buffer \<Rightarrow> buffer" where
  "copy_name src dst = map (safestrcpy (two_names src dst) 64 0 16) [64..<64 + 16]"

definition user_tf :: trapframe where
  "user_tf = \<lparr>tf_eax = 0, tf_es = 0x23, tf_ds = 0x23, tf_eip = 0, tf_cs = 0x1B, tf_eflags = 0x200, tf_esp = PGSIZE, tf_ss = 0x23,
     tf_rest = replicate 11 0\<rparr>"

definition userinit :: "symbols \<Rightarrow> string \<Rightarrow> kernel \<Rightarrow> fault + kernel" where
  "userinit syms initcode k =
     andthen (allocproc syms k) (\<lambda>(r, k1).
       case r of
         None \<Rightarrow> Inl (NullPointer ''userinit: p'')
       | Some i \<Rightarrow>
           andthen (setupkvm (sym_data syms) (kpages k1)) (\<lambda>(d, m).
             if d = 0 then Inl (Panic ''userinit: out of memory?'')
             else andthen (inituvm d initcode m) (\<lambda>m1.
                  andthen (namei 0 ''/'' (k_fs (files k1))) (\<lambda>(ip, f).
                    let k2 = k1\<lparr>initproc := Some i, files := (files k1)\<lparr>pages := m1, k_fs := f\<rparr>\<rparr>
                    in Inr (set_proc i ((proc_at k2 i)\<lparr>pgdir := d, p_sz := PGSIZE, tf := user_tf,
                         p_name := copy_name ''initcode'' (p_name (proc_at k2 i)), cwd := ip, p_state := RUNNABLE\<rparr>) k2)))))"

text \<open>\<^verbatim>\<open>switchuvm\<close> panics on a process without page table; the registers it loads are not modelled.\<close>

definition switchuvm :: "proc \<Rightarrow> fault + unit" where
  "switchuvm p = (if pgdir p = 0 then Inl (Panic ''switchuvm: no pgdir'') else Inr ())"

definition growproc :: "nat \<Rightarrow> int \<Rightarrow> kernel \<Rightarrow> fault + (int \<times> kernel)" where
  "growproc cur n k =
     (let p = proc_at k cur; sz = p_sz p; newsz = nat ((int sz + n) mod 2 ^ 32)
      in andthen
        (if n > 0 then andthen (allocuvm (pgdir p) sz newsz (kpages k)) (\<lambda>(s, m). Inr (if s = 0 then None else Some s, m))
         else if n < 0 then andthen (deallocuvm (pgdir p) sz newsz (kpages k)) (\<lambda>(s, m). Inr (if s = 0 then None else Some s, m))
         else Inr (Some sz, kpages k))
        (\<lambda>(r, m).
           let k1 = set_pages m k
           in case r of
                None \<Rightarrow> Inr (- 1, k1)
              | Some s \<Rightarrow> andthen (switchuvm p) (\<lambda>_. Inr (0, set_proc cur (p\<lparr>p_sz := s\<rparr>) k1))))"

fun dup_files :: "nat option list \<Rightarrow> kfs \<Rightarrow> fault + kfs" where
  "dup_files [] kf = Inr kf"
| "dup_files (None # fds) kf = dup_files fds kf"
| "dup_files (Some f # fds) kf = andthen (filedup f kf) (dup_files fds)"

definition copy_fds :: "nat option list \<Rightarrow> nat option list \<Rightarrow> nat option list" where
  "copy_fds src dst = map2 (\<lambda>s d. case s of None \<Rightarrow> d | Some f \<Rightarrow> Some f) src dst"

text \<open>\<^verbatim>\<open>fork\<close> by the process \<open>cur\<close>: the number of the child, or -1.\<close>

definition fork :: "symbols \<Rightarrow> nat \<Rightarrow> kernel \<Rightarrow> fault + (int \<times> kernel)" where
  "fork syms cur k =
     andthen (allocproc syms k) (\<lambda>(r, k1).
       case r of
         None \<Rightarrow> Inr (- 1, k1)
       | Some i \<Rightarrow>
           let p = proc_at k1 cur
           in andthen (copyuvm (sym_data syms) (pgdir p) (p_sz p) (kpages k1)) (\<lambda>(d, m).
             if d = 0
             then andthen (kfree (kstack (proc_at k1 i)) m) (\<lambda>m1.
               Inr (- 1, set_pages m1 (set_proc i ((proc_at k1 i)\<lparr>pgdir := 0, kstack := 0, p_state := UNUSED\<rparr>) k1)))
             else andthen (dup_files (ofile p) ((files k1)\<lparr>pages := m\<rparr>)) (\<lambda>kf.
               let np = proc_at k1 i;
                   kf1 = (case cwd p of None \<Rightarrow> kf | Some ip \<Rightarrow> kf\<lparr>k_fs := idup ip (k_fs kf)\<rparr>)
               in Inr (pid np, set_proc i (np\<lparr>pgdir := d, p_sz := p_sz p, parent := Some cur, tf := (tf p)\<lparr>tf_eax := 0\<rparr>,
                    ofile := copy_fds (ofile p) (ofile np), cwd := cwd p, p_state := RUNNABLE,
                    p_name := copy_name (p_name p) (p_name np)\<rparr>) (k1\<lparr>files := kf1\<rparr>)))))"

section \<open>Waking up, ending and waiting\<close>

definition wake_proc :: "kchan \<Rightarrow> proc \<Rightarrow> proc" where
  "wake_proc ch p = (if p_state p = SLEEPING \<and> p_chan p = Some ch then p\<lparr>p_state := RUNNABLE\<rparr> else p)"

definition wakeup1 :: "kchan \<Rightarrow> kernel \<Rightarrow> kernel" where
  "wakeup1 ch k = k\<lparr>procs := map (wake_proc ch) (procs k)\<rparr>"

text \<open>\<^verbatim>\<open>wakeup1(p)\<close> for a process pointer; no process sleeps on the null pointer.\<close>

definition wakeup_proc :: "nat option \<Rightarrow> kernel \<Rightarrow> kernel" where
  "wakeup_proc q k = (case q of None \<Rightarrow> k | Some i \<Rightarrow> wakeup1 (ChProc i) k)"

definition wakeup :: "kchan \<Rightarrow> kernel \<Rightarrow> kernel" where
  "wakeup ch k = wakeup1 ch k"

text \<open>The tests of \<^verbatim>\<open>sched\<close>: the lock is held and is the only one, the state has changed, interrupts are off.\<close>

definition sched :: "bool \<Rightarrow> cpu \<Rightarrow> procstate \<Rightarrow> fault + unit" where
  "sched lock_held cp st =
     (if \<not> lock_held then Inl (Panic ''sched ptable.lock'')
      else if ncli cp \<noteq> 1 then Inl (Panic ''sched locks'')
      else if st = RUNNING then Inl (Panic ''sched running'')
      else if fl_if cp then Inl (Panic ''sched interruptible'')
      else Inr ())"

text \<open>
  Processor \<open>c\<close> gives up its process, which is then \<open>p\<close>. It has acquired \<^verbatim>\<open>ptable.lock\<close> and no other lock, so
  interrupts are off.
\<close>

definition leave_cpu :: "nat \<Rightarrow> nat \<Rightarrow> proc \<Rightarrow> kernel \<Rightarrow> fault + kernel" where
  "leave_cpu c cur p k =
     andthen (sched True \<lparr>ncli = 1, intena = True, fl_if = False\<rparr> (p_state p)) (\<lambda>_. Inr ((set_proc cur p k)\<lparr>current := (current k)[c := None]\<rparr>))"

fun close_files :: "nat option list \<Rightarrow> kfs \<Rightarrow> fault + kfs" where
  "close_files [] kf = Inr kf"
| "close_files (None # fds) kf = close_files fds kf"
| "close_files (Some f # fds) kf = andthen (fileclose f kf) (close_files fds)"

text \<open>The loop of \<^verbatim>\<open>exit\<close> that gives the children of \<open>cur\<close> to \<^verbatim>\<open>init\<close>.\<close>

fun reparent :: "nat list \<Rightarrow> nat \<Rightarrow> nat option \<Rightarrow> kernel \<Rightarrow> kernel" where
  "reparent [] cur ini k = k"
| "reparent (i # is) cur ini k =
     (if parent (proc_at k i) = Some cur
      then let k1 = set_proc i ((proc_at k i)\<lparr>parent := ini\<rparr>) k
        in reparent is cur ini (if p_state (proc_at k1 i) = ZOMBIE then wakeup_proc ini k1 else k1)
      else reparent is cur ini k)"

text \<open>The part of \<^verbatim>\<open>exit\<close> under the lock.\<close>

definition exit_proc :: "nat \<Rightarrow> nat \<Rightarrow> kernel \<Rightarrow> fault + kernel" where
  "exit_proc c cur k =
     (let k1 = wakeup_proc (parent (proc_at k cur)) k;
          k2 = reparent [0..<length (procs k1)] cur (initproc k1) k1
      in leave_cpu c cur ((proc_at k2 cur)\<lparr>p_state := ZOMBIE\<rparr>) k2)"

text \<open>\<^verbatim>\<open>exit\<close> by the process \<open>cur\<close> of processor \<open>c\<close>. The inode of its directory is released outside of a transaction.\<close>

definition exit_files :: "nat \<Rightarrow> kernel \<Rightarrow> fault + kernel" where
  "exit_files cur k =
     (if initproc k = Some cur then Inl (Panic ''init exiting'')
      else andthen (close_files (ofile (proc_at k cur)) (files k)) (\<lambda>kf.
        andthen (case cwd (proc_at k cur) of None \<Rightarrow> Inl (NullPointer ''exit: cwd'') | Some ip \<Rightarrow> iput ip (k_fs kf)) (\<lambda>f.
          Inr (set_proc cur ((proc_at k cur)\<lparr>ofile := map (\<lambda>_. None) (ofile (proc_at k cur)), cwd := None\<rparr>)
            (k\<lparr>files := kf\<lparr>k_fs := f\<rparr>\<rparr>)))))"

definition exit :: "nat \<Rightarrow> nat \<Rightarrow> kernel \<Rightarrow> fault + kernel" where
  "exit c cur k = andthen (exit_files cur k) (exit_proc c cur)"

definition sleep :: "nat \<Rightarrow> nat \<Rightarrow> kchan \<Rightarrow> kernel \<Rightarrow> fault + kernel" where
  "sleep c cur ch k = leave_cpu c cur ((proc_at k cur)\<lparr>p_chan := Some ch, p_state := SLEEPING\<rparr>) k"

text \<open>What \<^verbatim>\<open>sleep\<close> does when the process runs again.\<close>

definition sleep_return :: "nat \<Rightarrow> kernel \<Rightarrow> kernel" where
  "sleep_return cur k = set_proc cur ((proc_at k cur)\<lparr>p_chan := None\<rparr>) k"

text \<open>
  One pass of \<^verbatim>\<open>wait\<close> over the table: it returns a number or, as \<open>None\<close>, goes to sleep and passes again when it is
  woken up.
\<close>

definition wait :: "nat \<Rightarrow> nat \<Rightarrow> kernel \<Rightarrow> fault + (int option \<times> kernel)" where
  "wait c cur k =
     (let kids = filter (\<lambda>i. parent (proc_at k i) = Some cur) [0..<length (procs k)]
      in case first_proc (\<lambda>p. p_state p = ZOMBIE) kids (procs k) of
           Some i \<Rightarrow>
             let p = proc_at k i
             in andthen (kfree (kstack p) (kpages k)) (\<lambda>m.
                andthen (freevm (pgdir p) m) (\<lambda>m1.
                  Inr (Some (pid p), set_proc i (p\<lparr>kstack := 0, p_state := UNUSED, pid := 0, parent := None,
                    p_name := (p_name p)[0 := NUL], killed := False\<rparr>) (set_pages m1 k))))
         | None \<Rightarrow>
             if kids = [] \<or> killed (proc_at k cur) then Inr (Some (- 1), k)
             else andthen (sleep c cur (ChProc cur) k) (\<lambda>k1. Inr (None, k1)))"

section \<open>Scheduling\<close>

text \<open>
  One step of \<^verbatim>\<open>scheduler\<close> on an idle processor: its loop over the table goes on where it stands and runs the next
  runnable process; at the end of the table a new loop begins.
\<close>

definition scheduler :: "nat \<Rightarrow> kernel \<Rightarrow> fault + kernel" where
  "scheduler c k =
     (case first_proc (\<lambda>p. p_state p = RUNNABLE) [scan k ! c..<length (procs k)] (procs k) of
        None \<Rightarrow> Inr (k\<lparr>scan := (scan k)[c := 0]\<rparr>)
      | Some i \<Rightarrow>
          andthen (switchuvm (proc_at k i)) (\<lambda>_.
            Inr ((set_proc i ((proc_at k i)\<lparr>p_state := RUNNING\<rparr>) k)\<lparr>current := (current k)[c := Some i],
              scan := (scan k)[c := Suc i]\<rparr>)))"

definition yield :: "nat \<Rightarrow> nat \<Rightarrow> kernel \<Rightarrow> fault + kernel" where
  "yield c cur k = leave_cpu c cur ((proc_at k cur)\<lparr>p_state := RUNNABLE\<rparr>) k"

text \<open>The first process to return from the scheduler recovers the log.\<close>

definition forkret :: "kernel \<Rightarrow> fault + kernel" where
  "forkret k =
     (if first k
      then let f = k_fs (files k)
        in andthen (initlog (f_log f) (f_store f)) (\<lambda>(lg, st).
             Inr (k\<lparr>first := False, files := (files k)\<lparr>k_fs := f\<lparr>f_log := lg, f_store := st\<rparr>\<rparr>\<rparr>))
      else Inr k)"

definition kill :: "int \<Rightarrow> kernel \<Rightarrow> int \<times> kernel" where
  "kill n k =
     (case first_proc (\<lambda>p. pid p = n) [0..<length (procs k)] (procs k) of
        None \<Rightarrow> (- 1, k)
      | Some i \<Rightarrow>
          let p = (proc_at k i)\<lparr>killed := True\<rparr>
          in (0, set_proc i (if p_state p = SLEEPING then p\<lparr>p_state := RUNNABLE\<rparr> else p) k))"

section \<open>Listings\<close>

fun state_name :: "procstate \<Rightarrow> string" where
  "state_name UNUSED = ''unused''"
| "state_name EMBRYO = ''embryo''"
| "state_name SLEEPING = ''sleep ''"
| "state_name RUNNABLE = ''runble''"
| "state_name RUNNING = ''run   ''"
| "state_name ZOMBIE = ''zombie''"

text \<open>The output of \<^verbatim>\<open>cprintf\<close> for \<^verbatim>\<open>%d\<close> and \<^verbatim>\<open>%p\<close>.\<close>

definition show_int :: "int \<Rightarrow> fault + string" where
  "show_int n = cons_printint (word_of_int n) 10 True"

definition show_ptr :: "nat \<Rightarrow> fault + string" where
  "show_ptr a = cons_printint (of_nat a) 16 False"

fun show_pcs :: "nat list \<Rightarrow> fault + string" where
  "show_pcs [] = Inr []"
| "show_pcs (a # as) = andthen (show_ptr a) (\<lambda>s. andthen (show_pcs as) (\<lambda>t. Inr ('' '' @ s @ t)))"

definition dump_proc :: "kernel \<Rightarrow> proc \<Rightarrow> fault + string" where
  "dump_proc k p =
     (if p_state p = UNUSED then Inr []
      else andthen (show_int (pid p)) (\<lambda>n.
        let head = n @ '' '' @ state_name (p_state p) @ '' '' @ cstr (p_name p)
        in if p_state p = SLEEPING
          then andthen (show_pcs (takeWhile (\<lambda>a. a \<noteq> 0)
                 (getcallerpcs (load_ptr (k_mem (kpages k))) (c_ebp (p_context p) + 8)))) (\<lambda>pcs. Inr (head @ pcs @ [NEWLINE]))
          else Inr (head @ [NEWLINE])))"

fun dump_all :: "(proc \<Rightarrow> fault + string) \<Rightarrow> proc list \<Rightarrow> fault + string" where
  "dump_all d [] = Inr []"
| "dump_all d (p # ps) = andthen (d p) (\<lambda>s. andthen (dump_all d ps) (\<lambda>t. Inr (s @ t)))"

definition procdump :: "kernel \<Rightarrow> fault + string" where
  "procdump k = dump_all (dump_proc k) (procs k)"

text \<open>\<open>addr\<close> gives the address of a channel; 0 is no channel.\<close>

definition sleep_line :: "(kchan \<Rightarrow> nat) \<Rightarrow> proc \<Rightarrow> fault + string" where
  "sleep_line addr p =
     (if p_state p = SLEEPING
      then andthen (show_int (pid p)) (\<lambda>n.
           andthen (show_ptr (case p_chan p of None \<Rightarrow> 0 | Some ch \<Rightarrow> addr ch)) (\<lambda>a.
             Inr (''SLEEPING PROC: '' @ cstr (p_name p) @ ''.  ID: '' @ n @ ''.     CHAN ADDR: '' @ a @ [NEWLINE])))
      else Inr [])"

definition sleep_proc_list :: "(kchan \<Rightarrow> nat) \<Rightarrow> kernel \<Rightarrow> fault + string" where
  "sleep_proc_list addr k = dump_all (sleep_line addr) (procs k)"

end
