(* ===== verification/Sysfile.thy ===== *)
theory Sysfile
  imports Proc
begin

text \<open>
  The system calls: how the kernel fetches their arguments from user memory (\<^verbatim>\<open>syscall.c\<close>), the calls on files
  (\<^verbatim>\<open>sysfile.c\<close>) and on processes (\<^verbatim>\<open>sysproc.c\<close>). \<open>cur\<close> is the calling process, \<open>c\<close> its processor.
\<close>

section \<open>Arguments of system calls\<close>

text \<open>
  The kernel reads and writes user memory through the page table of the process; a page that is not present is a
  trap in the kernel, which panics.
\<close>

definition user_addr :: "nat \<Rightarrow> nat \<Rightarrow> kmem \<Rightarrow> fault + nat" where
  "user_addr pgd a m =
     (let pte = fst (walkpgdir pgd a False m)
      in if pte = 0 \<or> \<not> pte_present (pte_at m pte) then Inl (Panic ''trap'')
        else Inr (p2v (PTE_ADDR (pte_at m pte)) + a mod PGSIZE))"

fun get_user :: "nat \<Rightarrow> nat \<Rightarrow> nat \<Rightarrow> kmem \<Rightarrow> fault + string" where
  "get_user pgd a 0 m = Inr []"
| "get_user pgd a (Suc n) m =
     andthen (user_addr pgd a m) (\<lambda>x. andthen (get_user pgd (a + 1) n m) (\<lambda>s. Inr (k_mem m x # s)))"

fun put_user :: "nat \<Rightarrow> nat \<Rightarrow> string \<Rightarrow> kmem \<Rightarrow> fault + kmem" where
  "put_user pgd a [] m = Inr m"
| "put_user pgd a (b # bs) m =
     andthen (user_addr pgd a m) (\<lambda>x. put_user pgd (a + 1) bs (m\<lparr>k_mem := (k_mem m)(x := b)\<rparr>))"

text \<open>\<open>None\<close> is the result -1.\<close>

definition fetchint :: "nat \<Rightarrow> proc \<Rightarrow> kmem \<Rightarrow> fault + int option" where
  "fetchint addr p m =
     (if addr \<ge> p_sz p \<or> (addr + 4) mod 2 ^ 32 > p_sz p then Inr None
      else andthen (get_user (pgdir p) addr 4 m) (\<lambda>bs. Inr (Some (int32 (le_val bs)))))"

fun string_from :: "nat \<Rightarrow> nat \<Rightarrow> proc \<Rightarrow> kmem \<Rightarrow> fault + string option" where
  "string_from 0 s p m = Inr None"
| "string_from (Suc n) s p m =
     andthen (user_addr (pgdir p) s m) (\<lambda>x.
       if k_mem m x = NUL then Inr (Some []) else andthen (string_from n (s + 1) p m) (\<lambda>r. Inr (map_option ((#) (k_mem m x)) r)))"

definition fetchstr :: "nat \<Rightarrow> proc \<Rightarrow> kmem \<Rightarrow> fault + string option" where
  "fetchstr addr p m = (if addr \<ge> p_sz p then Inr None else string_from (p_sz p - addr) addr p m)"

definition uint_of :: "int \<Rightarrow> nat" where
  "uint_of i = nat (i mod 2 ^ 32)"

definition argint :: "nat \<Rightarrow> proc \<Rightarrow> kmem \<Rightarrow> fault + int option" where
  "argint n p m = fetchint ((tf_esp (tf p) + 4 + 4 * n) mod 2 ^ 32) p m"

definition argptr :: "nat \<Rightarrow> int \<Rightarrow> proc \<Rightarrow> kmem \<Rightarrow> fault + nat option" where
  "argptr n sz p m =
     andthen (argint n p m) (\<lambda>r.
       case r of
         None \<Rightarrow> Inr None
       | Some i \<Rightarrow>
           if uint_of i \<ge> p_sz p \<or> uint_of (int (uint_of i) + sz) > p_sz p then Inr None else Inr (Some (uint_of i)))"

definition argstr :: "nat \<Rightarrow> proc \<Rightarrow> kmem \<Rightarrow> fault + string option" where
  "argstr n p m =
     andthen (argint n p m) (\<lambda>r. case r of None \<Rightarrow> Inr None | Some a \<Rightarrow> fetchstr (uint_of a) p m)"

section \<open>Links and directories\<close>

text \<open>The calls on path names, as steps of the file system; \<open>wd\<close> is the directory of the process.\<close>

definition set_nlink :: "nat \<Rightarrow> int \<Rightarrow> fs \<Rightarrow> fs" where
  "set_nlink i d f = set_inode i ((inode_at f i)\<lparr>nlink := nat ((int (nlink (inode_at f i)) + d) mod 2 ^ 16)\<rparr>) f"

definition link_bad :: "nat \<Rightarrow> fs \<Rightarrow> fault + (int \<times> fs)" where
  "link_bad ip f =
     andthen (ilock ip f) (\<lambda>f1.
     andthen (iupdate ip (set_nlink ip (- 1) f1)) (\<lambda>f2.
     andthen (iunlockput ip f2) (\<lambda>f3.
     andthen (end_op f3) (\<lambda>f4. Inr (- 1, f4)))))"

definition fs_link :: "nat \<Rightarrow> string \<Rightarrow> string \<Rightarrow> fs \<Rightarrow> fault + (int \<times> fs)" where
  "fs_link wd old new f =
     andthen (namei wd old f) (\<lambda>(r, f1).
       case r of
         None \<Rightarrow> Inr (- 1, f1)
       | Some ip \<Rightarrow>
           andthen (begin_op f1) (\<lambda>f2.
           andthen (ilock ip f2) (\<lambda>f3.
             if itype (inode_at f3 ip) = T_DIR
             then andthen (iunlockput ip f3) (\<lambda>f4. andthen (end_op f4) (\<lambda>f5. Inr (- 1, f5)))
             else
               andthen (iupdate ip (set_nlink ip 1 f3)) (\<lambda>f4.
               andthen (iunlock ip f4) (\<lambda>f5.
               andthen (nameiparent wd new (replicate DIRSIZ NUL) f5) (\<lambda>(d, name, f6).
                 case d of
                   None \<Rightarrow> link_bad ip f6
                 | Some dp \<Rightarrow>
                     andthen (ilock dp f6) (\<lambda>f7.
                       if idev (inode_at f7 dp) \<noteq> idev (inode_at f7 ip)
                       then andthen (iunlockput dp f7) (link_bad ip)
                       else andthen (dirlink dp name (inum (inode_at f7 ip)) f7) (\<lambda>(w, f8).
                         if w < 0 then andthen (iunlockput dp f8) (link_bad ip)
                         else andthen (iunlockput dp f8) (\<lambda>f9.
                              andthen (iput ip f9) (\<lambda>f10.
                              andthen (end_op f10) (\<lambda>f11. Inr (0, f11))))))))))))"

function isdirempty_from :: "nat \<Rightarrow> nat \<Rightarrow> fs \<Rightarrow> fault + (bool \<times> fs)" where
  "isdirempty_from off dp f =
     (if off < isize (inode_at f dp)
      then andthen (readi dp off 16 f) (\<lambda>(r, bs, f1).
        if r \<noteq> 16 then Inl (Panic ''isdirempty: readi'')
        else if d_inum (bytes_dirent bs) \<noteq> 0 then Inr (False, f1)
        else isdirempty_from (off + 16) dp f1)
      else Inr (True, f))"
  by pat_completeness auto
termination
  by (relation "measure (\<lambda>(off, dp, f). isize (inode_at f dp) - off)") (auto dest: readi_isizes)

declare isdirempty_from.simps [simp del]

definition isdirempty :: "nat \<Rightarrow> fs \<Rightarrow> fault + (bool \<times> fs)" where
  "isdirempty dp f = isdirempty_from (2 * 16) dp f"

definition unlink_bad :: "nat \<Rightarrow> fs \<Rightarrow> fault + (int \<times> fs)" where
  "unlink_bad dp f = andthen (iunlockput dp f) (\<lambda>f1. andthen (end_op f1) (\<lambda>f2. Inr (- 1, f2)))"

definition fs_unlink :: "nat \<Rightarrow> string \<Rightarrow> fs \<Rightarrow> fault + (int \<times> fs)" where
  "fs_unlink wd path f =
     andthen (nameiparent wd path (replicate DIRSIZ NUL) f) (\<lambda>(d, name, f1).
       case d of
         None \<Rightarrow> Inr (- 1, f1)
       | Some dp \<Rightarrow>
           andthen (begin_op f1) (\<lambda>f2.
           andthen (ilock dp f2) (\<lambda>f3.
             if namecmp name ''.'' = 0 \<or> namecmp name ''..'' = 0 then unlink_bad dp f3
             else andthen (dirlookup dp name f3) (\<lambda>(r, f4).
               case r of
                 None \<Rightarrow> unlink_bad dp f4
               | Some (ip, off) \<Rightarrow>
                   andthen (ilock ip f4) (\<lambda>f5.
                     if nlink (inode_at f5 ip) = 0 \<or> nlink (inode_at f5 ip) \<ge> 2 ^ 15 then Inl (Panic ''unlink: nlink < 1'')
                     else andthen (if itype (inode_at f5 ip) = T_DIR then isdirempty ip f5 else Inr (True, f5)) (\<lambda>(e, f6).
                       if \<not> e then andthen (iunlockput ip f6) (unlink_bad dp)
                       else andthen (writei dp (replicate 16 NUL) off f6) (\<lambda>(w, f7).
                         if w \<noteq> 16 then Inl (Panic ''unlink: writei'')
                         else andthen (if itype (inode_at f7 ip) = T_DIR then iupdate dp (set_nlink dp (- 1) f7) else Inr f7) (\<lambda>f8.
                              andthen (iunlockput dp f8) (\<lambda>f9.
                              andthen (iupdate ip (set_nlink ip (- 1) f9)) (\<lambda>f10.
                              andthen (iunlockput ip f10) (\<lambda>f11.
                              andthen (end_op f11) (\<lambda>f12. Inr (0, f12)))))))))))))"

text \<open>\<^verbatim>\<open>create\<close>: the inode, locked, or \<open>None\<close>.\<close>

definition create :: "nat \<Rightarrow> string \<Rightarrow> nat \<Rightarrow> nat \<Rightarrow> nat \<Rightarrow> fs \<Rightarrow> fault + (nat option \<times> fs)" where
  "create wd path ty maj mnr f =
     andthen (nameiparent wd path (replicate DIRSIZ NUL) f) (\<lambda>(d, name, f1).
       case d of
         None \<Rightarrow> Inr (None, f1)
       | Some dp \<Rightarrow>
           andthen (ilock dp f1) (\<lambda>f2.
           andthen (dirlookup dp name f2) (\<lambda>(r, f3).
             case r of
               Some (ip, _) \<Rightarrow>
                 andthen (iunlockput dp f3) (\<lambda>f4.
                 andthen (ilock ip f4) (\<lambda>f5.
                   if ty = T_FILE \<and> itype (inode_at f5 ip) = T_FILE then Inr (Some ip, f5)
                   else andthen (iunlockput ip f5) (\<lambda>f6. Inr (None, f6))))
             | None \<Rightarrow>
                 andthen (ialloc ty f3) (\<lambda>(ip, f4).
                 andthen (ilock ip f4) (\<lambda>f5.
                 andthen (iupdate ip (set_inode ip ((inode_at f5 ip)\<lparr>imajor := maj, iminor := mnr, nlink := 1\<rparr>) f5)) (\<lambda>f6.
                 andthen
                   (if ty = T_DIR
                    then andthen (iupdate dp (set_nlink dp 1 f6)) (\<lambda>f7.
                         andthen (dirlink ip ''.'' (inum (inode_at f7 ip)) f7) (\<lambda>(w1, f8).
                           if w1 < 0 then Inl (Panic ''create dots'')
                           else andthen (dirlink ip ''..'' (inum (inode_at f8 dp)) f8) (\<lambda>(w2, f9).
                             if w2 < 0 then Inl (Panic ''create dots'') else Inr f9)))
                    else Inr f6) (\<lambda>f10.
                 andthen (dirlink dp name (inum (inode_at f10 ip)) f10) (\<lambda>(w, f11).
                   if w < 0 then Inl (Panic ''create: dirlink'')
                   else andthen (iunlockput dp f11) (\<lambda>f12. Inr (Some ip, f12))))))))))"

definition fs_mkdir :: "nat \<Rightarrow> string option \<Rightarrow> fs \<Rightarrow> fault + (int \<times> fs)" where
  "fs_mkdir wd path f =
     andthen (begin_op f) (\<lambda>f1.
     andthen (case path of None \<Rightarrow> Inr (None, f1) | Some s \<Rightarrow> create wd s T_DIR 0 0 f1) (\<lambda>(r, f2).
       case r of
         None \<Rightarrow> andthen (end_op f2) (\<lambda>f3. Inr (- 1, f3))
       | Some ip \<Rightarrow> andthen (iunlockput ip f2) (\<lambda>f3. andthen (end_op f3) (\<lambda>f4. Inr (0, f4)))))"

definition fs_mknod :: "nat \<Rightarrow> (string \<times> nat \<times> nat) option \<Rightarrow> fs \<Rightarrow> fault + (int \<times> fs)" where
  "fs_mknod wd args f =
     andthen (begin_op f) (\<lambda>f1.
     andthen (case args of None \<Rightarrow> Inr (None, f1) | Some (s, maj, mnr) \<Rightarrow> create wd s T_DEV maj mnr f1) (\<lambda>(r, f2).
       case r of
         None \<Rightarrow> andthen (end_op f2) (\<lambda>f3. Inr (- 1, f3))
       | Some ip \<Rightarrow> andthen (iunlockput ip f2) (\<lambda>f3. andthen (end_op f3) (\<lambda>f4. Inr (0, f4)))))"

text \<open>The new directory of the process. The inode of the old one is released outside of a transaction.\<close>

definition fs_chdir :: "nat \<Rightarrow> string \<Rightarrow> fs \<Rightarrow> fault + (nat option \<times> fs)" where
  "fs_chdir wd path f =
     andthen (namei wd path f) (\<lambda>(r, f1).
       case r of
         None \<Rightarrow> Inr (None, f1)
       | Some ip \<Rightarrow>
           andthen (ilock ip f1) (\<lambda>f2.
             if itype (inode_at f2 ip) \<noteq> T_DIR then andthen (iunlockput ip f2) (\<lambda>f3. Inr (None, f3))
             else andthen (iunlock ip f2) (\<lambda>f3. andthen (iput wd f3) (\<lambda>f4. Inr (Some ip, f4)))))"

end
