(* ===== verification/Exec.thy ===== *)
theory Exec
  imports Sysfile
begin

text \<open>
  \<^verbatim>\<open>exec.c\<close>: the program of an ELF file replaces the memory of a process. A failure before the commit leaves the
  process as it was.
\<close>

abbreviation (input) ELF_MAGIC :: nat where
  "ELF_MAGIC \<equiv> 0x464C457F"

abbreviation (input) ELF_PROG_LOAD :: nat where
  "ELF_PROG_LOAD \<equiv> 1"

abbreviation (input) MAXARG :: nat where
  "MAXARG \<equiv> 32"

text \<open>The fields of the file header and of a program header that are used.\<close>

record elfhdr =
  e_magic :: nat
  e_entry :: nat
  e_phoff :: nat
  e_phnum :: nat

definition elfhdr_of :: "string \<Rightarrow> elfhdr" where
  "elfhdr_of bs = \<lparr>e_magic = get_le 4 0 bs, e_entry = get_le 4 24 bs, e_phoff = get_le 4 28 bs, e_phnum = get_le 2 44 bs\<rparr>"

record proghdr =
  ph_type :: nat
  ph_off :: nat
  ph_vaddr :: nat
  ph_filesz :: nat
  ph_memsz :: nat

definition proghdr_of :: "string \<Rightarrow> proghdr" where
  "proghdr_of bs = \<lparr>ph_type = get_le 4 0 bs, ph_off = get_le 4 4 bs, ph_vaddr = get_le 4 8 bs, ph_filesz = get_le 4 16 bs,
     ph_memsz = get_le 4 20 bs\<rparr>"

text \<open>The loop over the program headers: the size of the image, or \<open>None\<close> for the jump to \<^verbatim>\<open>bad\<close>.\<close>

fun exec_load :: "nat \<Rightarrow> nat \<Rightarrow> nat \<Rightarrow> nat \<Rightarrow> nat \<Rightarrow> kmem \<Rightarrow> fs \<Rightarrow> fault + (nat option \<times> kmem \<times> fs)" where
  "exec_load 0 off pgd ip sz m f = Inr (Some sz, m, f)"
| "exec_load (Suc n) off pgd ip sz m f =
     andthen (readi ip off 32 f) (\<lambda>(r, bs, f1).
       if r \<noteq> 32 then Inr (None, m, f1)
       else let ph = proghdr_of bs; off1 = (off + 32) mod 2 ^ 32
         in if ph_type ph \<noteq> ELF_PROG_LOAD then exec_load n off1 pgd ip sz m f1
           else if ph_memsz ph < ph_filesz ph then Inr (None, m, f1)
           else andthen (allocuvm pgd sz ((ph_vaddr ph + ph_memsz ph) mod 2 ^ 32) m) (\<lambda>(sz1, m1).
             if sz1 = 0 then Inr (None, m1, f1)
             else andthen (loaduvm pgd (ph_vaddr ph) ip (ph_off ph) (ph_filesz ph) m1 f1) (\<lambda>(l, m2, f2).
               if l < 0 then Inr (None, m2, f2) else exec_load n off1 pgd ip sz1 m2 f2)))"

text \<open>The loop over the arguments: the stack pointer and the addresses of the strings.\<close>

fun push_args :: "nat \<Rightarrow> string list \<Rightarrow> nat \<Rightarrow> nat \<Rightarrow> nat list \<Rightarrow> kmem \<Rightarrow> fault + ((nat \<times> nat list) option \<times> kmem)" where
  "push_args argc [] pgd sp us m = Inr (Some (sp, us), m)"
| "push_args argc (s # ss) pgd sp us m =
     (if argc \<ge> MAXARG then Inr (None, m)
      else let sp1 = (sp + 2 ^ 32 - (length s + 1)) mod 2 ^ 32 div 4 * 4
        in andthen (copyout pgd sp1 (s @ [NUL]) m) (\<lambda>(r, m1).
             if r < 0 then Inr (None, m1) else push_args (Suc argc) ss pgd sp1 (us @ [sp1]) m1))"

definition words_bytes :: "nat list \<Rightarrow> string" where
  "words_bytes ws = concat (map (le_bytes 4) ws)"

text \<open>The user stack: two pages behind the image, the lower one inaccessible, with the arguments of \<^verbatim>\<open>main\<close>.\<close>

definition exec_stack :: "nat \<Rightarrow> nat \<Rightarrow> string list \<Rightarrow> kmem \<Rightarrow> fault + ((nat \<times> nat) option \<times> kmem)" where
  "exec_stack pgd sz0 argv m =
     (let szr = PGROUNDUP sz0 mod 2 ^ 32
      in andthen (allocuvm pgd szr ((szr + 2 * PGSIZE) mod 2 ^ 32) m) (\<lambda>(sz, m1).
        if sz = 0 then Inr (None, m1)
        else andthen (clearpteu pgd (sz - 2 * PGSIZE) m1) (\<lambda>m2.
             andthen (push_args 0 argv pgd sz [] m2) (\<lambda>(r, m3).
               case r of
                 None \<Rightarrow> Inr (None, m3)
               | Some (sp, us) \<Rightarrow>
                   let argc = length us;
                       ustack = [0xFFFFFFFF, argc, (sp + 2 ^ 32 - (argc + 1) * 4) mod 2 ^ 32] @ us @ [0];
                       sp1 = (sp + 2 ^ 32 - (3 + argc + 1) * 4) mod 2 ^ 32
                   in andthen (copyout pgd sp1 (words_bytes ustack) m3) (\<lambda>(w, m4).
                        if w < 0 then Inr (None, m4) else Inr (Some (sz, sp1), m4))))))"

text \<open>The jump to \<^verbatim>\<open>bad\<close>, with the page table and the inode that are to be released.\<close>

definition exec_bad :: "nat \<Rightarrow> nat option \<Rightarrow> kmem \<Rightarrow> fs \<Rightarrow> kernel \<Rightarrow> fault + (int \<times> kernel)" where
  "exec_bad pgd ip m f k =
     andthen (if pgd \<noteq> 0 then freevm pgd m else Inr m) (\<lambda>m1.
     andthen (case ip of None \<Rightarrow> Inr f | Some i \<Rightarrow> iunlockput i f) (\<lambda>f1.
       Inr (- 1, k\<lparr>files := (files k)\<lparr>pages := m1, k_fs := f1\<rparr>\<rparr>)))"

definition base_name :: "string \<Rightarrow> string" where
  "base_name path = rev (takeWhile (\<lambda>c. c \<noteq> CHR ''/'') (rev path))"

text \<open>The part behind the last jump to \<^verbatim>\<open>bad\<close>.\<close>

definition exec_commit :: "nat \<Rightarrow> string \<Rightarrow> nat \<Rightarrow> nat \<Rightarrow> nat \<Rightarrow> nat \<Rightarrow> kernel \<Rightarrow> fault + (int \<times> kernel)" where
  "exec_commit cur path pgd sz entry sp k =
     (let p = proc_at k cur;
          p1 = p\<lparr>p_name := copy_name (base_name path) (p_name p), pgdir := pgd, p_sz := sz,
             tf := (tf p)\<lparr>tf_eip := entry, tf_esp := sp\<rparr>\<rparr>
      in andthen (switchuvm p1) (\<lambda>_.
         andthen (freevm (pgdir p) (kpages k)) (\<lambda>m. Inr (0, set_pages m (set_proc cur p1 k)))))"

text \<open>
  The test of the number of bytes of the header compares as unsigned numbers, so a failed read passes it and leaves
  \<^verbatim>\<open>elf\<close> uninitialised.
\<close>

definition exec :: "symbols \<Rightarrow> nat \<Rightarrow> nat \<Rightarrow> string \<Rightarrow> string list \<Rightarrow> kernel \<Rightarrow> fault + (int \<times> kernel)" where
  "exec syms wd cur path argv k =
     andthen (namei wd path (k_fs (files k))) (\<lambda>(r, f).
       case r of
         None \<Rightarrow> Inr (- 1, k\<lparr>files := (files k)\<lparr>k_fs := f\<rparr>\<rparr>)
       | Some ip \<Rightarrow>
           andthen (ilock ip f) (\<lambda>f1.
           andthen (readi ip 0 52 f1) (\<lambda>(n, bs, f2).
             if n < 0 then Inl (BadArgument ''exec: elf is uninitialised'')
             else if n < 52 \<or> e_magic (elfhdr_of bs) \<noteq> ELF_MAGIC then exec_bad 0 (Some ip) (kpages k) f2 k
             else let elf = elfhdr_of bs
               in andthen (setupkvm (sym_data syms) (kpages k)) (\<lambda>(pgd, m).
                    if pgd = 0 then exec_bad 0 (Some ip) m f2 k
                    else andthen (exec_load (e_phnum elf) (e_phoff elf) pgd ip 0 m f2) (\<lambda>(sz, m1, f3).
                      case sz of
                        None \<Rightarrow> exec_bad pgd (Some ip) m1 f3 k
                      | Some sz0 \<Rightarrow>
                          andthen (iunlockput ip f3) (\<lambda>f4.
                          andthen (exec_stack pgd sz0 argv m1) (\<lambda>(st, m2).
                            case st of
                              None \<Rightarrow> exec_bad pgd None m2 f4 k
                            | Some (sz1, sp) \<Rightarrow>
                                exec_commit cur path pgd sz1 (e_entry elf) sp
                                  (k\<lparr>files := (files k)\<lparr>pages := m2, k_fs := f4\<rparr>\<rparr>))))))))"

end
