(* ===== verification/Syscall.thy ===== *)
theory Syscall
  imports Exec
begin

text \<open>
  The system calls of a process: the calls of \<^verbatim>\<open>sysfile.c\<close> that use its descriptors, the calls of \<^verbatim>\<open>sysproc.c\<close>, and
  the dispatch of \<^verbatim>\<open>syscall.c\<close>.
\<close>

section \<open>File descriptors\<close>

text \<open>The descriptor in argument \<open>n\<close> and its file.\<close>

definition argfd :: "nat \<Rightarrow> nat \<Rightarrow> kernel \<Rightarrow> fault + (nat \<times> nat) option" where
  "argfd n cur k =
     andthen (argint n (proc_at k cur) (kpages k)) (\<lambda>r.
       case r of
         None \<Rightarrow> Inr None
       | Some fd \<Rightarrow>
           if fd < 0 \<or> fd \<ge> int NOFILE then Inr None
           else Inr (map_option (Pair (nat fd)) (ofile (proc_at k cur) ! nat fd)))"

fun free_fd :: "nat option list \<Rightarrow> nat option" where
  "free_fd [] = None"
| "free_fd (None # fds) = Some 0"
| "free_fd (Some f # fds) = map_option Suc (free_fd fds)"

definition set_fd :: "nat \<Rightarrow> nat \<Rightarrow> nat option \<Rightarrow> kernel \<Rightarrow> kernel" where
  "set_fd cur fd f k = set_proc cur ((proc_at k cur)\<lparr>ofile := (ofile (proc_at k cur))[fd := f]\<rparr>) k"

definition fdalloc :: "nat \<Rightarrow> nat \<Rightarrow> kernel \<Rightarrow> nat option \<times> kernel" where
  "fdalloc f cur k =
     (case free_fd (ofile (proc_at k cur)) of None \<Rightarrow> (None, k) | Some fd \<Rightarrow> (Some fd, set_fd cur fd (Some f) k))"

text \<open>How a call ends: with a value, asleep with bytes still to be written, or not at all.\<close>

datatype sysret = Ret int | Blocked kchan string | Gone

abbreviation set_files :: "kfs \<Rightarrow> kernel \<Rightarrow> kernel" where
  "set_files kf k \<equiv> k\<lparr>files := kf\<rparr>"

definition sys_dup :: "nat \<Rightarrow> kernel \<Rightarrow> fault + (sysret \<times> kernel)" where
  "sys_dup cur k =
     andthen (argfd 0 cur k) (\<lambda>r.
       case r of
         None \<Rightarrow> Inr (Ret (- 1), k)
       | Some (_, f) \<Rightarrow>
           (case fdalloc f cur k of
              (None, k1) \<Rightarrow> Inr (Ret (- 1), k1)
            | (Some fd, k1) \<Rightarrow> andthen (filedup f (files k1)) (\<lambda>kf. Inr (Ret (int fd), set_files kf k1))))"

text \<open>The arguments of \<^verbatim>\<open>read\<close> and \<^verbatim>\<open>write\<close>: the file, the count and the address, fetched in this order.\<close>

definition rw_args :: "nat \<Rightarrow> kernel \<Rightarrow> fault + (nat \<times> int \<times> nat) option" where
  "rw_args cur k =
     andthen (argfd 0 cur k) (\<lambda>r.
       case r of
         None \<Rightarrow> Inr None
       | Some (_, f) \<Rightarrow>
           andthen (argint 2 (proc_at k cur) (kpages k)) (\<lambda>s.
             case s of
               None \<Rightarrow> Inr None
             | Some n \<Rightarrow> andthen (argptr 1 n (proc_at k cur) (kpages k)) (\<lambda>a. Inr (map_option (\<lambda>p. (f, n, p)) a))))"

definition block :: "nat \<Rightarrow> nat \<Rightarrow> kchan \<Rightarrow> string \<Rightarrow> kernel \<Rightarrow> fault + (sysret \<times> kernel)" where
  "block c cur ch rest k = andthen (sleep c cur ch k) (\<lambda>k1. Inr (Blocked ch rest, k1))"

text \<open>The processes that sleep on the channels woken up by the operations on pipes become runnable.\<close>

definition deliver :: "kernel \<Rightarrow> kernel" where
  "deliver k =
     fold (\<lambda>(p, ch). wakeup (ChPipe p ch)) (rev (woken (files k))) (set_files ((files k)\<lparr>woken := []\<rparr>) k)"

definition sys_read :: "nat \<Rightarrow> nat \<Rightarrow> kernel \<Rightarrow> fault + (sysret \<times> kernel)" where
  "sys_read c cur k =
     andthen (rw_args cur k) (\<lambda>r.
       case r of
         None \<Rightarrow> Inr (Ret (- 1), k)
       | Some (f, n, p) \<Rightarrow>
           andthen (fileread (killed (proc_at k cur)) f n (files k)) (\<lambda>(res, bs, kf).
           andthen (put_user (pgdir (proc_at k cur)) p bs (pages kf)) (\<lambda>m.
             let k1 = deliver (set_pages m (set_files kf k))
             in case res of
                  Return v \<Rightarrow> Inr (Ret v, k1)
                | Sleep ch rest \<Rightarrow> block c cur (ChPipe (fd_pipe (file_at kf f)) ch) rest k1)))"

definition sys_write :: "nat \<Rightarrow> nat \<Rightarrow> kernel \<Rightarrow> fault + (sysret \<times> kernel)" where
  "sys_write c cur k =
     andthen (rw_args cur k) (\<lambda>r.
       case r of
         None \<Rightarrow> Inr (Ret (- 1), k)
       | Some (f, n, p) \<Rightarrow>
           andthen (get_user (pgdir (proc_at k cur)) p (nat n) (kpages k)) (\<lambda>src.
           andthen (filewrite (killed (proc_at k cur)) f n src (files k)) (\<lambda>(res, kf).
             let k1 = deliver (set_files kf k)
             in case res of
                  Return v \<Rightarrow> Inr (Ret v, k1)
                | Sleep ch rest \<Rightarrow> block c cur (ChPipe (fd_pipe (file_at kf f)) ch) rest k1)))"

definition sys_close :: "nat \<Rightarrow> kernel \<Rightarrow> fault + (sysret \<times> kernel)" where
  "sys_close cur k =
     andthen (argfd 0 cur k) (\<lambda>r.
       case r of
         None \<Rightarrow> Inr (Ret (- 1), k)
       | Some (fd, f) \<Rightarrow>
           let k1 = set_fd cur fd None k
           in andthen (fileclose f (files k1)) (\<lambda>kf. Inr (Ret 0, deliver (set_files kf k1))))"

text \<open>The 20 bytes of a \<^verbatim>\<open>struct stat\<close>; the two bytes of padding keep what the user memory had.\<close>

definition stat_fields :: "stat \<Rightarrow> (nat \<times> string) list" where
  "stat_fields st = [(0, le_bytes 2 (st_type st)), (4, le_bytes 4 (st_dev st)), (8, le_bytes 4 (st_ino st)),
     (12, le_bytes 2 (st_nlink st)), (16, le_bytes 4 (st_size st))]"

fun put_fields :: "nat \<Rightarrow> nat \<Rightarrow> (nat \<times> string) list \<Rightarrow> kmem \<Rightarrow> fault + kmem" where
  "put_fields pgd a [] m = Inr m"
| "put_fields pgd a ((off, bs) # fs) m = andthen (put_user pgd (a + off) bs m) (put_fields pgd a fs)"

definition sys_fstat :: "nat \<Rightarrow> kernel \<Rightarrow> fault + (sysret \<times> kernel)" where
  "sys_fstat cur k =
     andthen (argfd 0 cur k) (\<lambda>r.
       case r of
         None \<Rightarrow> Inr (Ret (- 1), k)
       | Some (_, f) \<Rightarrow>
           andthen (argptr 1 20 (proc_at k cur) (kpages k)) (\<lambda>a.
             case a of
               None \<Rightarrow> Inr (Ret (- 1), k)
             | Some p \<Rightarrow>
                 andthen (filestat f (files k)) (\<lambda>(v, st, kf).
                   case st of
                     None \<Rightarrow> Inr (Ret v, set_files kf k)
                   | Some s \<Rightarrow> andthen (put_fields (pgdir (proc_at k cur)) p (stat_fields s) (pages kf)) (\<lambda>m.
                       Inr (Ret v, set_pages m (set_files kf k))))))"

definition on_files :: "(fs \<Rightarrow> fault + (int \<times> fs)) \<Rightarrow> kernel \<Rightarrow> fault + (sysret \<times> kernel)" where
  "on_files op k = andthen (on_fs op (files k)) (\<lambda>(v, kf). Inr (Ret v, set_files kf k))"

text \<open>A call on the directory of the process.\<close>

definition with_cwd :: "nat \<Rightarrow> kernel \<Rightarrow> (nat \<Rightarrow> fault + 'a) \<Rightarrow> fault + 'a" where
  "with_cwd cur k g = (case cwd (proc_at k cur) of None \<Rightarrow> Inl (NullPointer ''proc->cwd'') | Some wd \<Rightarrow> g wd)"

definition sys_link :: "nat \<Rightarrow> kernel \<Rightarrow> fault + (sysret \<times> kernel)" where
  "sys_link cur k =
     andthen (argstr 0 (proc_at k cur) (kpages k)) (\<lambda>old.
       case old of
         None \<Rightarrow> Inr (Ret (- 1), k)
       | Some a \<Rightarrow>
           andthen (argstr 1 (proc_at k cur) (kpages k)) (\<lambda>new.
             case new of
               None \<Rightarrow> Inr (Ret (- 1), k)
             | Some b \<Rightarrow> with_cwd cur k (\<lambda>wd. on_files (fs_link wd a b) k)))"

definition sys_unlink :: "nat \<Rightarrow> kernel \<Rightarrow> fault + (sysret \<times> kernel)" where
  "sys_unlink cur k =
     andthen (argstr 0 (proc_at k cur) (kpages k)) (\<lambda>path.
       case path of
         None \<Rightarrow> Inr (Ret (- 1), k)
       | Some s \<Rightarrow> with_cwd cur k (\<lambda>wd. on_files (fs_unlink wd s) k))"

definition sys_mkdir :: "nat \<Rightarrow> kernel \<Rightarrow> fault + (sysret \<times> kernel)" where
  "sys_mkdir cur k =
     andthen (argstr 0 (proc_at k cur) (kpages k)) (\<lambda>path. with_cwd cur k (\<lambda>wd. on_files (fs_mkdir wd path) k))"

definition sys_mknod :: "nat \<Rightarrow> kernel \<Rightarrow> fault + (sysret \<times> kernel)" where
  "sys_mknod cur k =
     andthen
       (andthen (argstr 0 (proc_at k cur) (kpages k)) (\<lambda>path.
          case path of
            None \<Rightarrow> Inr None
          | Some s \<Rightarrow>
              andthen (argint 1 (proc_at k cur) (kpages k)) (\<lambda>maj.
                case maj of
                  None \<Rightarrow> Inr None
                | Some a \<Rightarrow>
                    andthen (argint 2 (proc_at k cur) (kpages k)) (\<lambda>mnr.
                      Inr (map_option (\<lambda>b. (s, nat (a mod 2 ^ 16), nat (b mod 2 ^ 16))) mnr)))))
       (\<lambda>args. with_cwd cur k (\<lambda>wd. on_files (fs_mknod wd args) k))"

definition sys_chdir :: "nat \<Rightarrow> kernel \<Rightarrow> fault + (sysret \<times> kernel)" where
  "sys_chdir cur k =
     andthen (argstr 0 (proc_at k cur) (kpages k)) (\<lambda>path.
       case path of
         None \<Rightarrow> Inr (Ret (- 1), k)
       | Some s \<Rightarrow>
           with_cwd cur k (\<lambda>wd.
             andthen (on_fs (fs_chdir wd s) (files k)) (\<lambda>(r, kf).
               let k1 = set_files kf k
               in case r of
                    None \<Rightarrow> Inr (Ret (- 1), k1)
                  | Some ip \<Rightarrow> Inr (Ret 0, set_proc cur ((proc_at k1 cur)\<lparr>cwd := Some ip\<rparr>) k1))))"

section \<open>Opening files\<close>

text \<open>The locked inode that \<^verbatim>\<open>open\<close> finds or creates.\<close>

definition open_inode :: "nat \<Rightarrow> string \<Rightarrow> int \<Rightarrow> fs \<Rightarrow> fault + (nat option \<times> fs)" where
  "open_inode wd path omode f =
     (if omode AND 0x200 \<noteq> 0
      then andthen (begin_op f) (\<lambda>f1.
           andthen (create wd path T_FILE 0 0 f1) (\<lambda>(ip, f2).
           andthen (end_op f2) (\<lambda>f3. Inr (ip, f3))))
      else andthen (namei wd path f) (\<lambda>(r, f1).
        case r of
          None \<Rightarrow> Inr (None, f1)
        | Some ip \<Rightarrow>
            andthen (ilock ip f1) (\<lambda>f2.
              if itype (inode_at f2 ip) = T_DIR \<and> omode \<noteq> 0
              then andthen (iunlockput ip f2) (\<lambda>f3. Inr (None, f3))
              else Inr (Some ip, f2))))"

definition open_fd :: "nat \<Rightarrow> nat \<Rightarrow> int \<Rightarrow> kernel \<Rightarrow> fault + (sysret \<times> kernel)" where
  "open_fd ip cur omode k =
     (case filealloc (files k) of
        (None, kf) \<Rightarrow>
          andthen (iunlockput ip (k_fs kf)) (\<lambda>f. Inr (Ret (- 1), set_files (kf\<lparr>k_fs := f\<rparr>) k))
      | (Some f, kf) \<Rightarrow>
          (case fdalloc f cur (set_files kf k) of
             (None, k1) \<Rightarrow>
               andthen (fileclose f (files k1)) (\<lambda>kf1.
               andthen (iunlockput ip (k_fs kf1)) (\<lambda>g. Inr (Ret (- 1), set_files (kf1\<lparr>k_fs := g\<rparr>) k1)))
           | (Some fd, k1) \<Rightarrow>
               andthen (iunlock ip (k_fs (files k1))) (\<lambda>g.
                 let kf1 = (files k1)\<lparr>k_fs := g\<rparr>;
                     fl = (file_at kf1 f)\<lparr>fd_type := FD_INODE, fd_ip := ip, fd_off := 0, readable := (omode AND 1 = 0),
                       writable := (omode AND 1 \<noteq> 0 \<or> omode AND 2 \<noteq> 0)\<rparr>
                 in Inr (Ret (int fd), set_files (set_file f fl kf1) k1))))"

definition sys_open :: "nat \<Rightarrow> kernel \<Rightarrow> fault + (sysret \<times> kernel)" where
  "sys_open cur k =
     andthen (argstr 0 (proc_at k cur) (kpages k)) (\<lambda>path.
       case path of
         None \<Rightarrow> Inr (Ret (- 1), k)
       | Some s \<Rightarrow>
           andthen (argint 1 (proc_at k cur) (kpages k)) (\<lambda>om.
             case om of
               None \<Rightarrow> Inr (Ret (- 1), k)
             | Some omode \<Rightarrow>
                 with_cwd cur k (\<lambda>wd.
                   andthen (on_fs (open_inode wd s omode) (files k)) (\<lambda>(r, kf).
                     case r of
                       None \<Rightarrow> Inr (Ret (- 1), set_files kf k)
                     | Some ip \<Rightarrow> open_fd ip cur omode (set_files kf k)))))"

definition pipe_fail :: "nat \<Rightarrow> nat \<Rightarrow> kernel \<Rightarrow> fault + (sysret \<times> kernel)" where
  "pipe_fail rd wr k =
     andthen (fileclose rd (files k)) (\<lambda>kf. andthen (fileclose wr kf) (\<lambda>kf1. Inr (Ret (- 1), deliver (set_files kf1 k))))"

definition sys_pipe :: "nat \<Rightarrow> kernel \<Rightarrow> fault + (sysret \<times> kernel)" where
  "sys_pipe cur k =
     andthen (argptr 0 8 (proc_at k cur) (kpages k)) (\<lambda>a.
       case a of
         None \<Rightarrow> Inr (Ret (- 1), k)
       | Some p \<Rightarrow>
           andthen (pipealloc (files k)) (\<lambda>(r, kf).
             let k1 = set_files kf k
             in case r of
                  None \<Rightarrow> Inr (Ret (- 1), k1)
                | Some (rd, wr) \<Rightarrow>
                    (case fdalloc rd cur k1 of
                       (None, k2) \<Rightarrow> pipe_fail rd wr k2
                     | (Some fd0, k2) \<Rightarrow>
                         (case fdalloc wr cur k2 of
                            (None, k3) \<Rightarrow> pipe_fail rd wr (set_fd cur fd0 None k3)
                          | (Some fd1, k3) \<Rightarrow>
                              andthen (put_user (pgdir (proc_at k3 cur)) p (le_bytes 4 fd0 @ le_bytes 4 fd1) (kpages k3)) (\<lambda>m.
                                Inr (Ret 0, set_pages m k3))))))"

text \<open>The loop of \<^verbatim>\<open>sys_exec\<close> over the argument vector; \<open>n\<close> entries of \<^verbatim>\<open>argv\<close> are left.\<close>

fun fetch_argv :: "nat \<Rightarrow> nat \<Rightarrow> proc \<Rightarrow> kmem \<Rightarrow> fault + string list option" where
  "fetch_argv 0 a p m = Inr None"
| "fetch_argv (Suc n) a p m =
     andthen (fetchint a p m) (\<lambda>r.
       case r of
         None \<Rightarrow> Inr None
       | Some u \<Rightarrow>
           if u = 0 then Inr (Some [])
           else andthen (fetchstr (uint_of u) p m) (\<lambda>s.
             case s of
               None \<Rightarrow> Inr None
             | Some str \<Rightarrow> andthen (fetch_argv n ((a + 4) mod 2 ^ 32) p m) (\<lambda>t. Inr (map_option ((#) str) t))))"

definition sys_exec :: "symbols \<Rightarrow> nat \<Rightarrow> kernel \<Rightarrow> fault + (sysret \<times> kernel)" where
  "sys_exec syms cur k =
     andthen (argstr 0 (proc_at k cur) (kpages k)) (\<lambda>path.
       case path of
         None \<Rightarrow> Inr (Ret (- 1), k)
       | Some s \<Rightarrow>
           andthen (argint 1 (proc_at k cur) (kpages k)) (\<lambda>r.
             case r of
               None \<Rightarrow> Inr (Ret (- 1), k)
             | Some uargv \<Rightarrow>
                 andthen (fetch_argv MAXARG (uint_of uargv) (proc_at k cur) (kpages k)) (\<lambda>av.
                   case av of
                     None \<Rightarrow> Inr (Ret (- 1), k)
                   | Some argv \<Rightarrow> with_cwd cur k (\<lambda>wd. andthen (exec syms wd cur s argv k) (\<lambda>(v, k1). Inr (Ret v, k1))))))"

section \<open>Calls on processes\<close>

definition sys_fork :: "symbols \<Rightarrow> nat \<Rightarrow> kernel \<Rightarrow> fault + (sysret \<times> kernel)" where
  "sys_fork syms cur k = andthen (fork syms cur k) (\<lambda>(v, k1). Inr (Ret v, k1))"

definition sys_exit :: "nat \<Rightarrow> nat \<Rightarrow> kernel \<Rightarrow> fault + (sysret \<times> kernel)" where
  "sys_exit c cur k = andthen (exit c cur k) (\<lambda>k1. Inr (Gone, deliver k1))"

definition sys_wait :: "nat \<Rightarrow> nat \<Rightarrow> kernel \<Rightarrow> fault + (sysret \<times> kernel)" where
  "sys_wait c cur k =
     andthen (wait c cur k) (\<lambda>(r, k1). Inr (case r of None \<Rightarrow> Blocked (ChProc cur) [] | Some v \<Rightarrow> Ret v, k1))"

definition sys_kill :: "nat \<Rightarrow> kernel \<Rightarrow> fault + (sysret \<times> kernel)" where
  "sys_kill cur k =
     andthen (argint 0 (proc_at k cur) (kpages k)) (\<lambda>r.
       case r of None \<Rightarrow> Inr (Ret (- 1), k) | Some n \<Rightarrow> (case kill n k of (v, k1) \<Rightarrow> Inr (Ret v, k1)))"

definition sys_getpid :: "nat \<Rightarrow> kernel \<Rightarrow> fault + (sysret \<times> kernel)" where
  "sys_getpid cur k = Inr (Ret (pid (proc_at k cur)), k)"

definition sys_sbrk :: "nat \<Rightarrow> kernel \<Rightarrow> fault + (sysret \<times> kernel)" where
  "sys_sbrk cur k =
     andthen (argint 0 (proc_at k cur) (kpages k)) (\<lambda>r.
       case r of
         None \<Rightarrow> Inr (Ret (- 1), k)
       | Some n \<Rightarrow>
           andthen (growproc cur n k) (\<lambda>(v, k1). Inr (Ret (if v < 0 then - 1 else int32 (p_sz (proc_at k cur))), k1)))"

text \<open>
  One test of the loop of \<^verbatim>\<open>sys_sleep\<close>, \<open>t0\<close> the value of the clock when the call began. The comparison is one of
  unsigned numbers.
\<close>

definition sleep_pass :: "nat \<Rightarrow> nat \<Rightarrow> int \<Rightarrow> nat \<Rightarrow> kernel \<Rightarrow> fault + (sysret \<times> kernel)" where
  "sleep_pass c t0 n cur k =
     (if (ticks k + 2 ^ 32 - t0) mod 2 ^ 32 < uint_of n
      then if killed (proc_at k cur) then Inr (Ret (- 1), k)
        else block c cur ChTicks [] k
      else Inr (Ret 0, k))"

definition sys_sleep :: "nat \<Rightarrow> nat \<Rightarrow> kernel \<Rightarrow> fault + (sysret \<times> kernel)" where
  "sys_sleep c cur k =
     andthen (argint 0 (proc_at k cur) (kpages k)) (\<lambda>r.
       case r of None \<Rightarrow> Inr (Ret (- 1), k) | Some n \<Rightarrow> sleep_pass c (ticks k) n cur k)"

definition sys_uptime :: "kernel \<Rightarrow> fault + (sysret \<times> kernel)" where
  "sys_uptime k = Inr (Ret (int32 (ticks k)), k)"

section \<open>Dispatch\<close>

fun syscalls :: "symbols \<Rightarrow> nat \<Rightarrow> nat \<Rightarrow> int \<Rightarrow> (kernel \<Rightarrow> fault + (sysret \<times> kernel)) option" where
  "syscalls syms c cur num =
     (if num = 1 then Some (sys_fork syms cur) else if num = 2 then Some (sys_exit c cur)
      else if num = 3 then Some (sys_wait c cur) else if num = 4 then Some (sys_pipe cur)
      else if num = 5 then Some (sys_read c cur) else if num = 6 then Some (sys_kill cur)
      else if num = 7 then Some (sys_exec syms cur) else if num = 8 then Some (sys_fstat cur)
      else if num = 9 then Some (sys_chdir cur) else if num = 10 then Some (sys_dup cur)
      else if num = 11 then Some (sys_getpid cur) else if num = 12 then Some (sys_sbrk cur)
      else if num = 13 then Some (sys_sleep c cur) else if num = 14 then Some sys_uptime
      else if num = 15 then Some (sys_open cur) else if num = 16 then Some (sys_write c cur)
      else if num = 17 then Some (sys_mknod cur) else if num = 18 then Some (sys_unlink cur)
      else if num = 19 then Some (sys_link cur) else if num = 20 then Some (sys_mkdir cur)
      else if num = 21 then Some (sys_close cur) else None)"

text \<open>The result goes into \<^verbatim>\<open>eax\<close>. A call that sleeps or does not return leaves the register as it is.\<close>

definition syscall :: "symbols \<Rightarrow> nat \<Rightarrow> nat \<Rightarrow> kernel \<Rightarrow> fault + (sysret \<times> kernel)" where
  "syscall syms c cur k =
     andthen
       (case syscalls syms c cur (int32 (tf_eax (tf (proc_at k cur)))) of
          Some call \<Rightarrow> call k
        | None \<Rightarrow> Inr (Ret (- 1), k))
       (\<lambda>(r, k1).
          case r of
            Ret v \<Rightarrow> Inr (r, set_proc cur ((proc_at k1 cur)\<lparr>tf := (tf (proc_at k1 cur))\<lparr>tf_eax := uint_of v\<rparr>\<rparr>) k1)
          | _ \<Rightarrow> Inr (r, k1))"

text \<open>The part of \<^verbatim>\<open>trap\<close> for a system call: a killed process exits instead of entering or leaving the kernel.\<close>

definition trap_syscall :: "symbols \<Rightarrow> nat \<Rightarrow> nat \<Rightarrow> kernel \<Rightarrow> fault + (sysret \<times> kernel)" where
  "trap_syscall syms c cur k =
     (if killed (proc_at k cur) then sys_exit c cur k
      else andthen (syscall syms c cur k) (\<lambda>(r, k1).
        case r of Ret v \<Rightarrow> if killed (proc_at k1 cur) then sys_exit c cur k1 else Inr (r, k1) | _ \<Rightarrow> Inr (r, k1)))"

text \<open>The clock interrupt on the first processor, and on all of them the end of the time slice.\<close>

definition timer_tick :: "kernel \<Rightarrow> kernel" where
  "timer_tick k = wakeup ChTicks (k\<lparr>ticks := (ticks k + 1) mod 2 ^ 32\<rparr>)"

definition trap_timer :: "nat \<Rightarrow> bool \<Rightarrow> kernel \<Rightarrow> fault + kernel" where
  "trap_timer c user k =
     (let k1 = (if c = 0 then timer_tick k else k)
      in case current k1 ! c of
           None \<Rightarrow> Inr k1
         | Some cur \<Rightarrow>
             if killed (proc_at k1 cur) \<and> user then andthen (exit c cur k1) (\<lambda>k2. Inr (deliver k2))
             else if p_state (proc_at k1 cur) = RUNNING then yield c cur k1
             else Inr k1)"

end
