(* ===== verification/Proc_Inv.thy ===== *)
theory Proc_Inv
  imports Syscall
begin

text \<open>
  Invariants of the process table under every interleaving of system calls, clock interrupts and schedulers: a process
  runs on one processor at most, process numbers are unique, and a parent that sleeps in \<^verbatim>\<open>wait\<close> never misses the end
  of a child.
\<close>

section \<open>What the invariants depend on\<close>

abbreviation st :: "kernel \<Rightarrow> nat \<Rightarrow> procstate" where
  "st k i \<equiv> p_state (proc_at k i)"

abbreviation nproc :: "kernel \<Rightarrow> nat" where
  "nproc k \<equiv> length (procs k)"

definition pcore :: "proc \<Rightarrow> procstate \<times> int \<times> nat option \<times> kchan option" where
  "pcore p = (p_state p, pid p, parent p, p_chan p)"

definition same_core :: "kernel \<Rightarrow> kernel \<Rightarrow> bool" where
  "same_core k k' \<longleftrightarrow> map pcore (procs k') = map pcore (procs k) \<and> current k' = current k \<and> initproc k' = initproc k \<and>
     nextpid k' = nextpid k \<and> length (scan k') = length (scan k)"

lemma same_core_refl [simp]: "same_core k k"
  by (simp add: same_core_def)

lemma same_core_trans: "same_core k k1 \<Longrightarrow> same_core k1 k2 \<Longrightarrow> same_core k k2"
  by (simp add: same_core_def)

lemma same_coreD:
  assumes "same_core k k'"
  shows "nproc k' = nproc k" "current k' = current k" "initproc k' = initproc k" "nextpid k' = nextpid k"
    "length (scan k') = length (scan k)"
    "\<And>i. i < nproc k \<Longrightarrow> st k' i = st k i" "\<And>i. i < nproc k \<Longrightarrow> pid (proc_at k' i) = pid (proc_at k i)"
    "\<And>i. i < nproc k \<Longrightarrow> parent (proc_at k' i) = parent (proc_at k i)"
    "\<And>i. i < nproc k \<Longrightarrow> p_chan (proc_at k' i) = p_chan (proc_at k i)"
proof -
  have eq: "map pcore (procs k') = map pcore (procs k)" using assms by (simp add: same_core_def)
  then show n: "nproc k' = nproc k" by (rule map_eq_imp_length_eq)
  have "pcore (proc_at k' i) = pcore (proc_at k i)" if "i < nproc k" for i
    using arg_cong [OF eq, of "\<lambda>xs. xs ! i"] that n by simp
  then show "\<And>i. i < nproc k \<Longrightarrow> st k' i = st k i" "\<And>i. i < nproc k \<Longrightarrow> pid (proc_at k' i) = pid (proc_at k i)"
    "\<And>i. i < nproc k \<Longrightarrow> parent (proc_at k' i) = parent (proc_at k i)"
    "\<And>i. i < nproc k \<Longrightarrow> p_chan (proc_at k' i) = p_chan (proc_at k i)" by (simp_all add: pcore_def)
qed (use assms in \<open>simp_all add: same_core_def\<close>)

lemma same_core_set_proc:
  assumes "pcore p = pcore (proc_at k i)"
  shows "same_core k (set_proc i p k)"
proof -
  have "map pcore ((procs k)[i := p]) = (map pcore (procs k))[i := pcore (proc_at k i)]" using assms by (simp add: map_update)
  also have "\<dots> = map pcore (procs k)"
    by (cases "i < nproc k") (simp_all add: list_update_beyond list_update_same_conv)
  finally show ?thesis by (simp add: same_core_def set_proc_def)
qed

lemma same_core_files [simp]: "same_core k (k\<lparr>files := kf\<rparr>)" "same_core k (set_pages m k)"
  by (simp_all add: same_core_def set_pages_def)

lemma same_core_set_fd [simp]: "same_core k (set_fd cur fd f k)"
  unfolding set_fd_def by (rule same_core_set_proc) (simp add: pcore_def)

lemma same_core_fdalloc: "fdalloc f cur k = (r, k') \<Longrightarrow> same_core k k'"
  by (auto simp: fdalloc_def split: option.splits)

section \<open>The invariants\<close>

text \<open>Every processor runs a process that is running, no two run the same one, and every running process has one.\<close>

definition cpu_inv :: "kernel \<Rightarrow> bool" where
  "cpu_inv k \<longleftrightarrow>
     (\<forall>c < length (current k). \<forall>i. current k ! c = Some i \<longrightarrow> i < nproc k \<and> st k i = RUNNING) \<and>
     (\<forall>c < length (current k). \<forall>d < length (current k). \<forall>i. current k ! c = Some i \<longrightarrow> current k ! d = Some i \<longrightarrow> c = d) \<and>
     (\<forall>i < nproc k. st k i = RUNNING \<longrightarrow> (\<exists>c < length (current k). current k ! c = Some i))"

definition pid_inv :: "kernel \<Rightarrow> bool" where
  "pid_inv k \<longleftrightarrow> 0 < nextpid k \<and>
     (\<forall>i < nproc k. st k i \<noteq> UNUSED \<longrightarrow> 0 < pid (proc_at k i) \<and> pid (proc_at k i) < nextpid k) \<and>
     (\<forall>i < nproc k. \<forall>j < nproc k. st k i \<noteq> UNUSED \<longrightarrow> st k j \<noteq> UNUSED \<longrightarrow> pid (proc_at k i) = pid (proc_at k j) \<longrightarrow> i = j)"

text \<open>
  Parents are other entries of the table, \<^verbatim>\<open>init\<close> has none; and a process that sleeps in \<^verbatim>\<open>wait\<close> has a child, and no
  child that has ended.
\<close>

definition wait_inv :: "kernel \<Rightarrow> bool" where
  "wait_inv k \<longleftrightarrow>
     (\<forall>i < nproc k. \<forall>j. parent (proc_at k i) = Some j \<longrightarrow> st k i \<noteq> UNUSED \<and> j < nproc k \<and> j \<noteq> i) \<and>
     (\<forall>n. initproc k = Some n \<longrightarrow> n < nproc k \<and> st k n \<noteq> UNUSED \<and> parent (proc_at k n) = None) \<and>
     (\<forall>i < nproc k. \<forall>j. st k i = SLEEPING \<longrightarrow> p_chan (proc_at k i) = Some (ChProc j) \<longrightarrow>
        j = i \<and> (\<exists>x < nproc k. parent (proc_at k x) = Some i) \<and>
        (\<forall>x < nproc k. parent (proc_at k x) = Some i \<longrightarrow> st k x \<noteq> ZOMBIE))"

definition table_inv :: "kernel \<Rightarrow> bool" where
  "table_inv k \<longleftrightarrow> cpu_inv k \<and> pid_inv k \<and> wait_inv k"

lemma table_inv_core:
  assumes "table_inv k" "same_core k k'"
  shows "table_inv k'"
proof -
  note C = same_coreD [OF assms(2)]
  have "cpu_inv k' \<longleftrightarrow> cpu_inv k" by (simp add: cpu_inv_def C cong: conj_cong)
  moreover have "pid_inv k' \<longleftrightarrow> pid_inv k" by (simp add: pid_inv_def C)
  moreover have "wait_inv k' \<longleftrightarrow> wait_inv k" by (simp add: wait_inv_def C cong: conj_cong)
  ultimately show ?thesis using assms(1) by (simp add: table_inv_def)
qed

section \<open>Changes of the table that keep the invariants\<close>

lemma proc_at_set_proc: "i < nproc k \<Longrightarrow> proc_at (set_proc i p k) j = (if j = i then p else proc_at k j)"
  by (simp add: set_proc_def)

lemma set_proc_simps [simp]:
  "nproc (set_proc i p k) = nproc k" "current (set_proc i p k) = current k" "initproc (set_proc i p k) = initproc k"
  "nextpid (set_proc i p k) = nextpid k" "scan (set_proc i p k) = scan k" "files (set_proc i p k) = files k"
  by (simp_all add: set_proc_def)

text \<open>States move, but no process starts or stops to run.\<close>

lemma cpu_inv_mono:
  assumes "cpu_inv k" "nproc k' = nproc k" "current k' = current k"
    and "\<And>i. i < nproc k \<Longrightarrow> st k' i = RUNNING \<longleftrightarrow> st k i = RUNNING"
  shows "cpu_inv k'"
proof -
  have "cpu_inv k' \<longleftrightarrow> cpu_inv k" by (simp add: cpu_inv_def assms(2-4) cong: conj_cong)
  with assms(1) show ?thesis by simp
qed

lemma cpu_invD:
  assumes "cpu_inv k" "c < length (current k)" "current k ! c = Some i"
  shows "i < nproc k" "st k i = RUNNING" "\<And>d. d < length (current k) \<Longrightarrow> current k ! d = Some i \<Longrightarrow> d = c"
  using assms unfolding cpu_inv_def by blast+

lemma cpu_inv_leave:
  assumes inv: "cpu_inv k" and c: "c < length (current k)" "current k ! c = Some cur" and n: "nproc k' = nproc k"
    and cur: "current k' = (current k)[c := None]" "st k' cur \<noteq> RUNNING"
    and others: "\<And>i. i < nproc k \<Longrightarrow> i \<noteq> cur \<Longrightarrow> st k' i = RUNNING \<longleftrightarrow> st k i = RUNNING"
  shows "cpu_inv k'"
proof -
  note D = cpu_invD [OF inv]
  have at: "current k' ! d = (if d = c then None else current k ! d)" if "d < length (current k)" for d
    using that cur(1) by simp
  have "i < nproc k \<and> st k' i = RUNNING" if d: "d < length (current k)" "current k' ! d = Some i" for d i
  proof -
    have "d \<noteq> c" "current k ! d = Some i" using at [OF d(1)] d(2) by (auto split: if_splits)
    moreover from this have "i \<noteq> cur" using D(3) [OF c d(1)] by auto
    ultimately show ?thesis using D(1,2) [OF d(1), of i] others [of i] by auto
  qed
  moreover have "d = e" if "d < length (current k)" "e < length (current k)" "current k' ! d = Some i" "current k' ! e = Some i" for d e i
    using that at D(3) by (metis option.distinct(1))
  moreover have "\<exists>d < length (current k). current k' ! d = Some i" if i: "i < nproc k" "st k' i = RUNNING" for i
  proof -
    have ne: "i \<noteq> cur" using i(2) cur(2) by auto
    then have "st k i = RUNNING" using others i by simp
    then obtain d where d: "d < length (current k)" "current k ! d = Some i" using inv i(1) unfolding cpu_inv_def by blast
    moreover have "d \<noteq> c" using d(2) c(2) ne by auto
    ultimately show ?thesis using at by auto
  qed
  moreover have "length (current k') = length (current k)" using cur(1) by simp
  ultimately show ?thesis unfolding cpu_inv_def n by metis
qed

lemma cpu_inv_enter:
  assumes inv: "cpu_inv k" and c: "c < length (current k)" "current k ! c = None" and i: "i < nproc k" "st k i \<noteq> RUNNING"
    and n: "nproc k' = nproc k" and cur: "current k' = (current k)[c := Some i]" "st k' i = RUNNING"
    and others: "\<And>j. j < nproc k \<Longrightarrow> j \<noteq> i \<Longrightarrow> st k' j = RUNNING \<longleftrightarrow> st k j = RUNNING"
  shows "cpu_inv k'"
proof -
  note D = cpu_invD [OF inv]
  have at: "current k' ! d = (if d = c then Some i else current k ! d)" if "d < length (current k)" for d
    using that cur(1) by simp
  have ni: "current k ! d \<noteq> Some i" if "d < length (current k)" for d using D(2) [OF that] i(2) by auto
  have "j < nproc k \<and> st k' j = RUNNING" if d: "d < length (current k)" "current k' ! d = Some j" for d j
  proof (cases "d = c")
    case True
    with at d i(1) cur(2) show ?thesis by auto
  next
    case False
    then have "current k ! d = Some j" using at d by simp
    moreover from this ni [OF d(1)] have "j \<noteq> i" by auto
    ultimately show ?thesis using D(1,2) [OF d(1)] others by blast
  qed
  moreover have "d = e" if "d < length (current k)" "e < length (current k)" "current k' ! d = Some j" "current k' ! e = Some j" for d e j
    using that at ni D(3) by (metis option.inject)
  moreover have "\<exists>d < length (current k). current k' ! d = Some j" if j: "j < nproc k" "st k' j = RUNNING" for j
  proof (cases "j = i")
    case True
    with at c(1) show ?thesis by auto
  next
    case False
    with others j have "st k j = RUNNING" by simp
    then obtain d where d: "d < length (current k)" "current k ! d = Some j" using inv j(1) unfolding cpu_inv_def by blast
    moreover have "d \<noteq> c" using d(2) c(2) by auto
    ultimately show ?thesis using at by auto
  qed
  moreover have "length (current k') = length (current k)" using cur(1) by simp
  ultimately show ?thesis unfolding cpu_inv_def n by metis
qed

lemma pid_inv_mono:
  assumes "pid_inv k" "nproc k' = nproc k" "nextpid k' = nextpid k"
    and "\<And>i. i < nproc k \<Longrightarrow> st k' i \<noteq> UNUSED \<Longrightarrow> st k i \<noteq> UNUSED \<and> pid (proc_at k' i) = pid (proc_at k i)"
  shows "pid_inv k'"
  unfolding pid_inv_def assms(2,3) using assms(1,4) unfolding pid_inv_def by metis

lemma wait_inv_mono:
  assumes inv: "wait_inv k" and n: "nproc k' = nproc k" and ini: "initproc k' = initproc k"
    and par: "\<And>i. i < nproc k \<Longrightarrow> parent (proc_at k' i) = parent (proc_at k i)"
    and used: "\<And>i. i < nproc k \<Longrightarrow> st k i \<noteq> UNUSED \<Longrightarrow> st k' i \<noteq> UNUSED"
    and sl: "\<And>i j. i < nproc k \<Longrightarrow> st k' i = SLEEPING \<Longrightarrow> p_chan (proc_at k' i) = Some (ChProc j) \<Longrightarrow>
      st k i = SLEEPING \<and> p_chan (proc_at k i) = Some (ChProc j)"
    and zo: "\<And>i. i < nproc k \<Longrightarrow> st k' i = ZOMBIE \<Longrightarrow> st k i = ZOMBIE"
  shows "wait_inv k'"
proof -
  have "j = i \<and> (\<exists>x < nproc k. parent (proc_at k' x) = Some i) \<and> (\<forall>x < nproc k. parent (proc_at k' x) = Some i \<longrightarrow> st k' x \<noteq> ZOMBIE)"
    if "i < nproc k" "st k' i = SLEEPING" "p_chan (proc_at k' i) = Some (ChProc j)" for i j
    using sl [OF that] inv that(1) par zo unfolding wait_inv_def by metis
  moreover have "st k' i \<noteq> UNUSED \<and> j < nproc k \<and> j \<noteq> i" if "i < nproc k" "parent (proc_at k' i) = Some j" for i j
    using that par used inv unfolding wait_inv_def by metis
  moreover have "m < nproc k \<and> st k' m \<noteq> UNUSED \<and> parent (proc_at k' m) = None" if "initproc k = Some m" for m
    using that par used inv unfolding wait_inv_def by metis
  ultimately show ?thesis unfolding wait_inv_def n ini by blast
qed

section \<open>Waking up, killing, scheduling\<close>

lemma first_proc_Some:
  assumes "first_proc P is ps = Some i"
  shows "i \<in> set is" "P (ps ! i)"
  using assms by (auto simp: first_proc_def find_Some_iff)

lemma first_proc_None: "first_proc P is ps = None \<Longrightarrow> i \<in> set is \<Longrightarrow> \<not> P (ps ! i)"
  by (auto simp: first_proc_def find_None_iff)

lemma wakeup1_simps [simp]:
  "nproc (wakeup1 ch k) = nproc k" "current (wakeup1 ch k) = current k" "initproc (wakeup1 ch k) = initproc k"
  "nextpid (wakeup1 ch k) = nextpid k" "scan (wakeup1 ch k) = scan k"
  by (simp_all add: wakeup1_def)

lemma proc_at_wakeup1: "i < nproc k \<Longrightarrow> proc_at (wakeup1 ch k) i = wake_proc ch (proc_at k i)"
  by (simp add: wakeup1_def)

lemma wake_proc_simps [simp]:
  "pid (wake_proc ch p) = pid p" "parent (wake_proc ch p) = parent p" "p_chan (wake_proc ch p) = p_chan p"
  by (simp_all add: wake_proc_def)

lemma wakeup1_inv:
  assumes "table_inv k"
  shows "table_inv (wakeup1 ch k)"
proof -
  have state: "st (wakeup1 ch k) i = (if st k i = SLEEPING \<and> p_chan (proc_at k i) = Some ch then RUNNABLE else st k i)"
    if "i < nproc k" for i
    using that by (simp add: proc_at_wakeup1 wake_proc_def)
  have "cpu_inv (wakeup1 ch k)" by (rule cpu_inv_mono [of k]) (use assms in \<open>simp_all add: table_inv_def state\<close>)
  moreover have "pid_inv (wakeup1 ch k)"
    by (rule pid_inv_mono [of k]) (use assms in \<open>auto simp: table_inv_def proc_at_wakeup1 wake_proc_def split: if_splits\<close>)
  moreover have "wait_inv (wakeup1 ch k)"
    by (rule wait_inv_mono [of k]) (use assms in \<open>auto simp: table_inv_def proc_at_wakeup1 wake_proc_def split: if_splits\<close>)
  ultimately show ?thesis by (simp add: table_inv_def)
qed

lemma deliver_inv:
  assumes "table_inv k"
  shows "table_inv (deliver k)"
proof -
  have "table_inv (fold (\<lambda>(p, ch). wakeup (ChPipe p ch)) ws k)" if "table_inv k" for ws k
    using that by (induction ws arbitrary: k) (auto simp: wakeup_def wakeup1_inv)
  moreover have "table_inv (set_files ((files k)\<lparr>woken := []\<rparr>) k)" using table_inv_core [OF assms] by simp
  ultimately show ?thesis unfolding deliver_def by blast
qed

text \<open>A process that is in use changes to a state in which it has not ended, not sleeping on a process.\<close>

lemma state_change:
  assumes inv: "table_inv k" and i: "i < nproc k" "st k i \<noteq> UNUSED"
    and p: "pid p = pid (proc_at k i)" "parent p = parent (proc_at k i)" "p_state p \<notin> {UNUSED, ZOMBIE}"
      "p_state p = SLEEPING \<Longrightarrow> (\<exists>j. p_chan p = Some (ChProc j)) \<Longrightarrow> st k i = SLEEPING \<and> p_chan p = p_chan (proc_at k i)"
    and k': "procs k' = (procs k)[i := p]" "nextpid k' = nextpid k" "initproc k' = initproc k"
  shows "pid_inv k' \<and> wait_inv k'"
proof -
  have n: "nproc k' = nproc k" using k'(1) by simp
  have at: "proc_at k' j = (if j = i then p else proc_at k j)" for j using k'(1) i(1) by simp
  have "pid_inv k'" by (rule pid_inv_mono [of k]) (use inv n k'(2) i p(1) in \<open>auto simp: table_inv_def at\<close>)
  moreover have "wait_inv k'"
  proof (rule wait_inv_mono [of k])
    show "st k x = SLEEPING \<and> p_chan (proc_at k x) = Some (ChProc j)"
      if "x < nproc k" "st k' x = SLEEPING" "p_chan (proc_at k' x) = Some (ChProc j)" for x j
      using that p(4) by (cases "x = i") (auto simp: at)
  qed (use inv n k'(3) p i in \<open>auto simp: table_inv_def at split: if_splits\<close>)
  ultimately show ?thesis by simp
qed

lemma kill_inv:
  assumes inv: "table_inv k" and r: "kill n k = (v, k')"
  shows "table_inv k'"
proof (cases "first_proc (\<lambda>p. pid p = n) [0..<nproc k] (procs k)")
  case None
  with assms show ?thesis by (simp add: kill_def)
next
  case (Some i)
  have i: "i < nproc k" using first_proc_Some(1) [OF Some] by simp
  let ?p = "(proc_at k i)\<lparr>killed := True\<rparr>"
  let ?q = "if p_state ?p = SLEEPING then ?p\<lparr>p_state := RUNNABLE\<rparr> else ?p"
  have k': "k' = set_proc i ?q k" using r Some by (auto simp: kill_def Let_def)
  show ?thesis
  proof (cases "st k i = SLEEPING")
    case False
    then have "same_core k k'" unfolding k' by (intro same_core_set_proc) (simp add: pcore_def)
    then show ?thesis by (rule table_inv_core [OF inv])
  next
    case True
    have "cpu_inv k'" unfolding k' by (rule cpu_inv_mono [of k]) (use inv True i in \<open>auto simp: table_inv_def proc_at_set_proc\<close>)
    moreover have "pid_inv k' \<and> wait_inv k'"
      using True i by (intro state_change [OF inv, of i ?q]) (simp_all add: k' set_proc_def)
    ultimately show ?thesis by (simp add: table_inv_def)
  qed
qed

lemma scheduler_inv:
  assumes inv: "table_inv k" and c: "c < length (current k)" "current k ! c = None" and r: "scheduler c k = Inr k'"
  shows "table_inv k'"
proof (cases "first_proc (\<lambda>p. p_state p = RUNNABLE) [scan k ! c..<nproc k] (procs k)")
  case None
  with r have "k' = k\<lparr>scan := (scan k)[c := 0]\<rparr>" by (simp add: scheduler_def)
  then have "same_core k k'" by (simp add: same_core_def)
  then show ?thesis by (rule table_inv_core [OF inv])
next
  case (Some i)
  then have i: "i < nproc k" "st k i = RUNNABLE" using first_proc_Some [OF Some] by simp_all
  let ?p = "(proc_at k i)\<lparr>p_state := RUNNING\<rparr>"
  have k': "procs k' = (procs k)[i := ?p]" "nextpid k' = nextpid k" "initproc k' = initproc k" "current k' = (current k)[c := Some i]"
    using r Some by (auto simp: scheduler_def andthen_Inr_iff set_proc_def)
  have "cpu_inv k'" by (rule cpu_inv_enter [of k c i]) (use inv c i k' in \<open>auto simp: table_inv_def\<close>)
  moreover have "pid_inv k' \<and> wait_inv k'" using i k' by (intro state_change [OF inv, of i ?p]) simp_all
  ultimately show ?thesis by (simp add: table_inv_def)
qed

definition running :: "nat \<Rightarrow> nat \<Rightarrow> kernel \<Rightarrow> bool" where
  "running c cur k \<longleftrightarrow> c < length (current k) \<and> current k ! c = Some cur"

lemma runningD:
  assumes "table_inv k" "running c cur k"
  shows "cur < nproc k" "st k cur = RUNNING" "c < length (current k)" "current k ! c = Some cur"
  using assms cpu_invD [of k c cur] by (auto simp: table_inv_def running_def)

lemma running_core: "same_core k k' \<Longrightarrow> running c cur k \<Longrightarrow> running c cur k'"
  by (simp add: running_def same_core_def)

lemma leave_cpu_inv:
  assumes inv: "table_inv k" and run: "running c cur k" and r: "leave_cpu c cur p k = Inr k'"
    and p: "pid p = pid (proc_at k cur)" "parent p = parent (proc_at k cur)" "p_state p \<notin> {UNUSED, ZOMBIE}"
      "p_state p = SLEEPING \<Longrightarrow> \<forall>j. p_chan p \<noteq> Some (ChProc j)"
  shows "table_inv k'"
proof -
  note R = runningD [OF inv run]
  have k': "procs k' = (procs k)[cur := p]" "nextpid k' = nextpid k" "initproc k' = initproc k"
    "current k' = (current k)[c := None]" and nr: "p_state p \<noteq> RUNNING"
    using r by (auto simp: leave_cpu_def andthen_Inr_iff sched_def set_proc_def split: if_splits)
  have "cpu_inv k'" by (rule cpu_inv_leave [of k c cur]) (use inv R k' nr in \<open>auto simp: table_inv_def\<close>)
  moreover have "pid_inv k' \<and> wait_inv k'" using R k' p by (intro state_change [OF inv, of cur p]) auto
  ultimately show ?thesis by (simp add: table_inv_def)
qed

lemma yield_inv: "table_inv k \<Longrightarrow> running c cur k \<Longrightarrow> yield c cur k = Inr k' \<Longrightarrow> table_inv k'"
  unfolding yield_def by (erule (2) leave_cpu_inv) simp_all

lemma sleep_inv:
  "table_inv k \<Longrightarrow> running c cur k \<Longrightarrow> sleep c cur ch k = Inr k' \<Longrightarrow> \<forall>j. ch \<noteq> ChProc j \<Longrightarrow> table_inv k'"
  unfolding sleep_def by (erule (2) leave_cpu_inv) simp_all

lemma sleep_return_inv:
  assumes inv: "table_inv k" and run: "running c cur k"
  shows "table_inv (sleep_return cur k)"
proof -
  note R = runningD [OF inv run]
  let ?p = "(proc_at k cur)\<lparr>p_chan := None\<rparr>"
  have "cpu_inv (sleep_return cur k)" by (rule cpu_inv_mono [of k]) (use inv R in \<open>auto simp: table_inv_def sleep_return_def proc_at_set_proc\<close>)
  moreover have "pid_inv (sleep_return cur k) \<and> wait_inv (sleep_return cur k)"
    using R by (intro state_change [OF inv, of cur ?p]) (simp_all add: sleep_return_def set_proc_def)
  ultimately show ?thesis by (simp add: table_inv_def)
qed

section \<open>New processes\<close>

lemma wait_invD:
  assumes "wait_inv k"
  shows "\<And>i j. i < nproc k \<Longrightarrow> parent (proc_at k i) = Some j \<Longrightarrow> st k i \<noteq> UNUSED \<and> j < nproc k \<and> j \<noteq> i"
    "\<And>n. initproc k = Some n \<Longrightarrow> n < nproc k \<and> st k n \<noteq> UNUSED \<and> parent (proc_at k n) = None"
    "\<And>i j. i < nproc k \<Longrightarrow> st k i = SLEEPING \<Longrightarrow> p_chan (proc_at k i) = Some (ChProc j) \<Longrightarrow> j = i"
    "\<And>i j. i < nproc k \<Longrightarrow> st k i = SLEEPING \<Longrightarrow> p_chan (proc_at k i) = Some (ChProc j) \<Longrightarrow> \<exists>x < nproc k. parent (proc_at k x) = Some i"
    "\<And>i j x. i < nproc k \<Longrightarrow> st k i = SLEEPING \<Longrightarrow> p_chan (proc_at k i) = Some (ChProc j) \<Longrightarrow> x < nproc k \<Longrightarrow>
      parent (proc_at k x) = Some i \<Longrightarrow> st k x \<noteq> ZOMBIE"
  using assms unfolding wait_inv_def by blast+

lemma new_entry:
  assumes inv: "table_inv k" and i: "i < nproc k" "st k i = UNUSED"
    and k': "procs k' = (procs k)[i := p]" "current k' = current k"
    and ini: "initproc k' = initproc k \<or> initproc k' = Some i \<and> p_state p \<noteq> UNUSED \<and> parent p = None"
    and s: "p_state p \<notin> {RUNNING, SLEEPING, ZOMBIE}"
    and pd: "nextpid k \<le> nextpid k'" "p_state p \<noteq> UNUSED \<Longrightarrow> pid p = nextpid k \<and> nextpid k < nextpid k'"
    and par: "\<And>q. parent p = Some q \<Longrightarrow> p_state p \<noteq> UNUSED \<and> q < nproc k \<and> st k q = RUNNING"
  shows "table_inv k'"
proof -
  have I: "cpu_inv k" "pid_inv k" "wait_inv k" using inv by (simp_all add: table_inv_def)
  note W = wait_invD [OF I(3)]
  have n: "nproc k' = nproc k" using k'(1) by simp
  have at: "proc_at k' j = (if j = i then p else proc_at k j)" for j using k'(1) i(1) by simp
  have "cpu_inv k'" using n k'(2) s i by (intro cpu_inv_mono [OF I(1)]) (auto simp: at)
  moreover have "pid_inv k'"
  proof -
    have "0 < nextpid k" using I(2) by (simp add: pid_inv_def)
    moreover have "0 < pid (proc_at k' j) \<and> pid (proc_at k' j) < nextpid k'" if "j < nproc k" "st k' j \<noteq> UNUSED" for j
      using that I(2) pd by (cases "j = i") (auto simp: at pid_inv_def)
    moreover have "a = b" if "a < nproc k" "b < nproc k" "st k' a \<noteq> UNUSED" "st k' b \<noteq> UNUSED"
        "pid (proc_at k' a) = pid (proc_at k' b)" for a b
      using that I(2) pd by (cases "a = i"; cases "b = i") (auto simp: at pid_inv_def)
    ultimately show ?thesis using pd(1) unfolding pid_inv_def n by fastforce
  qed
  moreover have "wait_inv k'"
  proof -
    have "st k' x \<noteq> UNUSED \<and> j < nproc k \<and> j \<noteq> x" if "x < nproc k" "parent (proc_at k' x) = Some j" for x j
    proof (cases "x = i")
      case True
      then have "parent p = Some j" using that(2) by (simp add: at)
      from par [OF this] True i(2) show ?thesis by (auto simp: at)
    next
      case False
      with W(1) [OF that(1), of j] that(2) show ?thesis by (simp add: at)
    qed
    moreover have "m < nproc k \<and> st k' m \<noteq> UNUSED \<and> parent (proc_at k' m) = None" if "initproc k' = Some m" for m
      using that ini W(2) [of m] i by (auto simp: at)
    moreover have "j = x \<and> (\<exists>y < nproc k. parent (proc_at k' y) = Some x) \<and> (\<forall>y < nproc k. parent (proc_at k' y) = Some x \<longrightarrow> st k' y \<noteq> ZOMBIE)"
      if "x < nproc k" "st k' x = SLEEPING" "p_chan (proc_at k' x) = Some (ChProc j)" for x j
    proof -
      note X = that(1)
      have x: "x \<noteq> i" "st k x = SLEEPING" "p_chan (proc_at k x) = Some (ChProc j)" using that s by (auto simp: at split: if_splits)
      obtain y where y: "y < nproc k" "parent (proc_at k y) = Some x" using W(4) [OF X x(2,3)] by blast
      then have "y \<noteq> i" using W(1) [OF y] i(2) by auto
      moreover have "st k' z \<noteq> ZOMBIE" if "z < nproc k" "parent (proc_at k' z) = Some x" for z
        using that s W(5) [OF \<open>x < nproc k\<close> x(2,3)] by (cases "z = i") (auto simp: at)
      ultimately show ?thesis using y W(3) [OF X x(2,3)] by (auto simp: at)
    qed
    ultimately show ?thesis unfolding wait_inv_def n by blast
  qed
  ultimately show ?thesis by (simp add: table_inv_def)
qed

lemma allocproc_cases:
  assumes "allocproc syms k = Inr (r, k')"
  obtains (none) "r = None" "k' = k"
  | (no_stack) i p where "r = None" "i < nproc k" "st k i = UNUSED" "procs k' = (procs k)[i := p]" "p_state p = UNUSED"
      "parent p = parent (proc_at k i)" "nextpid k' = nextpid k + 1" "current k' = current k" "initproc k' = initproc k"
  | (found) i p where "r = Some i" "i < nproc k" "st k i = UNUSED" "procs k' = (procs k)[i := p]" "p_state p = EMBRYO"
      "pid p = nextpid k" "parent p = parent (proc_at k i)" "nextpid k' = nextpid k + 1" "current k' = current k"
      "initproc k' = initproc k"
proof (cases "first_proc (\<lambda>p. p_state p = UNUSED) [0..<nproc k] (procs k)")
  case None
  with assms none show thesis by (simp add: allocproc_def)
next
  case (Some i)
  have i: "i < nproc k" "st k i = UNUSED" using first_proc_Some [OF Some] by simp_all
  obtain sp m where a: "kalloc (kpages k) = (sp, m)" by fastforce
  show thesis
  proof (cases "sp = 0")
    case True
    let ?p = "(proc_at k i)\<lparr>pid := nextpid k, kstack := sp, p_state := UNUSED\<rparr>"
    have "r = None" "procs k' = (procs k)[i := ?p]" "nextpid k' = nextpid k + 1" "current k' = current k" "initproc k' = initproc k"
      using assms Some a True i(1) by (auto simp: allocproc_def set_proc_def set_pages_def Let_def split: if_splits)
    then show thesis using i by (intro no_stack [of i ?p]) simp_all
  next
    case False
    obtain p where "r = Some i" "procs k' = (procs k)[i := p]" "p_state p = EMBRYO" "pid p = nextpid k"
      "parent p = parent (proc_at k i)" "nextpid k' = nextpid k + 1" "current k' = current k" "initproc k' = initproc k"
      using assms Some a False i(1) by (auto simp: allocproc_def set_proc_def set_pages_def Let_def split: if_splits)
    then show thesis using i by (intro found [of i p]) simp_all
  qed
qed

lemma fork_inv:
  assumes inv: "table_inv k" and run: "running c cur k" and r: "fork syms cur k = Inr (v, k')"
  shows "table_inv k'"
proof -
  note R = runningD [OF inv run]
  have W: "wait_inv k" using inv by (simp add: table_inv_def)
  from r obtain a k1 where al: "allocproc syms k = Inr (a, k1)" by (auto simp: fork_def andthen_Inr_iff)
  have orphan: "parent (proc_at k i) = None" if "i < nproc k" "st k i = UNUSED" for i
    using wait_invD(1) [OF W that(1)] that(2) by (cases "parent (proc_at k i)") auto
  from al show ?thesis
  proof (cases rule: allocproc_cases)
    case none
    with r al inv show ?thesis by (auto simp: fork_def)
  next
    case (no_stack i p)
    then have "k' = k1" using r al by (auto simp: fork_def)
    with no_stack orphan show ?thesis by (intro new_entry [OF inv, of i k' p]) simp_all
  next
    case (found i p)
    have at: "proc_at k1 i = p" using found by simp
    have "\<exists>q. procs k' = (procs k)[i := q] \<and> current k' = current k \<and> initproc k' = initproc k \<and> nextpid k' = nextpid k + 1 \<and>
      (p_state q = UNUSED \<and> parent q = None \<or> p_state q = RUNNABLE \<and> pid q = nextpid k \<and> parent q = Some cur)"
      using r al found orphan [of i]
      by (auto simp: fork_def andthen_Inr_iff Let_def at set_proc_def set_pages_def split: if_splits prod.splits)
    then obtain q where "procs k' = (procs k)[i := q]" "current k' = current k" "initproc k' = initproc k" "nextpid k' = nextpid k + 1"
      "p_state q = UNUSED \<and> parent q = None \<or> p_state q = RUNNABLE \<and> pid q = nextpid k \<and> parent q = Some cur" by blast
    with found R(1,2) show ?thesis by (intro new_entry [OF inv, of i k' q]) auto
  qed
qed

section \<open>The end of a process\<close>

lemma reap_inv:
  assumes inv: "table_inv k" and run: "running c cur k" and i: "i < nproc k" "parent (proc_at k i) = Some cur" "st k i = ZOMBIE"
    and k': "procs k' = (procs k)[i := p]" "current k' = current k" "initproc k' = initproc k" "nextpid k' = nextpid k"
    and p: "p_state p = UNUSED" "parent p = None"
  shows "table_inv k'"
proof -
  note R = runningD [OF inv run]
  have I: "cpu_inv k" "pid_inv k" "wait_inv k" using inv by (simp_all add: table_inv_def)
  note W = wait_invD [OF I(3)]
  have n: "nproc k' = nproc k" using k'(1) by simp
  have at: "proc_at k' j = (if j = i then p else proc_at k j)" for j using k'(1) i(1) by simp
  have "cpu_inv k'" using n k'(2) p i by (intro cpu_inv_mono [OF I(1)]) (auto simp: at)
  moreover have "pid_inv k'" using n k'(4) p by (intro pid_inv_mono [OF I(2)]) (auto simp: at split: if_splits)
  moreover have "wait_inv k'"
  proof -
    have "st k' x \<noteq> UNUSED \<and> j < nproc k \<and> j \<noteq> x" if "x < nproc k" "parent (proc_at k' x) = Some j" for x j
    proof (cases "x = i")
      case True
      with that(2) p(2) show ?thesis by (simp add: at)
    next
      case False
      with W(1) [OF that(1), of j] that(2) show ?thesis by (simp add: at)
    qed
    moreover have "m < nproc k \<and> st k' m \<noteq> UNUSED \<and> parent (proc_at k' m) = None" if "initproc k' = Some m" for m
      using that k'(3) W(2) [of m] i by (auto simp: at)
    moreover have "j = x \<and> (\<exists>y < nproc k. parent (proc_at k' y) = Some x) \<and> (\<forall>y < nproc k. parent (proc_at k' y) = Some x \<longrightarrow> st k' y \<noteq> ZOMBIE)"
      if "x < nproc k" "st k' x = SLEEPING" "p_chan (proc_at k' x) = Some (ChProc j)" for x j
    proof -
      note X = that(1)
      have x: "x \<noteq> i" "st k x = SLEEPING" "p_chan (proc_at k x) = Some (ChProc j)" using that p by (auto simp: at split: if_splits)
      obtain y where y: "y < nproc k" "parent (proc_at k y) = Some x" using W(4) [OF X x(2,3)] by blast
      have "x \<noteq> cur" using x(2) R(2) by auto
      then have "y \<noteq> i" using y(2) i(2) by auto
      moreover have "st k' z \<noteq> ZOMBIE" if "z < nproc k" "parent (proc_at k' z) = Some x" for z
        using that p W(5) [OF \<open>x < nproc k\<close> x(2,3)] by (cases "z = i") (auto simp: at)
      ultimately show ?thesis using y W(3) [OF X x(2,3)] by (auto simp: at)
    qed
    ultimately show ?thesis unfolding wait_inv_def n by blast
  qed
  ultimately show ?thesis by (simp add: table_inv_def)
qed

lemma wait_step_inv:
  assumes inv: "table_inv k" and run: "running c cur k" and r: "wait c cur k = Inr (v, k')"
  shows "table_inv k'"
proof -
  note R = runningD [OF inv run]
  have I: "cpu_inv k" "pid_inv k" "wait_inv k" using inv by (simp_all add: table_inv_def)
  let ?kids = "filter (\<lambda>i. parent (proc_at k i) = Some cur) [0..<nproc k]"
  show ?thesis
  proof (cases "first_proc (\<lambda>p. p_state p = ZOMBIE) ?kids (procs k)")
    case (Some i)
    have i: "i < nproc k" "parent (proc_at k i) = Some cur" "st k i = ZOMBIE" using first_proc_Some [OF Some] by auto
    obtain p where "procs k' = (procs k)[i := p]" "current k' = current k" "initproc k' = initproc k" "nextpid k' = nextpid k"
      "p_state p = UNUSED" "parent p = None"
      using r Some by (auto simp: wait_def andthen_Inr_iff Let_def set_proc_def set_pages_def)
    then show ?thesis by (intro reap_inv [OF inv run i])
  next
    case None
    show ?thesis
    proof (cases "?kids = [] \<or> killed (proc_at k cur)")
      case True
      with r None have "k' = k" by (auto simp: wait_def Let_def)
      with inv show ?thesis by simp
    next
      case False
      let ?p = "(proc_at k cur)\<lparr>p_chan := Some (ChProc cur), p_state := SLEEPING\<rparr>"
      have k': "procs k' = (procs k)[cur := ?p]" "nextpid k' = nextpid k" "initproc k' = initproc k" "current k' = (current k)[c := None]"
        using r None False
        by (auto simp: wait_def Let_def sleep_def leave_cpu_def andthen_Inr_iff sched_def set_proc_def split: if_splits)
      have n: "nproc k' = nproc k" using k'(1) by simp
      have at: "proc_at k' j = (if j = cur then ?p else proc_at k j)" for j using k'(1) R(1) by simp
      have "cpu_inv k'" using R n k'(4) by (intro cpu_inv_leave [OF I(1), of c cur]) (auto simp: at)
      moreover have "pid_inv k'" using n k'(2) R by (intro pid_inv_mono [OF I(2)]) (auto simp: at split: if_splits)
      moreover have "wait_inv k'"
      proof -
        note W = wait_invD [OF I(3)]
        have par: "parent (proc_at k' x) = parent (proc_at k x)" for x by (simp add: at)
        have zo: "st k' x = ZOMBIE \<longleftrightarrow> st k x = ZOMBIE" and un: "st k' x = UNUSED \<longleftrightarrow> st k x = UNUSED" for x
          using R(2) by (auto simp: at)
        have "\<exists>x < nproc k. parent (proc_at k x) = Some cur" using False by (auto simp: filter_empty_conv)
        moreover have "st k x \<noteq> ZOMBIE" if "x < nproc k" "parent (proc_at k x) = Some cur" for x
          using first_proc_None [OF None, of x] that by simp
        ultimately have "j = x \<and> (\<exists>y < nproc k. parent (proc_at k y) = Some x) \<and> (\<forall>y < nproc k. parent (proc_at k y) = Some x \<longrightarrow> st k y \<noteq> ZOMBIE)"
          if "x < nproc k" "st k' x = SLEEPING" "p_chan (proc_at k' x) = Some (ChProc j)" for x j
          using that W(3,4,5) [of x j] by (cases "x = cur") (auto simp: at)
        with W(1,2) show ?thesis unfolding wait_inv_def n par zo un k'(3) by blast
      qed
      ultimately show ?thesis by (simp add: table_inv_def)
    qed
  qed
qed

text \<open>What the loop over the children does: those in \<open>S\<close> get a new parent, which is woken up if one of them has ended.\<close>

definition reparented :: "nat set \<Rightarrow> nat \<Rightarrow> nat option \<Rightarrow> kernel \<Rightarrow> kernel \<Rightarrow> bool" where
  "reparented S cur ini k k' \<longleftrightarrow> nproc k' = nproc k \<and> current k' = current k \<and> initproc k' = initproc k \<and>
     nextpid k' = nextpid k \<and>
     (\<forall>i < nproc k. pid (proc_at k' i) = pid (proc_at k i) \<and> p_chan (proc_at k' i) = p_chan (proc_at k i)) \<and>
     (\<forall>i < nproc k. st k' i = st k i \<or> st k i = SLEEPING \<and> st k' i = RUNNABLE) \<and>
     (\<forall>i < nproc k. parent (proc_at k' i) = (if i \<in> S \<and> parent (proc_at k i) = Some cur then ini else parent (proc_at k i))) \<and>
     (\<forall>x \<in> S. \<forall>q < nproc k. ini = Some q \<longrightarrow> parent (proc_at k x) = Some cur \<longrightarrow> st k x = ZOMBIE \<longrightarrow>
        p_chan (proc_at k q) = Some (ChProc q) \<longrightarrow> st k' q \<noteq> SLEEPING)"

lemma reparentedD:
  assumes "reparented S cur ini k k'"
  shows "nproc k' = nproc k" "current k' = current k" "initproc k' = initproc k" "nextpid k' = nextpid k"
    "\<And>i. i < nproc k \<Longrightarrow> pid (proc_at k' i) = pid (proc_at k i)" "\<And>i. i < nproc k \<Longrightarrow> p_chan (proc_at k' i) = p_chan (proc_at k i)"
    "\<And>i. i < nproc k \<Longrightarrow> st k' i = st k i \<or> st k i = SLEEPING \<and> st k' i = RUNNABLE"
    "\<And>i. i < nproc k \<Longrightarrow> parent (proc_at k' i) = (if i \<in> S \<and> parent (proc_at k i) = Some cur then ini else parent (proc_at k i))"
    "\<And>x q. x \<in> S \<Longrightarrow> q < nproc k \<Longrightarrow> ini = Some q \<Longrightarrow> parent (proc_at k x) = Some cur \<Longrightarrow> st k x = ZOMBIE \<Longrightarrow>
        p_chan (proc_at k q) = Some (ChProc q) \<Longrightarrow> st k' q \<noteq> SLEEPING"
  using assms unfolding reparented_def by simp_all

lemma wakeup_proc_core:
  "nproc (wakeup_proc q k) = nproc k" "current (wakeup_proc q k) = current k" "initproc (wakeup_proc q k) = initproc k"
  "nextpid (wakeup_proc q k) = nextpid k"
  "i < nproc k \<Longrightarrow> proc_at (wakeup_proc q k) i = (case q of None \<Rightarrow> proc_at k i | Some j \<Rightarrow> wake_proc (ChProc j) (proc_at k i))"
  by (auto simp: wakeup_proc_def proc_at_wakeup1 split: option.splits)

lemma reparented_one:
  assumes "i < nproc k" "parent (proc_at k i) = Some cur"
  shows "reparented {i} cur ini k
    (let k1 = set_proc i ((proc_at k i)\<lparr>parent := ini\<rparr>) k in if st k1 i = ZOMBIE then wakeup_proc ini k1 else k1)"
  using assms by (auto simp: reparented_def Let_def proc_at_set_proc wakeup_proc_core wake_proc_def split: option.splits)

lemma reparented_trans:
  assumes A: "reparented S cur ini k k1" and B: "reparented T cur ini k1 k2" and ini: "ini \<noteq> Some cur" and T: "T \<subseteq> {..<nproc k}"
  shows "reparented (S \<union> T) cur ini k k2"
proof -
  note a = reparentedD [OF A] and b = reparentedD [OF B]
  have "st k2 q \<noteq> SLEEPING" if x: "x \<in> S \<union> T" "q < nproc k" "ini = Some q" "parent (proc_at k x) = Some cur" "st k x = ZOMBIE"
    "p_chan (proc_at k q) = Some (ChProc q)" for x q
  proof -
    have q: "st k1 q \<noteq> SLEEPING \<Longrightarrow> st k2 q \<noteq> SLEEPING" using b(7) [of q] a(1) x(2) by auto
    show ?thesis
    proof (cases "x \<in> S")
      case True
      from a(9) [OF True x(2-6)] q show ?thesis by simp
    next
      case False
      then have xT: "x \<in> T" "x < nproc k" using x(1) T by auto
      have "parent (proc_at k1 x) = Some cur" "st k1 x = ZOMBIE" "p_chan (proc_at k1 q) = Some (ChProc q)"
        using a(6) [OF x(2)] a(7,8) [OF xT(2)] False x by auto
      from b(9) [OF xT(1) _ x(3) this] a(1) x(2) show ?thesis by simp
    qed
  qed
  moreover have "st k2 i = st k i \<or> st k i = SLEEPING \<and> st k2 i = RUNNABLE" if "i < nproc k" for i
    using a(7) [OF that] b(7) [of i] a(1) that by auto
  moreover have "parent (proc_at k2 i) = (if i \<in> S \<union> T \<and> parent (proc_at k i) = Some cur then ini else parent (proc_at k i))"
    if "i < nproc k" for i
    using a(8) [OF that] b(8) [of i] a(1) that ini by auto
  ultimately show ?thesis using a(1-6) b(1-6) unfolding reparented_def by simp
qed

lemma reparent_spec:
  "set is \<subseteq> {..<nproc k} \<Longrightarrow> ini \<noteq> Some cur \<Longrightarrow> reparented (set is) cur ini k (reparent is cur ini k)"
proof (induction "is" cur ini k rule: reparent.induct)
  case (1 cur ini k)
  show ?case by (simp add: reparented_def)
next
  case (2 i "is" cur ini k)
  show ?case
  proof (cases "parent (proc_at k i) = Some cur")
    case True
    let ?k1 = "set_proc i ((proc_at k i)\<lparr>parent := ini\<rparr>) k"
    let ?k2 = "if st ?k1 i = ZOMBIE then wakeup_proc ini ?k1 else ?k1"
    have i: "i < nproc k" using 2 by simp
    have A: "reparented {i} cur ini k ?k2" using reparented_one [OF i True, of ini] by (simp add: Let_def)
    have n: "nproc ?k2 = nproc k" using reparentedD(1) [OF A] .
    have "reparented (set is) cur ini ?k2 (reparent is cur ini ?k2)"
      using 2(1) [OF True refl] 2(3,4) n by simp
    from reparented_trans [OF A this 2(4)] 2(3) True show ?thesis by (simp add: Let_def)
  next
    case False
    with 2(2) [OF False] 2(3,4) have "reparented (set is) cur ini k (reparent is cur ini k)" by simp
    with False show ?thesis by (auto simp: reparented_def)
  qed
qed

lemma exit_proc_inv:
  assumes inv: "table_inv k" and run: "running c cur k" and ini: "initproc k \<noteq> Some cur" and r: "exit_proc c cur k = Inr k'"
  shows "table_inv k'"
proof -
  note R = runningD [OF inv run]
  define k1 where "k1 = wakeup_proc (parent (proc_at k cur)) k"
  define k2 where "k2 = reparent [0..<nproc k1] cur (initproc k1) k1"
  have "table_inv k1" unfolding k1_def wakeup_proc_def using inv wakeup1_inv by (cases "parent (proc_at k cur)") simp_all
  then have I: "cpu_inv k1" "pid_inv k1" "wait_inv k1" by (simp_all add: table_inv_def)
  note W = wait_invD [OF I(3)]
  have n1: "nproc k1 = nproc k" "current k1 = current k" "initproc k1 = initproc k" by (simp_all add: k1_def wakeup_proc_core)
  have c1: "cur < nproc k1" "st k1 cur = RUNNING" "parent (proc_at k1 cur) = parent (proc_at k cur)"
    using R n1 by (simp_all add: k1_def wakeup_proc_core wake_proc_def split: option.splits)
  have awake: "\<not> (st k1 q = SLEEPING \<and> p_chan (proc_at k1 q) = Some (ChProc q))"
    if "parent (proc_at k cur) = Some q" "q < nproc k" for q
    using that by (simp add: k1_def wakeup_proc_core wake_proc_def)
  have rep: "reparented {..<nproc k} cur (initproc k) k1 k2"
    using reparent_spec [of "[0..<nproc k1]" k1 "initproc k1" cur] ini n1 by (simp add: k2_def lessThan_atLeast0)
  note P = reparentedD [OF rep]
  let ?p = "(proc_at k2 cur)\<lparr>p_state := ZOMBIE\<rparr>"
  have k': "procs k' = (procs k2)[cur := ?p]" "nextpid k' = nextpid k2" "initproc k' = initproc k2" "current k' = (current k2)[c := None]"
    using r by (auto simp: exit_proc_def Let_def k1_def [symmetric] k2_def [symmetric] leave_cpu_def andthen_Inr_iff sched_def set_proc_def split: if_splits)
  have n: "nproc k' = nproc k" using k'(1) P(1) n1(1) by simp
  have at: "proc_at k' j = (if j = cur then ?p else proc_at k2 j)" for j using k'(1) c1(1) P(1) by simp
  have s': "st k' j = (if j = cur then ZOMBIE else st k2 j)" for j by (simp add: at)
  have s2: "st k2 j = RUNNING \<longleftrightarrow> st k1 j = RUNNING" "st k2 j = UNUSED \<longleftrightarrow> st k1 j = UNUSED" "st k2 j = ZOMBIE \<longleftrightarrow> st k1 j = ZOMBIE"
    "st k2 j = SLEEPING \<Longrightarrow> st k1 j = SLEEPING" if "j < nproc k" for j
    using P(7) [of j] that n1(1) by auto
  have par: "parent (proc_at k' j) = (if parent (proc_at k1 j) = Some cur then initproc k else parent (proc_at k1 j))" if "j < nproc k" for j
    using P(8) [of j] that n1(1) by (cases "j = cur") (simp_all add: at)
  have "cpu_inv k'"
    using R n n1 P(1,2) k'(4) s' s2 c1(1) by (intro cpu_inv_leave [OF I(1), of c cur]) auto
  moreover have "pid_inv k'"
    using n n1 k'(2) P(4,5) s' s2 c1 by (intro pid_inv_mono [OF I(2)]) (auto simp: at)
  moreover have "wait_inv k'"
  proof -
    have "st k' x \<noteq> UNUSED \<and> j < nproc k \<and> j \<noteq> x" if x: "x < nproc k" "parent (proc_at k' x) = Some j" for x j
    proof (cases "parent (proc_at k1 x) = Some cur")
      case True
      then have j: "initproc k = Some j" using par [OF x(1)] x(2) by simp
      have "st k1 x \<noteq> UNUSED" "x \<noteq> cur" using W(1) [OF _ True] x(1) n1(1) by auto
      moreover have "j < nproc k" "parent (proc_at k1 j) = None" using W(2) [of j] j n1 by auto
      ultimately show ?thesis using True s' s2(2) [OF x(1)] by auto
    next
      case False
      then have "parent (proc_at k1 x) = Some j" using par [OF x(1)] x(2) by simp
      from W(1) [OF _ this] x(1) n1(1) s' s2(2) [OF x(1)] show ?thesis by auto
    qed
    moreover have "m < nproc k \<and> st k' m \<noteq> UNUSED \<and> parent (proc_at k' m) = None" if "initproc k = Some m" for m
      using W(2) [of m] that n1 s' s2(2) [of m] par [of m] by auto
    moreover have "j = x \<and> (\<exists>y < nproc k. parent (proc_at k' y) = Some x) \<and> (\<forall>y < nproc k. parent (proc_at k' y) = Some x \<longrightarrow> st k' y \<noteq> ZOMBIE)"
      if x: "x < nproc k" "st k' x = SLEEPING" "p_chan (proc_at k' x) = Some (ChProc j)" for x j
    proof -
      have nc: "x \<noteq> cur" "st k2 x = SLEEPING" using x(2) s' by (auto split: if_splits)
      have x1: "x < nproc k1" "st k1 x = SLEEPING" "p_chan (proc_at k1 x) = Some (ChProc j)"
        using x nc s2(4) P(6) [of x] n1(1) by (auto simp: at)
      have jx: "j = x" using W(3) [OF x1] .
      obtain y where y: "y < nproc k1" "parent (proc_at k1 y) = Some x" using W(4) [OF x1] by blast
      have "parent (proc_at k' y) = Some x" using par [of y] y n1(1) nc(1) by simp
      moreover have "st k' z \<noteq> ZOMBIE" if z: "z < nproc k" "parent (proc_at k' z) = Some x" for z
      proof
        assume zz: "st k' z = ZOMBIE"
        show False
        proof (cases "parent (proc_at k1 z) = Some cur")
          case True
          then have q: "initproc k = Some x" using par [OF z(1)] z(2) by simp
          have "z \<noteq> cur" using W(1) [OF _ True] z(1) n1(1) by auto
          then have "st k1 z = ZOMBIE" using zz s' s2(3) [OF z(1)] by simp
          from P(9) [OF _ _ q True this] x1 jx z(1) nc(2) n1(1) show False by simp
        next
          case False
          then have px: "parent (proc_at k1 z) = Some x" using par [OF z(1)] z(2) by simp
          show False
          proof (cases "z = cur")
            case True
            with px c1(3) awake [of x] x(1) x1 jx show False by simp
          next
            case False
            then have "st k1 z = ZOMBIE" using zz s' s2(3) [OF z(1)] by simp
            with W(5) [OF x1 _ px] z(1) n1(1) show False by simp
          qed
        qed
      qed
      ultimately show ?thesis using jx y(1) n1(1) by auto
    qed
    ultimately show ?thesis unfolding wait_inv_def n k'(3) P(3) n1(3) by blast
  qed
  ultimately show ?thesis by (simp add: table_inv_def)
qed

lemma exit_inv:
  assumes inv: "table_inv k" and run: "running c cur k" and r: "exit c cur k = Inr k'"
  shows "table_inv k'"
proof -
  from r obtain k1 where e: "exit_files cur k = Inr k1" "exit_proc c cur k1 = Inr k'" by (auto simp: exit_def andthen_Inr_iff)
  from e(1) have ini: "initproc k \<noteq> Some cur" by (auto simp: exit_files_def split: if_splits)
  from e(1) obtain kf p where k1: "k1 = set_proc cur p (k\<lparr>files := kf\<rparr>)" and p: "pcore p = pcore (proc_at k cur)"
    by (auto simp: exit_files_def andthen_Inr_iff pcore_def split: if_splits)
  have "same_core (k\<lparr>files := kf\<rparr>) k1" unfolding k1 by (rule same_core_set_proc) (simp add: p)
  then have core: "same_core k k1" by (rule same_core_trans [OF same_core_files(1)])
  show ?thesis
    using exit_proc_inv [OF table_inv_core [OF inv core] running_core [OF core run] _ e(2)] ini core by (simp add: same_core_def)
qed

section \<open>System calls\<close>

lemma andthenE: "andthen x f = Inr r \<Longrightarrow> (\<And>a. x = Inr a \<Longrightarrow> f a = Inr r \<Longrightarrow> P) \<Longrightarrow> P"
  by (cases x) simp_all

text \<open>A call of the process \<open>cur\<close> on processor \<open>c\<close> keeps the invariants, and a call that returns keeps the processor.\<close>

definition kept :: "nat \<Rightarrow> nat \<Rightarrow> sysret \<times> kernel \<Rightarrow> bool" where
  "kept c cur rk \<longleftrightarrow> table_inv (snd rk) \<and> (\<forall>v. fst rk = Ret v \<longrightarrow> running c cur (snd rk))"

lemma kept_core: "table_inv k \<Longrightarrow> running c cur k \<Longrightarrow> same_core k k' \<Longrightarrow> kept c cur (r, k')"
  by (simp add: kept_def table_inv_core running_core)

lemma running_deliver: "running c cur k \<Longrightarrow> running c cur (deliver k)"
proof -
  have "current (fold (\<lambda>(p, ch). wakeup (ChPipe p ch)) ws k) = current k" for ws and k :: kernel
    by (induction ws arbitrary: k) (auto elim!: andthenE simp: wakeup_def wakeup1_def)
  then show "running c cur k \<Longrightarrow> running c cur (deliver k)" by (simp add: running_def deliver_def)
qed

lemma kept_deliver: "table_inv k \<Longrightarrow> running c cur k \<Longrightarrow> same_core k k' \<Longrightarrow> kept c cur (r, deliver k')"
  by (simp add: kept_def table_inv_core running_core deliver_inv running_deliver)

lemma kept_block:
  "table_inv k \<Longrightarrow> running c cur k \<Longrightarrow> \<forall>j. ch \<noteq> ChProc j \<Longrightarrow> block c cur ch rest k = Inr rk \<Longrightarrow> kept c cur rk"
  by (auto elim!: andthenE simp: block_def  kept_def intro: sleep_inv)

lemma kept_block_deliver:
  assumes "table_inv k" "running c cur k" "same_core k k'" "block c cur (ChPipe p ch) rest (deliver k') = Inr rk"
  shows "kept c cur rk"
  by (rule kept_block [OF _ _ _ assms(4)]) (use assms in \<open>simp_all add: table_inv_core running_core deliver_inv running_deliver\<close>)

lemma same_core_upd [simp]:
  "same_core (set_files kf k) k' \<longleftrightarrow> same_core k k'" "same_core (set_pages m k) k' \<longleftrightarrow> same_core k k'"
  "same_core k (set_files kf k') \<longleftrightarrow> same_core k k'" "same_core k (set_pages m k') \<longleftrightarrow> same_core k k'"
  by (simp_all add: same_core_def set_pages_def)

lemma same_core_into:
  "same_core k k' \<Longrightarrow> same_core k (set_fd cur fd f k')"
  "same_core k k' \<Longrightarrow> pcore p = pcore (proc_at k' i) \<Longrightarrow> same_core k (set_proc i p k')"
  by (auto intro: same_core_trans same_core_set_proc)

lemma same_core_fdallocs: "same_core k k1 \<Longrightarrow> fdalloc f cur k1 = (r, k') \<Longrightarrow> same_core k k'"
  using same_core_fdalloc same_core_trans by blast

named_theorems sys_defs

lemmas [sys_defs] = sys_dup_def sys_fstat_def on_files_def with_cwd_def sys_link_def sys_unlink_def sys_mkdir_def sys_mknod_def
  sys_chdir_def open_fd_def sys_open_def sys_getpid_def sys_uptime_def sys_sbrk_def growproc_def exec_bad_def exec_commit_def

lemma growproc_core: "growproc cur n k = Inr (v, k') \<Longrightarrow> same_core k k'"
  by (auto elim!: andthenE simp: growproc_def Let_def  pcore_def set_pages_def intro!: same_core_into split: if_split_asm option.split_asm)

lemma exec_bad_core: "exec_bad pgd ip m f k = Inr (v, k') \<Longrightarrow> same_core k k'"
  by (auto elim!: andthenE simp: exec_bad_def )

lemma exec_commit_core: "exec_commit cur path pgd sz entry sp k = Inr (v, k') \<Longrightarrow> same_core k k'"
  by (auto elim!: andthenE simp: exec_commit_def Let_def  pcore_def intro!: same_core_into)

lemma exec_core: "exec syms wd cur path argv k = Inr (v, k') \<Longrightarrow> same_core k k'"
  by (auto elim!: andthenE simp: exec_def Let_def split: if_split_asm option.split_asm prod.split_asm
    dest!: exec_bad_core exec_commit_core)

lemma open_fd_core: "open_fd ip cur om k = Inr (r, k') \<Longrightarrow> same_core k k'"
  by (auto elim!: andthenE simp: open_fd_def Let_def dest!: same_core_fdalloc split: option.split_asm prod.split_asm)

lemma simple_call_core:
  "sys_dup cur k = Inr (r, k') \<Longrightarrow> same_core k k'" "sys_fstat cur k = Inr (r, k') \<Longrightarrow> same_core k k'"
  "sys_link cur k = Inr (r, k') \<Longrightarrow> same_core k k'" "sys_unlink cur k = Inr (r, k') \<Longrightarrow> same_core k k'"
  "sys_mkdir cur k = Inr (r, k') \<Longrightarrow> same_core k k'" "sys_mknod cur k = Inr (r, k') \<Longrightarrow> same_core k k'"
  "sys_chdir cur k = Inr (r, k') \<Longrightarrow> same_core k k'" "sys_getpid cur k = Inr (r, k') \<Longrightarrow> same_core k k'"
  "sys_uptime k = Inr (r, k') \<Longrightarrow> same_core k k'"
  by (auto elim!: andthenE simp: sys_defs Let_def  pcore_def intro!: same_core_into dest!: same_core_fdalloc
    split: option.split_asm prod.split_asm)

lemma sys_sbrk_core: "sys_sbrk cur k = Inr (r, k') \<Longrightarrow> same_core k k'"
  by (auto elim!: andthenE simp: sys_sbrk_def  dest!: growproc_core split: option.split_asm)

lemma sys_open_core: "sys_open cur k = Inr (r, k') \<Longrightarrow> same_core k k'"
  by (auto elim!: andthenE simp: sys_open_def with_cwd_def dest!: open_fd_core split: option.split_asm)

lemma sys_exec_core: "sys_exec syms cur k = Inr (r, k') \<Longrightarrow> same_core k k'"
  by (auto elim!: andthenE simp: sys_exec_def with_cwd_def  dest!: exec_core split: option.split_asm)

lemma pipe_fail_kept:
  "table_inv k \<Longrightarrow> running c cur k \<Longrightarrow> same_core k k' \<Longrightarrow> pipe_fail rd wr k' = Inr rk \<Longrightarrow> kept c cur rk"
  by (auto elim!: andthenE simp: pipe_fail_def  intro!: kept_deliver same_core_into)

lemma sys_pipe_kept:
  assumes "table_inv k" "running c cur k" "sys_pipe cur k = Inr rk"
  shows "kept c cur rk"
proof -
  note fail = pipe_fail_kept [OF assms(1,2)] and core = kept_core [OF assms(1,2)]
  have 2: "same_core k k2" if "fdalloc f cur (set_files kf k) = (x, k2)" for f kf x k2
    using same_core_fdalloc [OF that] by simp
  have 3: "same_core k k3" if "fdalloc f cur (set_files kf k) = (x, k2)" "fdalloc g cur k2 = (y, k3)" for f kf x k2 g y k3
    using same_core_trans [OF 2 [OF that(1)] same_core_fdalloc [OF that(2)]] .
  have fail2: "kept c cur rk"
    if "fdalloc f cur (set_files kf k) = (x, k2)" "pipe_fail rd wr k2 = Inr rk" for f kf x k2 rd wr
    using fail [OF 2 [OF that(1)] that(2)] .
  have fail3: "kept c cur rk"
    if "fdalloc f cur (set_files kf k) = (x, k2)" "fdalloc g cur k2 = (y, k3)" "pipe_fail rd wr (set_fd cur fd None k3) = Inr rk"
    for f kf x k2 g y k3 rd wr fd
    using fail [OF same_core_into(1) [OF 3 [OF that(1,2)]] that(3)] .
  have core3: "kept c cur (v, set_pages m k3)"
    if "fdalloc f cur (set_files kf k) = (x, k2)" "fdalloc g cur k2 = (y, k3)" for f kf x k2 g y k3 v m
    using core 3 [OF that] by simp
  from assms(3) obtain a where a: "argptr 0 8 (proc_at k cur) (kpages k) = Inr a" by (auto simp: sys_pipe_def elim!: andthenE)
  show ?thesis
  proof (cases a)
    case None
    with assms(3) a core show ?thesis by (auto simp: sys_pipe_def)
  next
    case (Some p)
    with assms(3) a obtain r kf where al: "pipealloc (files k) = Inr (r, kf)" by (auto simp: sys_pipe_def elim!: andthenE)
    let ?k1 = "set_files kf k"
    show ?thesis
    proof (cases r)
      case None
      with assms(3) a Some al core show ?thesis by (auto simp: sys_pipe_def)
    next
      case (Some fds)
      obtain rd wr where fds: "fds = (rd, wr)" by (cases fds)
      obtain x k2 where f0: "fdalloc rd cur ?k1 = (x, k2)" by (cases "fdalloc rd cur ?k1")
      obtain y k3 where f1: "fdalloc wr cur k2 = (y, k3)" by (cases "fdalloc wr cur k2")
      have "sys_pipe cur k = (case x of None \<Rightarrow> pipe_fail rd wr k2
        | Some fd0 \<Rightarrow> (case y of None \<Rightarrow> pipe_fail rd wr (set_fd cur fd0 None k3)
          | Some fd1 \<Rightarrow> andthen (put_user (pgdir (proc_at k3 cur)) p (le_bytes 4 fd0 @ le_bytes 4 fd1) (kpages k3))
              (\<lambda>m. Inr (Ret 0, set_pages m k3))))"
        using a \<open>a = Some p\<close> al Some fds f0 f1 by (cases x; cases y) (simp_all add: sys_pipe_def)
      then have e: "\<dots> = Inr rk" using assms(3) by simp
      show ?thesis
      proof (cases x)
        case None
        then show ?thesis using e by (intro fail2 [OF f0]) simp
      next
        case x: (Some fd0)
        show ?thesis
        proof (cases y)
          case None
          then show ?thesis using e x by (intro fail3 [OF f0 f1]) simp
        next
          case (Some fd1)
          then show ?thesis using e x core3 [OF f0 f1] by (auto elim!: andthenE)
        qed
      qed
    qed
  qed
qed

lemma sys_read_kept:
  assumes "table_inv k" "running c cur k" "sys_read c cur k = Inr rk"
  shows "kept c cur rk"
proof -
  have blk: "kept c cur rk" if "block c cur (ChPipe p ch) rest (deliver (set_pages m (set_files kf k))) = Inr rk" for p ch rest m kf
    by (rule kept_block_deliver [OF assms(1,2) _ that]) simp
  show ?thesis
    using assms(3) unfolding sys_read_def
    by (elim andthenE) (auto simp: Let_def elim!: andthenE intro!: kept_core [OF assms(1,2)] kept_deliver [OF assms(1,2)]
      split: option.split_asm outcome.split_asm dest!: blk)
qed

lemma sys_write_kept:
  assumes "table_inv k" "running c cur k" "sys_write c cur k = Inr rk"
  shows "kept c cur rk"
proof -
  have blk: "kept c cur rk" if "block c cur (ChPipe p ch) rest (deliver (set_files kf k)) = Inr rk" for p ch rest kf
    by (rule kept_block_deliver [OF assms(1,2) _ that]) simp
  show ?thesis
    using assms(3) unfolding sys_write_def
    by (elim andthenE) (auto simp: Let_def elim!: andthenE intro!: kept_core [OF assms(1,2)] kept_deliver [OF assms(1,2)]
      split: option.split_asm outcome.split_asm dest!: blk)
qed

lemma sys_close_kept:
  "table_inv k \<Longrightarrow> running c cur k \<Longrightarrow> sys_close cur k = Inr rk \<Longrightarrow> kept c cur rk"
  by (auto elim!: andthenE simp: sys_close_def Let_def  intro!: kept_core kept_deliver same_core_into split: option.split_asm)

lemma sys_sleep_kept:
  assumes "table_inv k" "running c cur k" "sys_sleep c cur k = Inr rk"
  shows "kept c cur rk"
  using assms(3) kept_core [OF assms(1,2) same_core_refl] kept_block [OF assms(1,2), of ChTicks "[]" rk]
  by (auto simp: sys_sleep_def sleep_pass_def elim!: andthenE split: option.split_asm if_split_asm)

lemma sys_exit_kept:
  assumes "table_inv k" "running c cur k" "sys_exit c cur k = Inr rk"
  shows "kept c cur rk"
proof -
  from assms(3) obtain k1 where k1: "exit c cur k = Inr k1" "rk = (Gone, deliver k1)" by (auto simp: sys_exit_def elim!: andthenE)
  from deliver_inv [OF exit_inv [OF assms(1,2) k1(1)]] k1(2) show ?thesis by (simp add: kept_def)
qed

lemma running_current: "current k' = current k \<Longrightarrow> running c cur k \<Longrightarrow> running c cur k'"
  by (simp add: running_def)

lemma kill_current: "kill n k = (v, k') \<Longrightarrow> current k' = current k"
  by (auto elim!: andthenE simp: kill_def Let_def split: option.split_asm)

lemma sys_kill_kept:
  assumes "table_inv k" "running c cur k" "sys_kill cur k = Inr rk"
  shows "kept c cur rk"
proof -
  have "kept c cur (Ret v, k1)" if "kill n k = (v, k1)" for n v k1
    using kill_inv [OF assms(1) that] running_current [OF kill_current [OF that] assms(2)] by (simp add: kept_def)
  then show ?thesis using assms(3) kept_core [OF assms(1,2) same_core_refl]
    by (auto simp: sys_kill_def elim!: andthenE split: option.split_asm prod.split_asm)
qed

lemma fork_current: "fork syms cur k = Inr (v, k') \<Longrightarrow> current k' = current k"
  by (auto elim!: andthenE simp: fork_def allocproc_def set_pages_def Let_def  split: option.split_asm if_split_asm prod.split_asm)

lemma sys_fork_kept:
  assumes "table_inv k" "running c cur k" "sys_fork syms cur k = Inr rk"
  shows "kept c cur rk"
  using assms by (auto elim!: andthenE simp: sys_fork_def  kept_def dest: fork_inv [OF assms(1,2)] running_current [OF fork_current])

lemma wait_current: "wait c cur k = Inr (Some v, k') \<Longrightarrow> current k' = current k"
  by (auto elim!: andthenE simp: wait_def set_pages_def Let_def  split: option.split_asm if_split_asm)

lemma sys_wait_kept:
  assumes "table_inv k" "running c cur k" "sys_wait c cur k = Inr rk"
  shows "kept c cur rk"
  using assms by (auto elim!: andthenE simp: sys_wait_def  kept_def split: option.split_asm
    dest: wait_step_inv [OF assms(1,2)] running_current [OF wait_current])

lemmas call_kept = sys_pipe_kept sys_read_kept sys_write_kept sys_close_kept sys_sleep_kept sys_exit_kept sys_kill_kept
  sys_fork_kept sys_wait_kept

lemmas call_core = simple_call_core sys_sbrk_core sys_open_core sys_exec_core

declare syscalls.simps [simp del]

lemma syscalls_kept:
  assumes inv: "table_inv k" and run: "running c cur k" and call: "syscalls syms c cur num = Some f" "f k = Inr rk"
  shows "kept c cur rk"
proof (cases rk)
  case (Pair r k')
  have core: "kept c cur rk" if "same_core k k'" using kept_core [OF inv run that] Pair by simp
  note cores = call_core [THEN core]
  from call(1) have "f \<in> {sys_fork syms cur, sys_exit c cur, sys_wait c cur, sys_pipe cur, sys_read c cur, sys_kill cur, sys_exec syms cur,
      sys_fstat cur, sys_chdir cur, sys_dup cur, sys_getpid cur, sys_sbrk cur, sys_sleep c cur, sys_uptime, sys_open cur, sys_write c cur,
      sys_mknod cur, sys_unlink cur, sys_link cur, sys_mkdir cur, sys_close cur}"
    unfolding syscalls.simps by (simp split: if_split_asm)
  then show ?thesis using call(2) unfolding insert_iff empty_iff
    by (elim disjE FalseE) (auto simp: Pair intro: call_kept [OF inv run, where rk = rk, unfolded Pair] cores [unfolded Pair])
qed

lemma syscall_kept:
  assumes inv: "table_inv k" and run: "running c cur k" and r: "syscall syms c cur k = Inr rk"
  shows "kept c cur rk"
proof -
  let ?x = "case syscalls syms c cur (int32 (tf_eax (tf (proc_at k cur)))) of Some call \<Rightarrow> call k | None \<Rightarrow> Inr (Ret (- 1), k)"
  let ?f = "\<lambda>r k1. case r of
            Ret v \<Rightarrow> Inr (r, set_proc cur ((proc_at k1 cur)\<lparr>tf := (tf (proc_at k1 cur))\<lparr>tf_eax := uint_of v\<rparr>\<rparr>) k1)
          | _ \<Rightarrow> Inr (r, k1)"
  have eq: "andthen ?x (\<lambda>(r, k1). ?f r k1) = Inr rk" using r unfolding syscall_def .
  obtain r0 k1 where 1: "?x = Inr (r0, k1)" using eq by (cases ?x) (simp, fastforce)
  have 2: "?f r0 k1 = Inr rk" using eq unfolding 1 by (cases r0) simp_all
  have k1: "kept c cur (r0, k1)" using 1 kept_core [OF inv run] syscalls_kept [OF inv run] by (auto split: option.split_asm)
  show ?thesis
  proof (cases r0)
    case (Ret v)
    let ?k2 = "set_proc cur ((proc_at k1 cur)\<lparr>tf := (tf (proc_at k1 cur))\<lparr>tf_eax := uint_of v\<rparr>\<rparr>) k1"
    have "same_core k1 ?k2" by (rule same_core_set_proc) (simp add: pcore_def)
    moreover have "table_inv k1" "running c cur k1" using k1 Ret by (simp_all add: kept_def)
    ultimately have "kept c cur (r0, ?k2)" by (intro kept_core)
    then show ?thesis using 2 Ret by simp
  qed (use k1 2 in auto)
qed

lemma trap_syscall_kept:
  assumes inv: "table_inv k" and run: "running c cur k" and r: "trap_syscall syms c cur k = Inr rk"
  shows "kept c cur rk"
proof (cases "killed (proc_at k cur)")
  case True
  with r sys_exit_kept [OF inv run] show ?thesis by (simp add: trap_syscall_def)
next
  case False
  with r obtain r0 k1 where 1: "syscall syms c cur k = Inr (r0, k1)"
    and 2: "(case r0 of Ret v \<Rightarrow> if killed (proc_at k1 cur) then sys_exit c cur k1 else Inr (r0, k1) | _ \<Rightarrow> Inr (r0, k1)) = Inr rk"
    by (auto elim!: andthenE simp: trap_syscall_def )
  have k1: "kept c cur (r0, k1)" using syscall_kept [OF inv run 1] .
  then show ?thesis using 2 sys_exit_kept [of k1 c cur rk] by (auto elim!: andthenE simp: kept_def split: sysret.split_asm if_split_asm)
qed

lemma trap_timer_inv:
  assumes inv: "table_inv k" and c: "c < length (current k)" and r: "trap_timer c user k = Inr k'"
  shows "table_inv k'"
proof -
  define k1 where "k1 = (if c = 0 then timer_tick k else k)"
  have "same_core k (k\<lparr>ticks := t\<rparr>)" for t by (simp add: same_core_def)
  then have "table_inv (timer_tick k)" using inv table_inv_core wakeup1_inv by (auto elim!: andthenE simp: timer_tick_def wakeup_def)
  then have I: "table_inv k1" using inv by (simp add: k1_def)
  have n: "current k1 = current k" by (simp add: k1_def timer_tick_def wakeup_def wakeup1_def)
  show ?thesis
  proof (cases "current k1 ! c")
    case None
    then show ?thesis using r I by (simp add: trap_timer_def k1_def [symmetric])
  next
    case (Some cur)
    then have run: "running c cur k1" using c n by (simp add: running_def)
    have "(if killed (proc_at k1 cur) \<and> user then andthen (exit c cur k1) (\<lambda>k2. Inr (deliver k2))
      else if p_state (proc_at k1 cur) = RUNNING then yield c cur k1 else Inr k1) = Inr k'"
      using r Some unfolding trap_timer_def k1_def [symmetric] Let_def by simp
    then show ?thesis using I exit_inv [OF I run] yield_inv [OF I run] deliver_inv by (auto elim!: andthenE simp: split: if_split_asm)
  qed
qed

end
