(* ===== verification/Proc_Steps.thy ===== *)
theory Proc_Steps
  imports Proc_Inv
begin

text \<open>
  The kernel as a step relation: the schedulers of all processors, system calls, clock interrupts, sleeping and waking
  up, in any order. The invariants of the process table hold in every reachable state.
\<close>

section \<open>The first process\<close>

text \<open>The table before the first process: \<^verbatim>\<open>ptable\<close> lies in zeroed memory and \<^verbatim>\<open>nextpid\<close> is 1.\<close>

definition empty_table :: "kernel \<Rightarrow> bool" where
  "empty_table k \<longleftrightarrow> (\<forall>i < nproc k. st k i = UNUSED \<and> parent (proc_at k i) = None) \<and> list_all (\<lambda>r. r = None) (current k) \<and>
     initproc k = None \<and> nextpid k = 1"

text \<open>What \<^verbatim>\<open>userinit\<close> leaves: one process, ready to run, with number 1.\<close>

definition booted :: "kernel \<Rightarrow> bool" where
  "booted k \<longleftrightarrow> (\<exists>i < nproc k. initproc k = Some i \<and> st k i = RUNNABLE \<and> pid (proc_at k i) = 1 \<and>
       (\<forall>j < nproc k. j \<noteq> i \<longrightarrow> st k j = UNUSED)) \<and>
     (\<forall>j < nproc k. parent (proc_at k j) = None) \<and> list_all (\<lambda>r. r = None) (current k) \<and> nextpid k = 2"

lemma userinit_booted:
  assumes "empty_table k" "userinit syms code k = Inr k'"
  shows "booted k'"
proof -
  from assms(2) obtain r k1 where al: "allocproc syms k = Inr (r, k1)" by (auto simp: userinit_def elim!: andthenE)
  show ?thesis
    using al
  proof (cases rule: allocproc_cases)
    case (found i p)
    with assms(2) al obtain d ip kf where k': "k' = set_proc i ((proc_at k1 i)\<lparr>pgdir := d, p_sz := PGSIZE, tf := user_tf,
        p_name := copy_name ''initcode'' (p_name (proc_at k1 i)), cwd := ip, p_state := RUNNABLE\<rparr>)
        (k1\<lparr>initproc := Some i, files := kf\<rparr>)"
      by (auto simp: userinit_def Let_def elim!: andthenE split: if_split_asm)
    show ?thesis using assms(1) found k'
      by (auto simp: booted_def empty_table_def set_proc_def nth_list_update intro!: exI [of _ i])
  qed (use assms(2) al in \<open>auto simp: userinit_def\<close>)
qed

lemma booted_inv:
  assumes "booted k"
  shows "table_inv k"
proof -
  from assms obtain i where i: "i < nproc k" "initproc k = Some i" "st k i = RUNNABLE" "pid (proc_at k i) = 1"
    and other: "\<And>j. j < nproc k \<Longrightarrow> j \<noteq> i \<Longrightarrow> st k j = UNUSED"
    and par: "\<And>j. j < nproc k \<Longrightarrow> parent (proc_at k j) = None" and cur: "\<And>c. c < length (current k) \<Longrightarrow> current k ! c = None"
    and n: "nextpid k = 2"
    by (auto simp: booted_def list_all_length)
  have s: "st k j = (if j = i then RUNNABLE else UNUSED)" if "j < nproc k" for j using i other that by auto
  have "cpu_inv k" using cur s by (auto simp: cpu_inv_def)
  moreover have "pid_inv k" using s i n by (auto simp: pid_inv_def split: if_splits)
  moreover have "wait_inv k" using s i par by (auto simp: wait_inv_def)
  ultimately show ?thesis by (simp add: table_inv_def)
qed

section \<open>Steps\<close>

text \<open>
  The steps of the machine. \<open>work\<close> stands for user programs and for the kernel code that goes on after a process has
  slept: they may change memory, files and registers in any way, but touch no field of the table that the process
  management uses; \<open>rest\<close> is a process that goes to sleep again in the middle of such code, and \<open>wait_again\<close> the next
  pass of the loop of \<^verbatim>\<open>wait\<close>.
\<close>

inductive kernel_step :: "symbols \<Rightarrow> kernel \<Rightarrow> kernel \<Rightarrow> bool" for syms where
  dispatch: "c < length (current k) \<Longrightarrow> current k ! c = None \<Longrightarrow> scheduler c k = Inr k' \<Longrightarrow> kernel_step syms k k'"
| call: "running c cur k \<Longrightarrow> trap_syscall syms c cur k = Inr (r, k') \<Longrightarrow> kernel_step syms k k'"
| timer: "c < length (current k) \<Longrightarrow> trap_timer c user k = Inr k' \<Longrightarrow> kernel_step syms k k'"
| wake: "kernel_step syms k (wakeup ch k)"
| resume: "running c cur k \<Longrightarrow> kernel_step syms k (sleep_return cur k)"
| rest: "running c cur k \<Longrightarrow> \<forall>j. ch \<noteq> ChProc j \<Longrightarrow> sleep c cur ch k = Inr k' \<Longrightarrow> kernel_step syms k k'"
| wait_again: "running c cur k \<Longrightarrow> wait c cur k = Inr (v, k') \<Longrightarrow> kernel_step syms k k'"
| work: "same_core k k' \<Longrightarrow> kernel_step syms k k'"

lemma kernel_step_inv: "kernel_step syms k k' \<Longrightarrow> table_inv k \<Longrightarrow> table_inv k'"
proof (induction rule: kernel_step.induct)
  case (dispatch c k k')
  then show ?case by (intro scheduler_inv [of k c k'])
next
  case (call c cur k r k')
  from trap_syscall_kept [OF call(3,1,2)] show ?case by (simp add: kept_def)
next
  case (timer c k user k')
  then show ?case by (intro trap_timer_inv [of k c user k'])
next
  case (wake k ch)
  then show ?case by (simp add: wakeup_def wakeup1_inv)
next
  case (resume c cur k)
  then show ?case by (intro sleep_return_inv)
next
  case (rest c cur k ch k')
  then show ?case by (intro sleep_inv [of k c cur ch k'])
next
  case (wait_again c cur k v k')
  then show ?case by (intro wait_step_inv [of k c cur v k'])
next
  case (work k k')
  then show ?case by (rule table_inv_core [rotated])
qed

lemma kernel_steps_inv: "(kernel_step syms)\<^sup>*\<^sup>* k k' \<Longrightarrow> table_inv k \<Longrightarrow> table_inv k'"
  by (induction rule: rtranclp_induct) (auto dest: kernel_step_inv)

section \<open>Errors\<close>

lemma log_block_idle: "\<not> log_busy (f_log f) \<Longrightarrow> \<exists>m. log_block s v f = Inl (Panic m)"
  by (simp add: log_block_def log_write_def)

lemma bfree_idle: "\<not> log_busy (f_log f) \<Longrightarrow> \<exists>m. bfree b f = Inl (Panic m)"
  using log_block_idle by (simp add: bfree_def Let_def)

lemma itrunc_direct_idle:
  "\<not> log_busy (f_log f) \<Longrightarrow> itrunc_direct n j i f = Inr f \<or> (\<exists>m. itrunc_direct n j i f = Inl (Panic m))"
proof (induction n arbitrary: j)
  case (Suc n)
  then show ?case using bfree_idle [OF Suc.prems, of "addrs (inode_at f i) ! j"] by auto
qed simp

lemma itrunc_indirect_idle:
  "\<not> log_busy (f_log f) \<Longrightarrow> itrunc_indirect as f = Inr f \<or> (\<exists>m. itrunc_indirect as f = Inl (Panic m))"
proof (induction "as")
  case (Cons a "as")
  then show ?case using bfree_idle [OF Cons.prems, of a] by auto
qed simp

lemma iupdate_idle: "\<not> log_busy (f_log f) \<Longrightarrow> \<exists>m. iupdate i f = Inl (Panic m)"
  using log_block_idle by (simp add: iupdate_def Let_def)

lemma itrunc_idle:
  assumes "\<not> log_busy (f_log f)"
  shows "\<exists>m. itrunc i f = Inl (Panic m)"
proof -
  let ?ind = "addrs (inode_at f i) ! NDIRECT"
  have "\<exists>m. iupdate i (set_inode i ip f) = Inl (Panic m)" for ip
    using iupdate_idle [of "set_inode i ip f"] assms by (simp add: set_inode_def)
  then show ?thesis
    using itrunc_direct_idle [OF assms, of NDIRECT 0 i] itrunc_indirect_idle [OF assms, of "get_words 0 NINDIRECT (block_at f ?ind)"]
      bfree_idle [OF assms, of ?ind]
    by (auto simp: itrunc_def Let_def)
qed

lemma iput_idle:
  assumes "\<not> log_busy (f_log f)" "ref (inode_at f i) = 1" "ivalid (inode_at f i)" "nlink (inode_at f i) = 0"
  shows "\<exists>m. iput i f = Inl (Panic m)"
  using itrunc_idle [of "set_inode i ((inode_at f i)\<lparr>ibusy := True\<rparr>) f" i] assms
  by (auto simp: iput_def set_inode_def Let_def)

section \<open>Properties\<close>

text \<open>A kernel with a small table, for the examples.\<close>

definition sample_files :: kfs where
  "sample_files =
     \<lparr>k_fs = \<lparr>f_store = reboot (\<lambda>_. []), f_log = log_example,
        icache = [\<lparr>idev = 1, inum = 1, ref = 1, ibusy = False, ivalid = True, itype = T_DIR, imajor = 0, iminor = 0, nlink = 0,
          isize = 0, addrs = replicate 13 0\<rparr>], dev_read = \<lambda>_. None, dev_write = \<lambda>_. None\<rparr>,
      ftable = [], pipes = \<lambda>_. pipe_init [],
      pages = \<lparr>k_mem = \<lambda>_. NUL, use_lock = 1, freelist = 0x80400000, no_of_alloc = 0, k_end = 0x80100000\<rparr>, woken = []\<rparr>"

definition sample_proc :: "procstate \<Rightarrow> int \<Rightarrow> nat option \<Rightarrow> proc" where
  "sample_proc s n par =
     \<lparr>p_sz = PGSIZE, pgdir = 0x80300000, kstack = 0x80301000, p_state = s, pid = n, parent = par, tf = user_tf,
      p_context = \<lparr>c_edi = 0, c_esi = 0, c_ebx = 0, c_ebp = 0, c_eip = 0\<rparr>, p_chan = None, killed = False,
      ofile = replicate NOFILE None, cwd = Some 0, p_name = replicate 16 NUL\<rparr>"

definition sample_kernel :: "proc list \<Rightarrow> nat option list \<Rightarrow> kernel" where
  "sample_kernel ps cs = \<lparr>files = sample_files, procs = ps, nextpid = 2, initproc = Some 0, current = cs, scan = [0, 0], first = False,
     ticks = 0\<rparr>"

definition sample_symbols :: symbols where
  "sample_symbols = \<lparr>sym_data = 0x80108000, sym_forkret = 0x80103a00\<rparr>"

lemma upt_two: "[0..<Suc (Suc 0)] = [0, Suc 0]" "[0..<2] = [0, Suc 0]"
  by (simp_all add: upt_rec)

text \<open>
  C2. In every state that the kernel reaches after \<^verbatim>\<open>userinit\<close>, on any number of processors and for any order of system
  calls, interrupts, wake-ups and scheduling decisions, a processor runs only a process in state \<^verbatim>\<open>RUNNING\<close>, no two
  processors run the same process, every running process has a processor, and no two entries in use have the same number.
\<close>

theorem one_processor_per_process:
  assumes "booted k0" "(kernel_step syms)\<^sup>*\<^sup>* k0 k"
  shows "(\<forall>c < length (current k). \<forall>i. current k ! c = Some i \<longrightarrow> i < nproc k \<and> st k i = RUNNING) \<and>
    (\<forall>c < length (current k). \<forall>d < length (current k). \<forall>i. current k ! c = Some i \<longrightarrow> current k ! d = Some i \<longrightarrow> c = d) \<and>
    (\<forall>i < nproc k. st k i = RUNNING \<longrightarrow> (\<exists>c < length (current k). current k ! c = Some i)) \<and>
    (\<forall>i < nproc k. \<forall>j < nproc k. st k i \<noteq> UNUSED \<longrightarrow> st k j \<noteq> UNUSED \<longrightarrow> pid (proc_at k i) = pid (proc_at k j) \<longrightarrow> i = j)"
proof -
  have "table_inv k" using kernel_steps_inv [OF assms(2) booted_inv [OF assms(1)]] .
  then have "cpu_inv k" "pid_inv k" by (simp_all add: table_inv_def)
  then show ?thesis unfolding cpu_inv_def pid_inv_def by blast
qed

theorem one_processor_witness:
  "\<exists>k. (kernel_step sample_symbols)\<^sup>*\<^sup>* (sample_kernel [sample_proc RUNNABLE 1 None, sample_proc UNUSED 0 None] [None, None]) k \<and>
     current k ! 1 = Some 0 \<and> current k ! 0 \<noteq> Some 0 \<and> st k 0 = RUNNING"
proof -
  let ?k0 = "sample_kernel [sample_proc RUNNABLE 1 None, sample_proc UNUSED 0 None] [None, None]"
  have b: "booted ?k0"
    unfolding booted_def by (auto simp: sample_kernel_def sample_proc_def nth_Cons split: nat.splits intro!: exI [of _ 0])
  obtain k where k: "scheduler 1 ?k0 = Inr k" "current k = [None, Some 0]"
    by (simp add: scheduler_def first_proc_def upt_two sample_kernel_def sample_proc_def switchuvm_def set_proc_def)
  have "kernel_step sample_symbols ?k0 k" by (rule kernel_step.dispatch [OF _ _ k(1)]) (simp_all add: sample_kernel_def)
  then have r: "(kernel_step sample_symbols)\<^sup>*\<^sup>* ?k0 k" by simp
  have "st k 0 = RUNNING"
    using one_processor_per_process [OF b r, THEN conjunct1, rule_format, of 1 0] k(2) by simp
  moreover have "current k ! 0 \<noteq> Some 0"
    using one_processor_per_process [OF b r, THEN conjunct2, THEN conjunct1, rule_format, of 0 1 0] k(2) by auto
  ultimately show ?thesis using r k(2) by auto
qed

text \<open>
  C3. \<^verbatim>\<open>wait\<close> misses no child: whenever a process is asleep in \<^verbatim>\<open>wait\<close>, in any state reached from one in which the
  invariants of the table hold, it has a child and none of its children is a \<^verbatim>\<open>ZOMBIE\<close>. So a parent never sleeps while
  there is a child to collect, the end of a child always wakes it up, and neither does the handing over of orphans to
  \<^verbatim>\<open>init\<close> lose a wake-up.
\<close>

theorem wait_misses_no_child:
  assumes "table_inv k0" "(kernel_step syms)\<^sup>*\<^sup>* k0 k" "i < nproc k" "st k i = SLEEPING" "p_chan (proc_at k i) = Some (ChProc j)"
  shows "j = i \<and> (\<exists>x < nproc k. parent (proc_at k x) = Some i) \<and> (\<forall>x < nproc k. parent (proc_at k x) = Some i \<longrightarrow> st k x \<noteq> ZOMBIE)"
proof -
  have "wait_inv k" using kernel_steps_inv [OF assms(2,1)] by (simp add: table_inv_def)
  then show ?thesis using assms(3-5) unfolding wait_inv_def by blast
qed

theorem wait_misses_no_child_witness:
  "\<exists>k. (kernel_step sample_symbols)\<^sup>*\<^sup>* (sample_kernel [sample_proc RUNNING 1 None, sample_proc RUNNABLE 2 (Some 0)] [Some 0, None]\<lparr>nextpid := 3\<rparr>) k \<and>
     st k 0 = SLEEPING \<and> (\<forall>x < nproc k. parent (proc_at k x) = Some 0 \<longrightarrow> st k x \<noteq> ZOMBIE)"
proof -
  let ?k0 = "sample_kernel [sample_proc RUNNING 1 None, sample_proc RUNNABLE 2 (Some 0)] [Some 0, None]\<lparr>nextpid := 3\<rparr>"
  have inv: "table_inv ?k0"
    by (auto simp: table_inv_def cpu_inv_def pid_inv_def wait_inv_def sample_kernel_def sample_proc_def less_Suc_eq)
  obtain k where k: "wait 0 0 ?k0 = Inr (None, k)" "nproc k = 2" "st k 0 = SLEEPING" "p_chan (proc_at k 0) = Some (ChProc 0)"
    by (simp add: wait_def first_proc_def upt_two sample_kernel_def sample_proc_def sleep_def leave_cpu_def sched_def set_proc_def)
  have "running 0 0 ?k0" by (simp add: running_def sample_kernel_def)
  from kernel_step.wait_again [OF this k(1), of sample_symbols] have r: "(kernel_step sample_symbols)\<^sup>*\<^sup>* ?k0 k" by simp
  from wait_misses_no_child [OF inv r _ k(3,4)] r k show ?thesis by auto
qed

text \<open>
  C32. \<^verbatim>\<open>exit\<close> releases the working directory outside of a transaction. When the directory has been unlinked and the
  process holds its last reference, and no transaction is open, \<^verbatim>\<open>iput\<close> tries to free the inode and the kernel panics;
  \<^verbatim>\<open>exit\<close> never succeeds.
\<close>

theorem exit_in_removed_directory_panics:
  assumes "initproc k \<noteq> Some cur" "close_files (ofile (proc_at k cur)) (files k) = Inr kf" "cwd (proc_at k cur) = Some i"
    and "\<not> log_busy (f_log (k_fs kf))" "ref (inode_at (k_fs kf) i) = 1" "ivalid (inode_at (k_fs kf) i)" "nlink (inode_at (k_fs kf) i) = 0"
  shows "\<exists>m. exit c cur k = Inl (Panic m)"
proof -
  from iput_idle [OF assms(4-7)] obtain m where "iput i (k_fs kf) = Inl (Panic m)" by blast
  then show ?thesis using assms(1-3) by (simp add: exit_def exit_files_def)
qed

theorem exit_in_removed_directory_witness:
  "\<exists>m. exit 0 1 (sample_kernel [sample_proc RUNNABLE 1 None, sample_proc RUNNING 2 (Some 0)] [Some 1, None]) = Inl (Panic m)"
proof -
  have c: "close_files (replicate n None) kf = Inr kf" for n kf by (induction n) simp_all
  show ?thesis
    by (rule exit_in_removed_directory_panics [where i = 0 and kf = sample_files])
      (simp_all add: sample_kernel_def sample_proc_def c, simp_all add: sample_files_def log_example_def)
qed

text \<open>
  C33. \<^verbatim>\<open>kill(0)\<close> succeeds although no process has the number 0: it finds the first free entry of the table and marks it as
  killed. \<^verbatim>\<open>allocproc\<close> keeps the mark, so the next process, in particular the next child of any \<^verbatim>\<open>fork\<close>, is born killed.
\<close>

theorem kill_zero_kills_next_child:
  assumes "i < nproc k" "st k i = UNUSED" "pid (proc_at k i) = 0" "\<forall>j < i. st k j \<noteq> UNUSED \<and> pid (proc_at k j) \<noteq> 0"
  shows "\<exists>k1. kill 0 k = (0, k1) \<and>
    (\<forall>n k2. allocproc syms k1 = Inr (Some n, k2) \<longrightarrow> n = i \<and> killed (proc_at k2 i)) \<and>
    (\<forall>v k2. fork syms cur k1 = Inr (v, k2) \<longrightarrow> v \<noteq> - 1 \<longrightarrow> killed (proc_at k2 i) \<and> st k2 i = RUNNABLE)"
proof -
  let ?k1 = "set_proc i ((proc_at k i)\<lparr>killed := True\<rparr>) k"
  have f: "first_proc P [0..<nproc k] ps = Some i" if "P (ps ! i)" "\<And>j. j < i \<Longrightarrow> \<not> P (ps ! j)" for P ps
    using assms(1) that by (auto simp: first_proc_def find_Some_iff intro!: exI [of _ i])
  have "kill 0 k = (0, ?k1)" using assms f [of "\<lambda>p. pid p = 0" "procs k"] by (simp add: kill_def Let_def)
  moreover have u: "first_proc (\<lambda>p. p_state p = UNUSED) [0..<nproc ?k1] (procs ?k1) = Some i"
    using assms f [of "\<lambda>p. p_state p = UNUSED" "procs ?k1"] by (simp add: set_proc_def)
  have al: "n = i \<and> killed (proc_at k2 i) \<and> nproc k2 = nproc k" if "allocproc syms ?k1 = Inr (Some n, k2)" for n k2
    using that u assms(1) by (auto simp: allocproc_def Let_def set_pages_def set_proc_def split: if_split_asm prod.split_asm)
  moreover have "killed (proc_at k2 i) \<and> st k2 i = RUNNABLE" if r: "fork syms cur ?k1 = Inr (v, k2)" "v \<noteq> - 1" for v k2
  proof -
    from r(1) obtain a k3 where a: "allocproc syms ?k1 = Inr (a, k3)" by (auto simp: fork_def elim!: andthenE)
    with r obtain n where n: "a = Some n" by (cases a) (simp_all add: fork_def)
    from al [OF a [unfolded n]] have "n = i" "killed (proc_at k3 i)" "i < nproc k3" using assms(1) by auto
    then show ?thesis using r a n
      by (auto simp: fork_def Let_def set_proc_def elim!: andthenE split: if_split_asm)
  qed
  ultimately show ?thesis by blast
qed

theorem kill_zero_witness:
  "\<exists>k1 k2. kill 0 (sample_kernel [sample_proc RUNNING 1 None, sample_proc UNUSED 0 None] [Some 0, None]) = (0, k1) \<and>
     allocproc sample_symbols k1 = Inr (Some 1, k2) \<and> killed (proc_at k2 1)"
proof -
  let ?k = "sample_kernel [sample_proc RUNNING 1 None, sample_proc UNUSED 0 None] [Some 0, None]"
  have "\<exists>k1. kill 0 ?k = (0, k1) \<and>
    (\<forall>n k2. allocproc sample_symbols k1 = Inr (Some n, k2) \<longrightarrow> n = 1 \<and> killed (proc_at k2 1)) \<and>
    (\<forall>v k2. fork sample_symbols 0 k1 = Inr (v, k2) \<longrightarrow> v \<noteq> - 1 \<longrightarrow> killed (proc_at k2 1) \<and> st k2 1 = RUNNABLE)"
    by (rule kill_zero_kills_next_child) (simp_all add: sample_kernel_def sample_proc_def)
  then obtain k1 where k1: "kill 0 ?k = (0, k1)" and al: "\<And>n k2. allocproc sample_symbols k1 = Inr (Some n, k2) \<Longrightarrow> killed (proc_at k2 1)"
    by blast
  have "k1 = sample_kernel [sample_proc RUNNING 1 None, (sample_proc UNUSED 0 None)\<lparr>killed := True\<rparr>] [Some 0, None]"
    using k1 by (simp add: kill_def first_proc_def upt_two sample_kernel_def sample_proc_def set_proc_def Let_def)
  then have "\<exists>k2. allocproc sample_symbols k1 = Inr (Some 1, k2)"
    by (simp add: allocproc_def first_proc_def upt_two sample_kernel_def sample_proc_def set_proc_def Let_def
      kalloc_def sample_files_def set_pages_def)
  then show ?thesis using k1 al by blast
qed

end
