(* ===== verification/Spec2Isabelle.thy ===== *)
theory Spec2Isabelle
  imports Printf Editor_Session Grep Pipe Kalloc Spinlock File_Content Shell_Roundtrip Proc_Steps
begin

text \<open>
  \<^bold>\<open>A verification of xv6 with its line editor.\<close>

  The program is the teaching kernel xv6 for the x86 (\<^verbatim>\<open>src/xv6_all_files\<close>) with its user programs, extended by a line
  editor with syntax highlighting and undo (\<^verbatim>\<open>src/editor.c\<close>; \<^verbatim>\<open>xv6_all_files/editor.c\<close> is the same program). The development
  is a shallow embedding: C functions are HOL functions over explicit states, and every fault of the code (a panic, an
  access outside of an array, a null pointer) is a value of the type \<open>fault\<close> of \<open>Prelude\<close>.

  \<^bold>\<open>The parts of the program and their theories.\<close>

  \<^descr> \<^bold>\<open>Shared.\<close> \<open>Prelude\<close>: bytes, C strings in buffers, faults, words, the collections of rewrite rules. \<open>C_Strings\<close>: the memory
  and string routines of \<^verbatim>\<open>string.c\<close> and \<^verbatim>\<open>ulib.c\<close> over a byte memory. \<open>Printf\<close>: \<^verbatim>\<open>printf.c\<close> and \<^verbatim>\<open>printint\<close> of \<^verbatim>\<open>console.c\<close>.

  \<^descr> \<^bold>\<open>Editor.\<close> \<open>Editor_Base\<close> (the globals as the record \<open>editor\<close>, the number parsing), \<open>Editor_Highlight\<close> (the scanner that colours
  a line), \<open>Editor_Commands\<close> (one function per \<^verbatim>\<open>com_\<dots>\<close> function, the loading of the file, one round of the loop of \<^verbatim>\<open>main\<close> as
  \<open>main_step\<close>), \<open>Editor_Spec\<close> (texts as lists of lines, the commands as list operations), \<open>Editor_Session\<close> (whole sessions).

  \<^descr> \<^bold>\<open>User programs.\<close> \<open>Grep\<close>: \<^verbatim>\<open>grep.c\<close>. \<open>Shell\<close>, \<open>Shell_Parse\<close>, \<open>Shell_Roundtrip\<close>: \<^verbatim>\<open>sh.c\<close>, from the tokenizer to the tree of system
  calls a command makes.

  \<^descr> \<^bold>\<open>Locks and memory.\<close> \<open>Spinlock\<close>: \<^verbatim>\<open>spinlock.c\<close>, cut at the atomic exchanges, as the relation \<open>lock_step\<close> of all processors.
  \<open>Kalloc\<close>: \<^verbatim>\<open>kalloc.c\<close>, the free list threaded through the free pages. \<open>Vm\<close>: the page tables of \<^verbatim>\<open>vm.c\<close> in the memory of \<open>Kalloc\<close>.

  \<^descr> \<^bold>\<open>Disk and file system.\<close> \<open>Bio\<close>: \<^verbatim>\<open>bio.c\<close> over the memory disk of \<^verbatim>\<open>memide.c\<close>. \<open>Disk\<close>: the cache seen as an array of blocks with
  a trace of disk writes. \<open>Log\<close>: \<^verbatim>\<open>log.c\<close>. \<open>Fs_Blocks\<close>, \<open>Inode\<close>, \<open>Directory\<close>: \<^verbatim>\<open>fs.c\<close>. \<open>File_Content\<close>: the block map of a file. \<open>File\<close>:
  \<^verbatim>\<open>file.c\<close>. \<open>Byte_Queue\<close> and \<open>Pipe\<close>: the contract of a bounded queue, and \<^verbatim>\<open>pipe.c\<close>.

  \<^descr> \<^bold>\<open>Processes and system calls.\<close> \<open>Proc\<close>: \<^verbatim>\<open>proc.c\<close>, the record \<open>kernel\<close> holds the process table, the processors and the files.
  \<open>Sysfile\<close>, \<open>Exec\<close>, \<open>Syscall\<close>: the arguments of calls (\<^verbatim>\<open>syscall.c\<close>), \<^verbatim>\<open>sysfile.c\<close>, \<^verbatim>\<open>exec.c\<close>, \<^verbatim>\<open>sysproc.c\<close>, the dispatch and the traps
  for system calls and the clock (\<^verbatim>\<open>trap.c\<close>). \<open>Proc_Inv\<close>, \<open>Proc_Steps\<close>: the kernel as a step relation and its invariants.

  \<^bold>\<open>How state and operations correspond to the code.\<close> A structure is a record with the fields of the code, a global
  variable is a field of the record of its component, and a pointer to an element of a table is the index of the element.
  An operation of the kernel is the critical section between two places where the code can be interrupted by others: it
  starts at \<^verbatim>\<open>acquire\<close> and ends at \<^verbatim>\<open>release\<close> or when the process goes to sleep, and then it reports the channel and the work that
  is left. The file system runs one operation at a time on the block store; the justification is the log, which admits one
  transaction at a time. Where several processors matter (\<open>Spinlock\<close>, \<open>Proc_Steps\<close>), the steps interleave in any order.
  32-bit counters that wrap around (\<^verbatim>\<open>nread\<close> and \<^verbatim>\<open>nwrite\<close> of a pipe) are words; addresses and sizes are natural numbers with the
  reduction modulo \<open>2 ^ 32\<close> written out.

  \<^bold>\<open>What the lemmas show.\<close>

  \<^item> \<open>Log\<close>: a crash after any disk write of a transaction, followed by recovery, leaves all of it or nothing; a transaction that
  fits commits; recovery can itself be interrupted. \<open>Bio\<close> and \<open>Disk\<close>: the cache never serves a stale block, recycles the least
  recently used buffer, and implements a plain array of blocks. \<open>Fs_Blocks\<close>: \<^verbatim>\<open>balloc\<close> returns a fresh zeroed block, and what
  happens when the disk is full.

  \<^item> \<open>Proc_Steps\<close>: no process runs on two processors, process numbers are unique, and \<^verbatim>\<open>wait\<close> misses no child, in every reachable
  state. \<open>Spinlock\<close>: mutual exclusion, with interrupts off inside. \<open>Kalloc\<close>: a page has one owner. \<open>Pipe\<close>: bytes arrive once and
  in order, and the two ends never wait for each other.

  \<^item> \<open>Editor_Session\<close>: the editor's invariant holds in every session, the commands implement list operations, \<^verbatim>\<open>rb\<close> undoes edits,
  saving and loading are inverse. \<open>Editor_Highlight\<close>: the highlighter prints the line itself, and for exactly which lines it
  does not return. \<open>Shell_Roundtrip\<close>, \<open>Shell_Parse\<close>: the parser returns on every line and reads back what is printed. \<open>Grep\<close>: the
  matcher decides the language of a pattern. \<open>C_Strings\<close>, \<open>Printf\<close>: the library routines against their specifications.

  \<^item> Theorems that show flaws of the code: \<^verbatim>\<open>balloc\<close> hands out the blocks of the log, \<^verbatim>\<open>grep\<close> repeats stale lines, the highlighter
  hangs on an unpartnered quotation mark, \<^verbatim>\<open>kill(0)\<close> marks a free entry, and \<^verbatim>\<open>exit\<close> in a removed directory panics.

  \<^bold>\<open>Contracts.\<close> The locale \<open>byte_queue\<close> states what a bounded queue of bytes promises and proves the behaviour of the loops that fill and
  drain it; the pipe interprets it. The locale \<open>page_allocator\<close> states who owns a page; \<^verbatim>\<open>kalloc\<close> and \<^verbatim>\<open>kfree\<close> interpret it.

  \<^bold>\<open>Bounds and fuel.\<close> Loops over linked buffers (\<open>search\<close> in \<open>Bio\<close>) get fuel for one round of the ring, which the ring invariant shows to be
  enough. The shell's parser gets fuel by the length of the line, and \<open>parsecmd_returns_words\<close> proves that it suffices for
  every line. Loops that may run for ever are \<open>while_option\<close> or a partial function into \<open>option\<close>, where not returning is
  \<open>None\<close>. All other recursion is structural or has a termination proof.

  \<^bold>\<open>Not modelled.\<close> Code that only programs hardware: the boot loader and the entry code, \<^verbatim>\<open>lapic.c\<close>, \<^verbatim>\<open>ioapic.c\<close>, \<^verbatim>\<open>picirq.c\<close>, \<^verbatim>\<open>mp.c\<close>, \<^verbatim>\<open>uart.c\<close>,
  \<^verbatim>\<open>timer.c\<close>, \<^verbatim>\<open>ide.c\<close> (the memory disk of \<^verbatim>\<open>memide.c\<close>, with the same interface, is modelled), segment registers and the stack switch of
  \<^verbatim>\<open>swtch.S\<close>; assembly and generated files; \<^verbatim>\<open>main.c\<close>, which calls the initialisations in order; the test programs
  \<^verbatim>\<open>usertests.c\<close>, \<^verbatim>\<open>forktest.c\<close> and \<^verbatim>\<open>stressfs.c\<close>, and the smaller user programs, which only make system calls.
\<close>

end
